(* ===== verification/HJ_Prelude.thy ===== *)
theory HJ_Prelude
  imports Main "HOL-Library.Word"
begin

text \<open>
  Shared vocabulary of the development: the machine types of the Rust sources as words,
  the checked slice and integer operations the sources use from the standard library
  (\<open>slice::get\<close>, \<open>checked_add\<close>, \<open>saturating_sub\<close>, \<open>from_be_bytes\<close>, ...), and the generic
  lemmas on words and lists that the components' proofs rest on.
\<close>

unbundle bit_operations_syntax

section \<open>Machine types\<close>

type_synonym u8 = "8 word"
type_synonym u16 = "16 word"
type_synonym u32 = "32 word"
type_synonym u64 = "64 word"
type_synonym bytes = "u8 list"

named_theorems word_nat \<open>reading word operations as operations on natural numbers\<close>
named_theorems slice_simps \<open>checked slice access on appended buffers\<close>

section \<open>Checked slice access\<close>

text \<open>\<open>slice.get(i)\<close> and \<open>slice.get(a..b)\<close>: \<open>None\<close> when out of range.\<close>

definition list_get :: "'a list \<Rightarrow> nat \<Rightarrow> 'a option" where
  "list_get xs i = (if i < length xs then Some (xs ! i) else None)"

definition slice_get :: "'a list \<Rightarrow> nat \<Rightarrow> nat \<Rightarrow> 'a list option" where
  "slice_get xs a b = (if a \<le> b \<and> b \<le> length xs then Some (take (b - a) (drop a xs)) else None)"

lemma list_get_append_length [slice_simps]: "list_get (xs @ y # ys) (length xs) = Some y"
  by (simp add: list_get_def)

lemma list_get_drop: "list_get xs i = (case drop i xs of [] \<Rightarrow> None | y # _ \<Rightarrow> Some y)"
  by (cases "i < length xs") (auto simp: list_get_def Cons_nth_drop_Suc [symmetric])

lemma list_get_SomeD: "list_get xs i = Some y \<Longrightarrow> i < length xs \<and> xs ! i = y"
  by (simp add: list_get_def split: if_splits)

lemma list_get_None_iff: "list_get xs i = None \<longleftrightarrow> length xs \<le> i"
  by (auto simp: list_get_def)

lemma list_get_in_set: "list_get xs i = Some y \<Longrightarrow> y \<in> set xs"
  by (auto dest: list_get_SomeD)

lemma slice_get_append [slice_simps]:
  "slice_get (xs @ ys @ zs) (length xs) (length xs + length ys) = Some ys"
  by (simp add: slice_get_def)

lemma slice_get_SomeD:
  "slice_get xs a b = Some ys \<Longrightarrow> a \<le> b \<and> b \<le> length xs \<and> length ys = b - a"
  by (auto simp: slice_get_def split: if_splits)

section \<open>Checked and saturating arithmetic\<close>

definition checked_add64 :: "u64 \<Rightarrow> u64 \<Rightarrow> u64 option" where
  "checked_add64 a b = (if unat a + unat b < 2 ^ 64 then Some (a + b) else None)"

definition usize_max :: nat where
  "usize_max = 2 ^ 64 - 1"

text \<open>\<open>usize::saturating_add\<close> and \<open>saturating_mul\<close>; \<open>saturating_sub\<close> is \<open>-\<close> on \<open>nat\<close>.\<close>

definition usize_sat_add :: "nat \<Rightarrow> nat \<Rightarrow> nat" where
  "usize_sat_add a b = min (a + b) usize_max"

definition usize_sat_mul :: "nat \<Rightarrow> nat \<Rightarrow> nat" where
  "usize_sat_mul a b = min (a * b) usize_max"

lemma unat_checked_add64 [word_nat]: "checked_add64 a b = Some c \<Longrightarrow> unat c = unat a + unat b"
  by (auto simp: checked_add64_def unat_word_ariths split: if_splits)

section \<open>Words as natural numbers\<close>

lemma unat_drop_bit_div [word_nat]: "unat (drop_bit n (v :: 'a::len word)) = unat v div 2 ^ n"
  by (metis drop_bit_eq_div unat_drop_bit_eq)

lemma unat_take_bit_mod [word_nat]: "unat (take_bit n (v :: 'a::len word)) = unat v mod 2 ^ n"
  by (metis take_bit_eq_mod unsigned_take_bit_eq)

lemma unat_push_bit_mod [word_nat]:
  "unat (push_bit n (v :: 'a::len word)) = (unat v * 2 ^ n) mod 2 ^ LENGTH('a)"
  by (metis push_bit_eq_mult take_bit_eq_mod unsigned_push_bit_eq)

lemma unat_ucast_mod [word_nat]:
  "unat (ucast (v :: 'a::len word) :: 'b::len word) = unat v mod 2 ^ LENGTH('b)"
  by (metis take_bit_eq_mod unsigned_ucast_eq)

lemma unat_or_disjoint: "a AND b = 0 \<Longrightarrow> unat (a OR b) = unat a + unat (b :: 'a::len word)"
  by (metis disjunctive_add_eq_or unat_plus_if' unsigned_or_eq unsigned_and_eq unsigned_0)

lemma and_7f_take_bit_u64: "(v :: u64) AND 0x7f = take_bit 7 v"
proof -
  have "mask 7 = (0x7f :: u64)" by code_simp
  then show ?thesis by (metis take_bit_eq_mask)
qed

lemma and_7f_take_bit_u8: "(v :: u8) AND 0x7f = take_bit 7 v"
proof -
  have "mask 7 = (0x7f :: u8)" by code_simp
  then show ?thesis by (metis take_bit_eq_mask)
qed

lemma unat_and_7f_u8 [word_nat]: "unat ((b :: u8) AND 0x7f) = unat b mod 128"
  by (simp only: and_7f_take_bit_u8 unat_take_bit_mod) simp

lemma unat_and_7f_u64 [word_nat]: "unat ((b :: u64) AND 0x7f) = unat b mod 128"
  by (simp only: and_7f_take_bit_u64 unat_take_bit_mod) simp

lemma unat_u8_lt: "unat (b :: u8) < 256"
  using unsigned_less [of b, where 'a = nat] by simp

lemma unat_u64_lt: "unat (b :: u64) < 2 ^ 64"
  using unsigned_less [of b, where 'a = nat] by simp

lemma bit7_u8_iff: "bit (b :: u8) 7 \<longleftrightarrow> 128 \<le> unat b"
proof -
  have "bit b 7 \<longleftrightarrow> bit (unat b) 7" by (simp add: bit_unsigned_iff)
  also have "\<dots> \<longleftrightarrow> odd (unat b div 128)" by (simp add: bit_iff_odd)
  also have "unat b div 128 = (if 128 \<le> unat b then 1 else 0)"
    using unat_u8_lt [of b] by auto
  finally show ?thesis by simp
qed

lemma and_80_eq_0_iff: "(b :: u8) AND 0x80 = 0 \<longleftrightarrow> unat b < 128"
  using and_exp_eq_0_iff_not_bit [of b 7] by (simp add: bit7_u8_iff not_le)

lemma unat_or_80 [word_nat]: "unat (((b :: u8) AND 0x7f) OR 0x80) = unat b mod 128 + 128"
proof -
  have "(b AND 0x7f) AND 0x80 = 0"
    by (simp add: and_80_eq_0_iff unat_and_7f_u8)
  then show ?thesis by (simp add: unat_or_disjoint unat_and_7f_u8)
qed

lemma unat_mask_le [word_nat]:
  assumes "n \<le> LENGTH('a)"
  shows "unat (mask n :: 'a::len word) = 2 ^ n - 1"
proof -
  have "unat (mask n :: 'a word) = mask n"
    using assms by (auto simp: bit_eq_iff bit_simps)
  then show ?thesis by (simp add: mask_eq_exp_minus_1)
qed

section \<open>Big-endian integers\<close>

definition u16_to_be :: "u16 \<Rightarrow> bytes" where
  "u16_to_be w = [ucast (drop_bit 8 w), ucast w]"

definition u16_of_be :: "u8 \<Rightarrow> u8 \<Rightarrow> u16" where
  "u16_of_be a b = push_bit 8 (ucast a) OR ucast b"

definition u32_to_be :: "u32 \<Rightarrow> bytes" where
  "u32_to_be w = [ucast (drop_bit 24 w), ucast (drop_bit 16 w), ucast (drop_bit 8 w), ucast w]"

definition u32_of_be :: "u8 \<Rightarrow> u8 \<Rightarrow> u8 \<Rightarrow> u8 \<Rightarrow> u32" where
  "u32_of_be a b c d =
     push_bit 24 (ucast a) OR push_bit 16 (ucast b) OR push_bit 8 (ucast c) OR ucast d"

lemma length_to_be [simp]: "length (u16_to_be v) = 2" "length (u32_to_be w) = 4"
  by (simp_all add: u16_to_be_def u32_to_be_def)

section \<open>Binary search\<close>

text \<open>
  \<open>slice::binary_search_by_key\<close>, with the loop of the standard library: the range that can hold
  the key is halved until one element is left. \<open>Some i\<close> is \<open>Ok(i)\<close>, \<open>None\<close> is \<open>Err(_)\<close>.
\<close>

fun bsearch_loop :: "('a \<Rightarrow> 'k::linorder) \<Rightarrow> 'k \<Rightarrow> 'a list \<Rightarrow> nat \<Rightarrow> nat \<Rightarrow> nat" where
  "bsearch_loop key k xs base sz =
     (if sz > 1 then
        (let half = sz div 2; mid = base + half
         in bsearch_loop key k xs (if key (xs ! mid) > k then base else mid) (sz - half))
      else base)"

declare bsearch_loop.simps [simp del]

definition binary_search_by_key :: "('a \<Rightarrow> 'k::linorder) \<Rightarrow> 'k \<Rightarrow> 'a list \<Rightarrow> nat option" where
  "binary_search_by_key key k xs =
     (if xs = [] then None
      else (let base = bsearch_loop key k xs 0 (length xs)
            in if key (xs ! base) = k then Some base else None))"

lemma bsearch_loop_range:
  "0 < sz \<Longrightarrow> base \<le> bsearch_loop key k xs base sz \<and> bsearch_loop key k xs base sz < base + sz"
proof (induction key k xs base sz rule: bsearch_loop.induct)
  case (1 key k xs base sz)
  show ?case
  proof (cases "sz > 1")
    case True
    then show ?thesis
      using "1.IH" [OF True refl refl] by (subst (1 2) bsearch_loop.simps) (auto simp: Let_def)
  next
    case False
    then show ?thesis using "1.prems" by (simp add: bsearch_loop.simps)
  qed
qed

lemma bsearch_loop_finds:
  assumes "sorted_wrt (\<lambda>x y. key x < key y) xs" "i < length xs"
    and "base \<le> i" "i < base + sz" "base + sz \<le> length xs"
  shows "bsearch_loop key (key (xs ! i)) xs base sz = i"
  using assms(3-5)
proof (induction "sz" arbitrary: base rule: less_induct)
  case (less sz)
  show ?case
  proof (cases "sz > 1")
    case True
    let ?half = "sz div 2"
    let ?mid = "base + ?half"
    have mid: "?mid < length xs" using True less.prems(3) by linarith
    have gt: "key (xs ! ?mid) > key (xs ! i) \<longleftrightarrow> i < ?mid"
      using assms(1,2) mid sorted_wrt_nth_less [of _ xs] by (metis linorder_neqE_nat order_less_asym order_less_irrefl)
    show ?thesis
    proof (cases "i < ?mid")
      assume lt: "i < ?mid"
      then have "bsearch_loop key (key (xs ! i)) xs base (sz - ?half) = i"
        using True less.prems by (intro less.IH) auto
      then show ?thesis using True gt lt by (simp add: bsearch_loop.simps [of _ _ _ base] Let_def)
    next
      assume ge: "\<not> i < ?mid"
      then have "bsearch_loop key (key (xs ! i)) xs ?mid (sz - ?half) = i"
        using True less.prems by (intro less.IH) auto
      then show ?thesis using True gt ge by (simp add: bsearch_loop.simps [of _ _ _ base] Let_def)
    qed
  next
    case False
    then show ?thesis using less.prems by (simp add: bsearch_loop.simps)
  qed
qed

lemma binary_search_SomeD:
  assumes "binary_search_by_key key k xs = Some i"
  shows "i < length xs \<and> key (xs ! i) = k"
  using assms bsearch_loop_range [of "length xs" 0 key k xs]
  by (auto simp: binary_search_by_key_def Let_def split: if_splits)

lemma binary_search_finds:
  assumes "sorted_wrt (\<lambda>x y. key x < key y) xs" "x \<in> set xs"
  shows "\<exists>i. binary_search_by_key key (key x) xs = Some i \<and> xs ! i = x"
proof -
  obtain i where i: "i < length xs" "x = xs ! i" using assms(2) by (metis in_set_conv_nth)
  then have "bsearch_loop key (key x) xs 0 (length xs) = i"
    using bsearch_loop_finds [OF assms(1) i(1), of 0 "length xs"] by simp
  then show ?thesis using i by (auto simp: binary_search_by_key_def Let_def)
qed

section \<open>Position of the first match\<close>

text \<open>\<open>iter().position\<close>: the index of the first element that satisfies the predicate.\<close>

primrec list_position :: "('a \<Rightarrow> bool) \<Rightarrow> 'a list \<Rightarrow> nat option" where
  "list_position P [] = None"
| "list_position P (x # xs) = (if P x then Some 0 else map_option Suc (list_position P xs))"

lemma list_position_SomeD: "list_position P xs = Some i \<Longrightarrow> i < length xs \<and> P (xs ! i)"
  by (induction xs arbitrary: i) (auto split: if_splits)

lemma list_position_None: "list_position P xs = None \<longleftrightarrow> (\<forall>x \<in> set xs. \<not> P x)"
  by (induction xs) auto

lemma list_position_map: "list_position P (map f xs) = list_position (\<lambda>x. P (f x)) xs"
  by (induction xs) auto

end
