(* ===== verification/Byte_Text.thy ===== *)
theory Byte_Text
  imports HJ_Prelude
begin

text \<open>
  Text as the Rust sources handle it: a \<open>&str\<close> is its UTF-8 octets. The functions are those of the
  standard library that the modelled code calls on \<open>u8\<close>, \<open>[u8]\<close> and \<open>str\<close>: the ASCII classes, case
  folding, splitting at a byte, trimming, UTF-8 validation and \<open>u64\<close> parsing.
\<close>

section \<open>Literals\<close>

definition str_bytes :: "string \<Rightarrow> bytes" where
  "str_bytes s = map of_char s"

lemma of_char_u8_inject: "(of_char c :: u8) = of_char d \<longleftrightarrow> c = d"
proof -
  have "unat (of_char c :: u8) = of_char c" for c
  proof -
    have "unat (of_nat (of_char c) :: u8) = of_char c mod 256" by (simp only: unat_of_nat) simp
    then show ?thesis by (simp add: of_nat_of_char nat_of_char_less_256)
  qed
  then show ?thesis by (metis of_char_eq_iff)
qed

lemma str_bytes_inject: "str_bytes s = str_bytes t \<longleftrightarrow> s = t"
proof -
  have "inj (of_char :: char \<Rightarrow> u8)" by (rule injI) (simp add: of_char_u8_inject)
  then show ?thesis by (simp add: str_bytes_def inj_map_eq_map)
qed

lemma length_str_bytes [simp]: "length (str_bytes s) = length s"
  by (simp add: str_bytes_def)

section \<open>ASCII classes\<close>

definition is_ascii_digit :: "u8 \<Rightarrow> bool" where
  "is_ascii_digit b = (0x30 \<le> b \<and> b \<le> 0x39)"

definition is_ascii_uppercase :: "u8 \<Rightarrow> bool" where
  "is_ascii_uppercase b = (0x41 \<le> b \<and> b \<le> 0x5a)"

definition is_ascii_lowercase :: "u8 \<Rightarrow> bool" where
  "is_ascii_lowercase b = (0x61 \<le> b \<and> b \<le> 0x7a)"

definition is_ascii_alphabetic :: "u8 \<Rightarrow> bool" where
  "is_ascii_alphabetic b = (is_ascii_uppercase b \<or> is_ascii_lowercase b)"

definition is_ascii_alphanumeric :: "u8 \<Rightarrow> bool" where
  "is_ascii_alphanumeric b = (is_ascii_alphabetic b \<or> is_ascii_digit b)"

definition is_ascii_hexdigit :: "u8 \<Rightarrow> bool" where
  "is_ascii_hexdigit b =
     (is_ascii_digit b \<or> (0x41 \<le> b \<and> b \<le> 0x46) \<or> (0x61 \<le> b \<and> b \<le> 0x66))"

lemmas ascii_class_defs = is_ascii_digit_def is_ascii_uppercase_def is_ascii_lowercase_def
  is_ascii_alphabetic_def is_ascii_alphanumeric_def is_ascii_hexdigit_def

definition ascii_lower :: "u8 \<Rightarrow> u8" where
  "ascii_lower b = (if is_ascii_uppercase b then b + 0x20 else b)"

definition to_ascii_lowercase :: "bytes \<Rightarrow> bytes" where
  "to_ascii_lowercase bs = map ascii_lower bs"

definition eq_ignore_ascii_case :: "bytes \<Rightarrow> bytes \<Rightarrow> bool" where
  "eq_ignore_ascii_case a b = (to_ascii_lowercase a = to_ascii_lowercase b)"

section \<open>Splitting\<close>

definition strip_prefix_byte :: "u8 \<Rightarrow> bytes \<Rightarrow> bytes option" where
  "strip_prefix_byte c s = (case s of [] \<Rightarrow> None | b # r \<Rightarrow> if b = c then Some r else None)"

text \<open>\<open>split_once\<close> at the first, \<open>rsplit_once\<close> at the last occurrence of a byte.\<close>

primrec split_once :: "u8 \<Rightarrow> bytes \<Rightarrow> (bytes \<times> bytes) option" where
  "split_once c [] = None"
| "split_once c (b # s) =
     (if b = c then Some ([], s) else map_option (apfst ((#) b)) (split_once c s))"

definition rsplit_once :: "u8 \<Rightarrow> bytes \<Rightarrow> (bytes \<times> bytes) option" where
  "rsplit_once c s =
     map_option (\<lambda>(a, b). (rev b, rev a)) (split_once c (rev s))"

text \<open>\<open>split(c)\<close>: all the pieces between occurrences of \<open>c\<close>, at least one.\<close>

fun split_byte :: "u8 \<Rightarrow> bytes \<Rightarrow> bytes list" where
  "split_byte c [] = [[]]"
| "split_byte c (b # s) =
     (if b = c then [] # split_byte c s
      else case split_byte c s of p # ps \<Rightarrow> (b # p) # ps | [] \<Rightarrow> [[b]])"

lemma split_once_Some:
  "split_once c s = Some (a, b) \<longleftrightarrow> s = a @ c # b \<and> c \<notin> set a"
proof (induction s arbitrary: a)
  case (Cons x s)
  show ?case
  proof (cases "x = c")
    case True
    then show ?thesis by (cases a) auto
  next
    case False
    then show ?thesis
      by (cases a) (auto simp: Cons.IH apfst_def map_prod_def split: prod.splits)
  qed
qed simp

lemma split_once_None: "split_once c s = None \<longleftrightarrow> c \<notin> set s"
  by (induction s) auto

lemma rsplit_once_Some:
  "rsplit_once c s = Some (a, b) \<longleftrightarrow> s = a @ c # b \<and> c \<notin> set b"
proof -
  have "rsplit_once c s = Some (a, b) \<longleftrightarrow> split_once c (rev s) = Some (rev b, rev a)"
    by (auto simp: rsplit_once_def)
  also have "\<dots> \<longleftrightarrow> rev s = rev b @ c # rev a \<and> c \<notin> set (rev b)" by (rule split_once_Some)
  also have "\<dots> \<longleftrightarrow> s = a @ c # b \<and> c \<notin> set b"
    using rev_is_rev_conv [of s "a @ c # b"] by auto
  finally show ?thesis .
qed

lemma rsplit_once_None: "rsplit_once c s = None \<longleftrightarrow> c \<notin> set s"
  by (simp add: rsplit_once_def split_once_None)

lemma split_byte_nonempty [simp]: "split_byte c s \<noteq> []"
  by (cases s) (auto split: list.splits)

lemma hd_split_byte: "hd (split_byte c s) = takeWhile (\<lambda>b. b \<noteq> c) s"
proof (induction s)
  case (Cons b s)
  then show ?case by (auto split: list.splits)
qed simp

section \<open>Trimming\<close>

text \<open>The UTF-8 encodings of the characters with the property \<open>White_Space\<close>, which \<open>str::trim\<close>
  removes at both ends.\<close>

definition white_space :: "bytes list" where
  "white_space =
     [[0x09], [0x0a], [0x0b], [0x0c], [0x0d], [0x20], [0xc2, 0x85], [0xc2, 0xa0], [0xe1, 0x9a, 0x80],
      [0xe2, 0x80, 0x80], [0xe2, 0x80, 0x81], [0xe2, 0x80, 0x82], [0xe2, 0x80, 0x83],
      [0xe2, 0x80, 0x84], [0xe2, 0x80, 0x85], [0xe2, 0x80, 0x86], [0xe2, 0x80, 0x87],
      [0xe2, 0x80, 0x88], [0xe2, 0x80, 0x89], [0xe2, 0x80, 0x8a], [0xe2, 0x80, 0xa8],
      [0xe2, 0x80, 0xa9], [0xe2, 0x80, 0xaf], [0xe2, 0x81, 0x9f], [0xe3, 0x80, 0x80]]"

definition starts_with :: "bytes \<Rightarrow> bytes \<Rightarrow> bool" where
  "starts_with p s = (take (length p) s = p)"

function trim_front :: "bytes list \<Rightarrow> bytes \<Rightarrow> bytes" where
  "trim_front ws s =
     (case find (\<lambda>w. w \<noteq> [] \<and> starts_with w s) ws of
        None \<Rightarrow> s
      | Some w \<Rightarrow> trim_front ws (drop (length w) s))"
  by pat_completeness auto
termination
proof (relation "measure (\<lambda>(ws, s). length s)")
  fix ws s w
  assume "find (\<lambda>w. w \<noteq> [] \<and> starts_with w s) ws = Some w"
  then have "w \<noteq> []" "starts_with w s" by (auto simp: find_Some_iff)
  then have "s \<noteq> []" "length w \<noteq> 0" by (auto simp: starts_with_def)
  then show "((ws, drop (length w) s), (ws, s)) \<in> measure (\<lambda>(ws, s). length s)" by simp
qed simp

declare trim_front.simps [simp del]

definition str_trim :: "bytes \<Rightarrow> bytes" where
  "str_trim s = rev (trim_front (map rev white_space) (rev (trim_front white_space s)))"

lemma trim_front_id:
  assumes "\<forall>w \<in> set ws. w = [] \<or> \<not> starts_with w s"
  shows "trim_front ws s = s"
proof -
  have "find (\<lambda>w. w \<noteq> [] \<and> starts_with w s) ws = None" using assms by (auto simp: find_None_iff)
  then show ?thesis by (subst trim_front.simps) simp
qed

text \<open>\<open>trim_end_matches(c)\<close>.\<close>

definition trim_end_byte :: "u8 \<Rightarrow> bytes \<Rightarrow> bytes" where
  "trim_end_byte c s = rev (dropWhile (\<lambda>b. b = c) (rev s))"

section \<open>UTF-8 validation\<close>

text \<open>\<open>std::str::from_utf8\<close>: the well-formed sequences of the Unicode standard, without overlong
  forms, surrogates and values above U+10FFFF.\<close>

definition utf8_cont :: "u8 \<Rightarrow> bool" where
  "utf8_cont b = (0x80 \<le> b \<and> b \<le> 0xbf)"

fun utf8_ok :: "bytes \<Rightarrow> bool" where
  "utf8_ok [] = True"
| "utf8_ok (a # s) =
     (if a < 0x80 then utf8_ok s
      else if 0xc2 \<le> a \<and> a \<le> 0xdf then
        (case s of b # s' \<Rightarrow> utf8_cont b \<and> utf8_ok s' | _ \<Rightarrow> False)
      else if 0xe0 \<le> a \<and> a \<le> 0xef then
        (case s of b # c # s' \<Rightarrow>
           (if a = 0xe0 then 0xa0 \<le> b \<and> b \<le> 0xbf
            else if a = 0xed then 0x80 \<le> b \<and> b \<le> 0x9f
            else utf8_cont b) \<and> utf8_cont c \<and> utf8_ok s'
         | _ \<Rightarrow> False)
      else if 0xf0 \<le> a \<and> a \<le> 0xf4 then
        (case s of b # c # d # s' \<Rightarrow>
           (if a = 0xf0 then 0x90 \<le> b \<and> b \<le> 0xbf
            else if a = 0xf4 then 0x80 \<le> b \<and> b \<le> 0x8f
            else utf8_cont b) \<and> utf8_cont c \<and> utf8_cont d \<and> utf8_ok s'
         | _ \<Rightarrow> False)
      else False)"

declare utf8_ok.simps [simp del]

lemma utf8_ok_Nil [simp]: "utf8_ok []"
  by (simp add: utf8_ok.simps)

lemma utf8_ok_ascii: "\<forall>b \<in> set s. b < 0x80 \<Longrightarrow> utf8_ok s"
  by (induction s) (simp_all add: utf8_ok.simps)

section \<open>Decimal numbers\<close>

text \<open>\<open>str::parse::<u64>\<close>: an optional \<open>+\<close>, then digits; \<open>None\<close> when empty, on another character and on
  overflow, which is checked at every digit.\<close>

fun parse_digits :: "nat \<Rightarrow> bytes \<Rightarrow> nat option" where
  "parse_digits acc [] = Some acc"
| "parse_digits acc (b # s) =
     (if is_ascii_digit b then
        (let v = acc * 10 + (unat b - 0x30)
         in if v < 2 ^ 64 then parse_digits v s else None)
      else None)"

definition parse_u64 :: "bytes \<Rightarrow> nat option" where
  "parse_u64 s =
     (let s' = (case strip_prefix_byte 0x2b s of Some r \<Rightarrow> r | None \<Rightarrow> s)
      in if s' = [] then None else parse_digits 0 s')"

lemma parse_digits_bound: "acc < 2 ^ 64 \<Longrightarrow> parse_digits acc s = Some n \<Longrightarrow> n < 2 ^ 64"
  by (induction acc s rule: parse_digits.induct) (auto simp: Let_def split: if_splits)

lemma parse_u64_bound: "parse_u64 s = Some n \<Longrightarrow> n < 2 ^ 64"
  using parse_digits_bound [of 0] by (auto simp: parse_u64_def Let_def split: if_splits option.splits)

text \<open>The number the digits denote.\<close>

primrec digits_value :: "nat \<Rightarrow> bytes \<Rightarrow> nat" where
  "digits_value acc [] = acc"
| "digits_value acc (b # s) = digits_value (acc * 10 + (unat b - 0x30)) s"

lemma digits_value_ge: "acc \<le> digits_value acc s"
proof (induction s arbitrary: acc)
  case (Cons b s)
  have "acc \<le> acc * 10 + (unat b - 0x30)" by simp
  then show ?case using Cons.IH [of "acc * 10 + (unat b - 0x30)"] by simp
qed simp

lemma parse_digits_value:
  "parse_digits acc s = (if (\<forall>b \<in> set s. is_ascii_digit b) \<and> (s = [] \<or> digits_value acc s < 2 ^ 64)
     then Some (digits_value acc s) else None)"
proof (induction acc s rule: parse_digits.induct)
  case (2 acc b s)
  let ?v = "acc * 10 + (unat b - 0x30)"
  have "?v \<le> digits_value ?v s" by (rule digits_value_ge)
  then show ?case using 2 by (auto simp: Let_def)
qed simp

end
