(* ===== verification/Hpack_Static.thy ===== *)
theory Hpack_Static
  imports Byte_Text "HOL-Library.AList"
begin

text \<open>
  The HPACK static table (RFC 7541 Appendix A), \<open>crates/hj-h2/src/hpack/static_table.rs\<close>. The two
  lookup functions of the source are \<open>match\<close> expressions over string literals; they are modelled by
  their arms, in the order of the source, with the first matching arm taken. Both are shown equal to
  a first-match scan of the table.
\<close>

type_synonym header = "bytes \<times> bytes"

section \<open>The table and its lookups\<close>

definition STATIC_TABLE :: "(string \<times> string) list" where
  "STATIC_TABLE = [
    ('':authority'', ''''), ('':method'', ''GET''), ('':method'', ''POST''), ('':path'', ''/''),
    ('':path'', ''/index.html''), ('':scheme'', ''http''), ('':scheme'', ''https''),
    ('':status'', ''200''), ('':status'', ''204''), ('':status'', ''206''),
    ('':status'', ''304''), ('':status'', ''400''), ('':status'', ''404''),
    ('':status'', ''500''), (''accept-charset'', ''''), (''accept-encoding'', ''gzip, deflate''),
    (''accept-language'', ''''), (''accept-ranges'', ''''), (''accept'', ''''),
    (''access-control-allow-origin'', ''''), (''age'', ''''), (''allow'', ''''),
    (''authorization'', ''''), (''cache-control'', ''''), (''content-disposition'', ''''),
    (''content-encoding'', ''''), (''content-language'', ''''), (''content-length'', ''''),
    (''content-location'', ''''), (''content-range'', ''''), (''content-type'', ''''),
    (''cookie'', ''''), (''date'', ''''), (''etag'', ''''), (''expect'', ''''),
    (''expires'', ''''), (''from'', ''''), (''host'', ''''), (''if-match'', ''''),
    (''if-modified-since'', ''''), (''if-none-match'', ''''), (''if-range'', ''''),
    (''if-unmodified-since'', ''''), (''last-modified'', ''''), (''link'', ''''),
    (''location'', ''''), (''max-forwards'', ''''), (''proxy-authenticate'', ''''),
    (''proxy-authorization'', ''''), (''range'', ''''), (''referer'', ''''), (''refresh'', ''''),
    (''retry-after'', ''''), (''server'', ''''), (''set-cookie'', ''''),
    (''strict-transport-security'', ''''), (''transfer-encoding'', ''''), (''user-agent'', ''''),
    (''vary'', ''''), (''via'', ''''), (''www-authenticate'', '''')
  ]"

definition find_name_value_arms :: "((string \<times> string) \<times> nat) list" where
  "find_name_value_arms = [
    (('':authority'', ''''), 1), (('':method'', ''GET''), 2), (('':method'', ''POST''), 3),
    (('':path'', ''/''), 4), (('':path'', ''/index.html''), 5), (('':scheme'', ''http''), 6),
    (('':scheme'', ''https''), 7), (('':status'', ''200''), 8), (('':status'', ''204''), 9),
    (('':status'', ''206''), 10), (('':status'', ''304''), 11), (('':status'', ''400''), 12),
    (('':status'', ''404''), 13), (('':status'', ''500''), 14), ((''accept-charset'', ''''), 15),
    ((''accept-encoding'', ''gzip, deflate''), 16), ((''accept-language'', ''''), 17),
    ((''accept-ranges'', ''''), 18), ((''accept'', ''''), 19),
    ((''access-control-allow-origin'', ''''), 20), ((''age'', ''''), 21),
    ((''allow'', ''''), 22), ((''authorization'', ''''), 23), ((''cache-control'', ''''), 24),
    ((''content-disposition'', ''''), 25), ((''content-encoding'', ''''), 26),
    ((''content-language'', ''''), 27), ((''content-length'', ''''), 28),
    ((''content-location'', ''''), 29), ((''content-range'', ''''), 30),
    ((''content-type'', ''''), 31), ((''cookie'', ''''), 32), ((''date'', ''''), 33),
    ((''etag'', ''''), 34), ((''expect'', ''''), 35), ((''expires'', ''''), 36),
    ((''from'', ''''), 37), ((''host'', ''''), 38), ((''if-match'', ''''), 39),
    ((''if-modified-since'', ''''), 40), ((''if-none-match'', ''''), 41),
    ((''if-range'', ''''), 42), ((''if-unmodified-since'', ''''), 43),
    ((''last-modified'', ''''), 44), ((''link'', ''''), 45), ((''location'', ''''), 46),
    ((''max-forwards'', ''''), 47), ((''proxy-authenticate'', ''''), 48),
    ((''proxy-authorization'', ''''), 49), ((''range'', ''''), 50), ((''referer'', ''''), 51),
    ((''refresh'', ''''), 52), ((''retry-after'', ''''), 53), ((''server'', ''''), 54),
    ((''set-cookie'', ''''), 55), ((''strict-transport-security'', ''''), 56),
    ((''transfer-encoding'', ''''), 57), ((''user-agent'', ''''), 58), ((''vary'', ''''), 59),
    ((''via'', ''''), 60), ((''www-authenticate'', ''''), 61)
  ]"

definition find_name_arms :: "(string \<times> nat) list" where
  "find_name_arms = [
    ('':authority'', 1), ('':method'', 2), ('':path'', 4), ('':scheme'', 6), ('':status'', 8),
    (''accept-charset'', 15), (''accept-encoding'', 16), (''accept-language'', 17),
    (''accept-ranges'', 18), (''accept'', 19), (''access-control-allow-origin'', 20),
    (''age'', 21), (''allow'', 22), (''authorization'', 23), (''cache-control'', 24),
    (''content-disposition'', 25), (''content-encoding'', 26), (''content-language'', 27),
    (''content-length'', 28), (''content-location'', 29), (''content-range'', 30),
    (''content-type'', 31), (''cookie'', 32), (''date'', 33), (''etag'', 34), (''expect'', 35),
    (''expires'', 36), (''from'', 37), (''host'', 38), (''if-match'', 39),
    (''if-modified-since'', 40), (''if-none-match'', 41), (''if-range'', 42),
    (''if-unmodified-since'', 43), (''last-modified'', 44), (''link'', 45), (''location'', 46),
    (''max-forwards'', 47), (''proxy-authenticate'', 48), (''proxy-authorization'', 49),
    (''range'', 50), (''referer'', 51), (''refresh'', 52), (''retry-after'', 53),
    (''server'', 54), (''set-cookie'', 55), (''strict-transport-security'', 56),
    (''transfer-encoding'', 57), (''user-agent'', 58), (''vary'', 59), (''via'', 60),
    (''www-authenticate'', 61)
  ]"

definition find_name_value :: "bytes \<Rightarrow> bytes \<Rightarrow> nat option" where
  "find_name_value name val =
     map_of (map (\<lambda>((n, v), i). ((str_bytes n, str_bytes v), i)) find_name_value_arms) (name, val)"

definition find_name :: "bytes \<Rightarrow> nat option" where
  "find_name name = map_of (map (\<lambda>(n, i). (str_bytes n, i)) find_name_arms) name"

definition static_get :: "nat \<Rightarrow> (string \<times> string) option" where
  "static_get index = (if index = 0 then None else list_get STATIC_TABLE (index - 1))"

section \<open>Lookups are first-match scans\<close>

lemma map_of_zip_upt:
  "map_of (zip ks [k..<k + length ks]) x = map_option (\<lambda>i. k + i) (list_position (\<lambda>y. y = x) ks)"
proof (induction ks arbitrary: k)
  case (Cons y ks)
  have "[k..<k + length (y # ks)] = k # [Suc k..<Suc k + length ks]" by (simp add: upt_conv_Cons del: upt_Suc)
  then show ?case using Cons [of "Suc k"] by (auto simp: option.map_comp comp_def)
qed simp

lemma length_STATIC_TABLE: "length STATIC_TABLE = 61"
  by (simp add: STATIC_TABLE_def)

lemma find_name_value_arms_zip: "find_name_value_arms = zip STATIC_TABLE [1..<1 + length STATIC_TABLE]"
  by (simp add: find_name_value_arms_def STATIC_TABLE_def upt_rec)

lemma map_of_map_key:
  assumes "\<And>x y. f x = f y \<longleftrightarrow> x = y"
  shows "map_of (map (\<lambda>(k, v). (f k, v)) xs) (f k) = map_of xs k"
  by (induction xs) (auto simp: assms)

lemma map_of_clearjunk_key:
  fixes xs :: "('a \<times> 'v) list"
  assumes "\<And>x y. f x = f y \<longleftrightarrow> x = y"
  shows "map_of (map (\<lambda>(k, v). (f k, v)) (AList.clearjunk xs)) y = map_of (map (\<lambda>(k, v). (f k, v)) xs) y"
proof (cases "\<exists>k. y = f k")
  case True
  then show ?thesis by (auto simp: map_of_map_key [of f, OF assms] map_of_clearjunk)
next
  case False
  then have "map_of (map (\<lambda>(k, v). (f k, v)) zs) y = None" for zs :: "('a \<times> 'v) list" by (induction zs) auto
  then show ?thesis by simp
qed

lemma find_name_arms_clearjunk:
  "find_name_arms = AList.clearjunk (zip (map fst STATIC_TABLE) [1..<1 + length STATIC_TABLE])"
  by code_simp

definition static_entry :: "nat \<Rightarrow> header" where
  "static_entry i = (str_bytes (fst (STATIC_TABLE ! i)), str_bytes (snd (STATIC_TABLE ! i)))"

lemma static_get_entry:
  "static_get i = (if 0 < i \<and> i \<le> 61 then Some (STATIC_TABLE ! (i - 1)) else None)"
  by (auto simp: static_get_def list_get_def length_STATIC_TABLE)

lemma map_zip_key: "map (\<lambda>(k, v). (f k, v)) (zip xs ys) = zip (map f xs) ys"
  by (induction xs ys rule: list_induct2') auto

lemma find_name_value_scan:
  "find_name_value name val =
     map_option Suc (list_position (\<lambda>(n, v). (str_bytes n, str_bytes v) = (name, val)) STATIC_TABLE)"
proof -
  let ?f = "\<lambda>(n, v). (str_bytes n, str_bytes v)"
  have "find_name_value name val = map_of (zip (map ?f STATIC_TABLE) [1..<1 + length (map ?f STATIC_TABLE)]) (name, val)"
    unfolding find_name_value_def find_name_value_arms_zip map_zip_key [symmetric]
    by (rule arg_cong2 [where f = map_of]) (auto simp del: upt_Suc)
  also have "\<dots> = map_option Suc (list_position (\<lambda>y. y = (name, val)) (map ?f STATIC_TABLE))"
    unfolding map_of_zip_upt by (rule arg_cong2 [where f = map_option]) (auto simp: fun_eq_iff)
  finally show ?thesis by (simp add: list_position_map case_prod_unfold)
qed

lemma find_name_scan:
  "find_name name = map_option Suc (list_position (\<lambda>(n, v). str_bytes n = name) STATIC_TABLE)"
proof -
  let ?ns = "map (\<lambda>(n, v). str_bytes n) STATIC_TABLE"
  have "find_name name = map_of (map (\<lambda>(n, i). (str_bytes n, i)) (zip (map fst STATIC_TABLE) [1..<1 + length STATIC_TABLE])) name"
    unfolding find_name_def find_name_arms_clearjunk by (rule map_of_clearjunk_key [OF str_bytes_inject])
  also have "\<dots> = map_of (zip ?ns [1..<1 + length ?ns]) name"
    unfolding map_zip_key map_map by (rule arg_cong2 [where f = map_of]) (auto simp: comp_def case_prod_unfold simp del: upt_Suc)
  also have "\<dots> = map_option Suc (list_position (\<lambda>y. y = name) ?ns)"
    unfolding map_of_zip_upt by (rule arg_cong2 [where f = map_option]) (auto simp: fun_eq_iff)
  finally show ?thesis by (simp add: list_position_map case_prod_unfold)
qed

lemma find_name_value_SomeD:
  assumes "find_name_value name val = Some i"
  shows "0 < i" "i \<le> 61" "static_get i = Some (STATIC_TABLE ! (i - 1))" "static_entry (i - 1) = (name, val)"
  using assms list_position_SomeD
  by (fastforce simp: find_name_value_scan length_STATIC_TABLE static_get_entry static_entry_def case_prod_beta)+

lemma find_name_SomeD:
  assumes "find_name name = Some i"
  shows "0 < i" "i \<le> 61" "static_get i = Some (STATIC_TABLE ! (i - 1))" "fst (static_entry (i - 1)) = name"
  using assms list_position_SomeD
  by (fastforce simp: find_name_scan length_STATIC_TABLE static_get_entry static_entry_def case_prod_beta)+

section \<open>Properties\<close>

text \<open>
  C18. The two constant-time lookups of the static table return what a front-to-back scan of the
  table returns: the 1-based index of the first entry with that name and value, and of the first entry
  with that name; nothing when there is none.
\<close>

theorem static_lookups_scan:
  "find_name_value name val =
     map_option Suc (list_position (\<lambda>(n, v). (str_bytes n, str_bytes v) = (name, val)) STATIC_TABLE) \<and>
   find_name name = map_option Suc (list_position (\<lambda>(n, v). str_bytes n = name) STATIC_TABLE)"
  using find_name_value_scan find_name_scan by blast

text \<open>The name lookup has 52 arms: one for each distinct name of the table.\<close>

lemma find_name_arms_count: "length find_name_arms = 52"
  by (simp add: find_name_arms_def)

end
