(* ===== verification/Hpack_Table.thy ===== *)
theory Hpack_Table
  imports Hpack_Static
begin

text \<open>
  The contract of the HPACK dynamic table (RFC 7541 sections 2.3.2 and 4), which both the encoder
  and the decoder of \<open>hpack/mod.rs\<close> implement: a list of entries, newest first, whose accounted size
  stays within a limit, with the oldest entries evicted on insertion and on a change of the limit.
  The locale \<open>dyn_table\<close> states the contract; \<open>table_pair\<close> draws from it that two implementations
  that perform the same operations hold the same entries.
\<close>

definition ENTRY_OVERHEAD :: nat where "ENTRY_OVERHEAD = 32"
definition STATIC_LEN :: nat where "STATIC_LEN = 61"

definition entry_size :: "header \<Rightarrow> nat" where
  "entry_size h = length (fst h) + length (snd h) + ENTRY_OVERHEAD"

definition total_size :: "header list \<Rightarrow> nat" where
  "total_size es = sum_list (map entry_size es)"

lemma total_size_simps [simp]:
  "total_size [] = 0" "total_size (e # es) = entry_size e + total_size es"
  "total_size (es @ fs) = total_size es + total_size fs"
  by (simp_all add: total_size_def)

lemma entry_size_ge: "32 \<le> entry_size e"
  by (simp add: entry_size_def ENTRY_OVERHEAD_def)

lemma total_size_count: "32 * length es \<le> total_size es"
proof (induction es)
  case (Cons e es)
  then show ?case using entry_size_ge [of e] by simp
qed simp

section \<open>Eviction\<close>

text \<open>The newest entries that fit: what is left after evicting from the back.\<close>

fun fit :: "nat \<Rightarrow> header list \<Rightarrow> header list" where
  "fit m [] = []"
| "fit m (e # es) = (if entry_size e \<le> m then e # fit (m - entry_size e) es else [])"

lemma fit_total: "total_size (fit m es) \<le> m"
proof (induction m es rule: fit.induct)
  case (2 m e es)
  then show ?case by auto
qed simp

lemma fit_all: "total_size es \<le> m \<Longrightarrow> fit m es = es"
  by (induction m es rule: fit.induct) auto

lemma fit_snoc: "m < total_size (es @ [e]) \<Longrightarrow> fit m (es @ [e]) = fit m es"
proof (induction m es rule: fit.induct)
  case (1 m)
  then show ?case by simp
next
  case (2 m x es)
  then show ?case by auto
qed

lemma fit_prefix: "\<exists>rest. es = fit m es @ rest"
  by (induction m es rule: fit.induct) auto

section \<open>The contract\<close>

locale dyn_table =
  fixes entries :: "'s \<Rightarrow> header list"
    and limit :: "'s \<Rightarrow> nat"
    and tbl_ok :: "'s \<Rightarrow> bool"
    and add_entry :: "bytes \<Rightarrow> bytes \<Rightarrow> 's \<Rightarrow> 's"
    and set_limit :: "nat \<Rightarrow> 's \<Rightarrow> 's"
  assumes within: "tbl_ok s \<Longrightarrow> total_size (entries s) \<le> limit s"
    and add_ok: "tbl_ok s \<Longrightarrow> tbl_ok (add_entry n v s)"
    and add_limit: "tbl_ok s \<Longrightarrow> limit (add_entry n v s) = limit s"
    and add_entries: "tbl_ok s \<Longrightarrow> entries (add_entry n v s) =
      (if entry_size (n, v) \<le> limit s
       then (n, v) # fit (limit s - entry_size (n, v)) (entries s) else [])"
    and set_ok: "tbl_ok s \<Longrightarrow> tbl_ok (set_limit m s)"
    and set_limit_limit: "tbl_ok s \<Longrightarrow> limit (set_limit m s) = m"
    and set_limit_entries: "tbl_ok s \<Longrightarrow> entries (set_limit m s) = fit m (entries s)"
begin

lemma entry_count: "tbl_ok s \<Longrightarrow> 32 * length (entries s) \<le> limit s"
  using total_size_count [of "entries s"] within [of s] by simp

lemma newest_first:
  "tbl_ok s \<Longrightarrow> entry_size (n, v) \<le> limit s \<Longrightarrow> list_get (entries (add_entry n v s)) 0 = Some (n, v)"
  by (simp add: add_entries list_get_def)

end

locale table_pair =
  l: dyn_table entries1 limit1 ok1 add1 set1 + r: dyn_table entries2 limit2 ok2 add2 set2
  for entries1 :: "'s \<Rightarrow> header list" and limit1 :: "'s \<Rightarrow> nat" and ok1 and add1 and set1
    and entries2 :: "'t \<Rightarrow> header list" and limit2 :: "'t \<Rightarrow> nat" and ok2 and add2 and set2
begin

definition in_step :: "'s \<Rightarrow> 't \<Rightarrow> bool" where
  "in_step s t \<longleftrightarrow> ok1 s \<and> ok2 t \<and> entries1 s = entries2 t \<and> limit1 s = limit2 t"

lemma add_in_step: "in_step s t \<Longrightarrow> in_step (add1 n v s) (add2 n v t)"
  by (simp add: in_step_def l.add_ok r.add_ok l.add_limit r.add_limit l.add_entries r.add_entries)

lemma set_in_step: "in_step s t \<Longrightarrow> in_step (set1 m s) (set2 m t)"
  by (simp add: in_step_def l.set_ok r.set_ok l.set_limit_limit r.set_limit_limit
      l.set_limit_entries r.set_limit_entries)

end

end
