(* ===== verification/Hpack_Huffman.thy ===== *)
theory Hpack_Huffman
  imports HJ_Prelude
begin

text \<open>
  HPACK Huffman coding (RFC 7541 section 5.2 and appendix B), \<open>crates/hj-h2/src/hpack/huffman.rs\<close>:
  the code table, the encoder that packs codes 32 bits at a time with its octet-by-octet fallback,
  the lookup tables of the decoder (an 11-bit root table, 5-bit sub tables, binary-searched groups
  of the long codes) and the decode loop over a 64-bit accumulator.

  The lemmas relate all of it to bit strings: \<open>bits_of n w\<close> is the \<open>n\<close> low bits of \<open>w\<close>, most
  significant first, and \<open>huff_spec\<close> decodes a bit string by walking the code tree bit by bit. The
  table-driven decoder is equal to that reference on every input, and it inverts the encoder.
\<close>

section \<open>The code table\<close>

text \<open>\<open>TABLE\<close>, in four quarters of 64 symbols (the last one also holds EOS).\<close>

definition HUFF_TABLE_0 :: "(u32 \<times> nat) list" where
  "HUFF_TABLE_0 = [
    (0x1ff8, 13), (0x7fffd8, 23), (0xfffffe2, 28), (0xfffffe3, 28), (0xfffffe4, 28), (0xfffffe5, 28),
    (0xfffffe6, 28), (0xfffffe7, 28), (0xfffffe8, 28), (0xffffea, 24), (0x3ffffffc, 30), (0xfffffe9, 28),
    (0xfffffea, 28), (0x3ffffffd, 30), (0xfffffeb, 28), (0xfffffec, 28), (0xfffffed, 28), (0xfffffee, 28),
    (0xfffffef, 28), (0xffffff0, 28), (0xffffff1, 28), (0xffffff2, 28), (0x3ffffffe, 30), (0xffffff3, 28),
    (0xffffff4, 28), (0xffffff5, 28), (0xffffff6, 28), (0xffffff7, 28), (0xffffff8, 28), (0xffffff9, 28),
    (0xffffffa, 28), (0xffffffb, 28), (0x14, 6), (0x3f8, 10), (0x3f9, 10), (0xffa, 12),
    (0x1ff9, 13), (0x15, 6), (0xf8, 8), (0x7fa, 11), (0x3fa, 10), (0x3fb, 10),
    (0xf9, 8), (0x7fb, 11), (0xfa, 8), (0x16, 6), (0x17, 6), (0x18, 6),
    (0x0, 5), (0x1, 5), (0x2, 5), (0x19, 6), (0x1a, 6), (0x1b, 6),
    (0x1c, 6), (0x1d, 6), (0x1e, 6), (0x1f, 6), (0x5c, 7), (0xfb, 8),
    (0x7ffc, 15), (0x20, 6), (0xffb, 12), (0x3fc, 10)]"

definition HUFF_TABLE_1 :: "(u32 \<times> nat) list" where
  "HUFF_TABLE_1 = [
    (0x1ffa, 13), (0x21, 6), (0x5d, 7), (0x5e, 7), (0x5f, 7), (0x60, 7),
    (0x61, 7), (0x62, 7), (0x63, 7), (0x64, 7), (0x65, 7), (0x66, 7),
    (0x67, 7), (0x68, 7), (0x69, 7), (0x6a, 7), (0x6b, 7), (0x6c, 7),
    (0x6d, 7), (0x6e, 7), (0x6f, 7), (0x70, 7), (0x71, 7), (0x72, 7),
    (0xfc, 8), (0x73, 7), (0xfd, 8), (0x1ffb, 13), (0x7fff0, 19), (0x1ffc, 13),
    (0x3ffc, 14), (0x22, 6), (0x7ffd, 15), (0x3, 5), (0x23, 6), (0x4, 5),
    (0x24, 6), (0x5, 5), (0x25, 6), (0x26, 6), (0x27, 6), (0x6, 5),
    (0x74, 7), (0x75, 7), (0x28, 6), (0x29, 6), (0x2a, 6), (0x7, 5),
    (0x2b, 6), (0x76, 7), (0x2c, 6), (0x8, 5), (0x9, 5), (0x2d, 6),
    (0x77, 7), (0x78, 7), (0x79, 7), (0x7a, 7), (0x7b, 7), (0x7ffe, 15),
    (0x7fc, 11), (0x3ffd, 14), (0x1ffd, 13), (0xffffffc, 28)]"

definition HUFF_TABLE_2 :: "(u32 \<times> nat) list" where
  "HUFF_TABLE_2 = [
    (0xfffe6, 20), (0x3fffd2, 22), (0xfffe7, 20), (0xfffe8, 20), (0x3fffd3, 22), (0x3fffd4, 22),
    (0x3fffd5, 22), (0x7fffd9, 23), (0x3fffd6, 22), (0x7fffda, 23), (0x7fffdb, 23), (0x7fffdc, 23),
    (0x7fffdd, 23), (0x7fffde, 23), (0xffffeb, 24), (0x7fffdf, 23), (0xffffec, 24), (0xffffed, 24),
    (0x3fffd7, 22), (0x7fffe0, 23), (0xffffee, 24), (0x7fffe1, 23), (0x7fffe2, 23), (0x7fffe3, 23),
    (0x7fffe4, 23), (0x1fffdc, 21), (0x3fffd8, 22), (0x7fffe5, 23), (0x3fffd9, 22), (0x7fffe6, 23),
    (0x7fffe7, 23), (0xffffef, 24), (0x3fffda, 22), (0x1fffdd, 21), (0xfffe9, 20), (0x3fffdb, 22),
    (0x3fffdc, 22), (0x7fffe8, 23), (0x7fffe9, 23), (0x1fffde, 21), (0x7fffea, 23), (0x3fffdd, 22),
    (0x3fffde, 22), (0xfffff0, 24), (0x1fffdf, 21), (0x3fffdf, 22), (0x7fffeb, 23), (0x7fffec, 23),
    (0x1fffe0, 21), (0x1fffe1, 21), (0x3fffe0, 22), (0x1fffe2, 21), (0x7fffed, 23), (0x3fffe1, 22),
    (0x7fffee, 23), (0x7fffef, 23), (0xfffea, 20), (0x3fffe2, 22), (0x3fffe3, 22), (0x3fffe4, 22),
    (0x7ffff0, 23), (0x3fffe5, 22), (0x3fffe6, 22), (0x7ffff1, 23)]"

definition HUFF_TABLE_3 :: "(u32 \<times> nat) list" where
  "HUFF_TABLE_3 = [
    (0x3ffffe0, 26), (0x3ffffe1, 26), (0xfffeb, 20), (0x7fff1, 19), (0x3fffe7, 22), (0x7ffff2, 23),
    (0x3fffe8, 22), (0x1ffffec, 25), (0x3ffffe2, 26), (0x3ffffe3, 26), (0x3ffffe4, 26), (0x7ffffde, 27),
    (0x7ffffdf, 27), (0x3ffffe5, 26), (0xfffff1, 24), (0x1ffffed, 25), (0x7fff2, 19), (0x1fffe3, 21),
    (0x3ffffe6, 26), (0x7ffffe0, 27), (0x7ffffe1, 27), (0x3ffffe7, 26), (0x7ffffe2, 27), (0xfffff2, 24),
    (0x1fffe4, 21), (0x1fffe5, 21), (0x3ffffe8, 26), (0x3ffffe9, 26), (0xffffffd, 28), (0x7ffffe3, 27),
    (0x7ffffe4, 27), (0x7ffffe5, 27), (0xfffec, 20), (0xfffff3, 24), (0xfffed, 20), (0x1fffe6, 21),
    (0x3fffe9, 22), (0x1fffe7, 21), (0x1fffe8, 21), (0x7ffff3, 23), (0x3fffea, 22), (0x3fffeb, 22),
    (0x1ffffee, 25), (0x1ffffef, 25), (0xfffff4, 24), (0xfffff5, 24), (0x3ffffea, 26), (0x7ffff4, 23),
    (0x3ffffeb, 26), (0x7ffffe6, 27), (0x3ffffec, 26), (0x3ffffed, 26), (0x7ffffe7, 27), (0x7ffffe8, 27),
    (0x7ffffe9, 27), (0x7ffffea, 27), (0x7ffffeb, 27), (0xffffffe, 28), (0x7ffffec, 27), (0x7ffffed, 27),
    (0x7ffffee, 27), (0x7ffffef, 27), (0x7fffff0, 27), (0x3ffffee, 26), (0x3fffffff, 30)]"

definition HUFF_TABLE :: "(u32 \<times> nat) list" where
  "HUFF_TABLE = HUFF_TABLE_0 @ HUFF_TABLE_1 @ HUFF_TABLE_2 @ HUFF_TABLE_3"

text \<open>The code and bit length of an octet (the table also holds EOS at 256).\<close>

definition code_of :: "u8 \<Rightarrow> u32 \<times> nat" where
  "code_of b = HUFF_TABLE ! unat b"

section \<open>Encoder\<close>

definition encoded_len :: "bytes \<Rightarrow> nat" where
  "encoded_len data = (sum_list (map (\<lambda>b. snd (code_of b)) data) + 7) div 8"

text \<open>
  \<open>fill\<close> writes into a slice of a given length: \<open>cap\<close> is the room that is left, the written octets
  are returned, and \<open>None\<close> is the source's \<open>false\<close>. The three phases are the loop over the data,
  the loop over the remaining whole octets, and the padded last octet.
\<close>

fun fill_words :: "nat \<Rightarrow> u64 \<Rightarrow> nat \<Rightarrow> bytes \<Rightarrow> bytes \<Rightarrow> (nat \<times> u64 \<times> nat \<times> bytes) option" where
  "fill_words cap acc nbits w [] = Some (cap, acc, nbits, w)"
| "fill_words cap acc nbits w (b # data) =
     (let (code, len) = code_of b;
          acc' = push_bit len acc OR ucast code;
          nbits' = nbits + len
      in if nbits' \<ge> 32 then
           (let n = nbits' - 32 in
            if cap < 4 then None
            else fill_words (cap - 4) acc' n (w @ u32_to_be (ucast (drop_bit n acc'))) data)
         else fill_words cap acc' nbits' w data)"

fun fill_octets :: "nat \<Rightarrow> u64 \<Rightarrow> nat \<Rightarrow> bytes \<Rightarrow> (nat \<times> u64 \<times> nat \<times> bytes) option" where
  "fill_octets cap acc nbits w =
     (if nbits \<ge> 8 then
        (if cap = 0 then None
         else fill_octets (cap - 1) acc (nbits - 8) (w @ [ucast (drop_bit (nbits - 8) acc)]))
      else Some (cap, acc, nbits, w))"

declare fill_octets.simps [simp del]

definition pad_octet :: "u64 \<Rightarrow> nat \<Rightarrow> u8" where
  "pad_octet acc nbits =
     (let pad = 8 - nbits in ucast (push_bit pad acc OR (push_bit pad 1 - 1)))"

definition fill_huff :: "nat \<Rightarrow> bytes \<Rightarrow> bytes option" where
  "fill_huff cap data =
     (case fill_words cap 0 0 [] data of
        None \<Rightarrow> None
      | Some (cap, acc, nbits, w) \<Rightarrow>
          (case fill_octets cap acc nbits w of
             None \<Rightarrow> None
           | Some (cap, acc, nbits, w) \<Rightarrow>
               if nbits > 0 then
                 (if cap = 0 then None
                  else if cap - 1 = 0 then Some (w @ [pad_octet acc nbits]) else None)
               else if cap = 0 then Some w else None))"

fun push_octets :: "bytes \<Rightarrow> u64 \<Rightarrow> nat \<Rightarrow> bytes \<times> nat" where
  "push_octets out acc nbits =
     (if nbits \<ge> 8 then push_octets (out @ [ucast (drop_bit (nbits - 8) acc)]) acc (nbits - 8)
      else (out, nbits))"

declare push_octets.simps [simp del]

fun encode_octets_loop :: "bytes \<Rightarrow> u64 \<Rightarrow> nat \<Rightarrow> bytes \<Rightarrow> bytes \<times> u64 \<times> nat" where
  "encode_octets_loop out acc nbits [] = (out, acc, nbits)"
| "encode_octets_loop out acc nbits (b # data) =
     (let (code, len) = code_of b;
          acc' = push_bit len acc OR ucast code;
          (out', nbits') = push_octets out acc' (nbits + len)
      in encode_octets_loop out' acc' nbits' data)"

definition encode_octets :: "bytes \<Rightarrow> bytes \<Rightarrow> bytes" where
  "encode_octets out data =
     (let (out', acc, nbits) = encode_octets_loop out 0 0 data
      in if nbits > 0 then out' @ [pad_octet acc nbits] else out')"

definition encode_sized :: "bytes \<Rightarrow> bytes \<Rightarrow> nat \<Rightarrow> bytes" where
  "encode_sized out data len =
     (case fill_huff len data of
        Some w \<Rightarrow> out @ w
      | None \<Rightarrow> encode_octets out data)"

definition huff_encode :: "bytes \<Rightarrow> bytes \<Rightarrow> bytes" where
  "huff_encode out data = encode_sized out data (encoded_len data)"

section \<open>Decoder tables\<close>

definition ROOT_BITS :: nat where "ROOT_BITS = 11"
definition WIN_BITS :: nat where "WIN_BITS = 16"
definition SUB_BITS :: nat where "SUB_BITS = WIN_BITS - ROOT_BITS"
definition SUB_TABLE :: u16 where "SUB_TABLE = 0x8000"

record decode_tables =
  root :: "u16 list"
  sub :: "u16 list list"

text \<open>\<open>slots.get_mut(a..b)\<close> followed by \<open>fill\<close>: nothing happens when the range is out of bounds.\<close>

definition fill_range :: "nat \<Rightarrow> nat \<Rightarrow> 'a \<Rightarrow> 'a list \<Rightarrow> 'a list" where
  "fill_range base span e xs =
     (if base + span \<le> length xs then take base xs @ replicate span e @ drop (base + span) xs
      else xs)"

definition huff_entry :: "nat \<Rightarrow> nat \<Rightarrow> u16" where
  "huff_entry len sy = push_bit 8 (of_nat len) OR of_nat sy"

definition add_symbol :: "nat \<times> u32 \<times> nat \<Rightarrow> decode_tables \<Rightarrow> decode_tables" where
  "add_symbol s t =
     (let (sy, code, len) = s; entry = huff_entry len sy in
      if sy = 256 then t
      else if len \<le> ROOT_BITS then
        t\<lparr>root := fill_range (unat (push_bit (ROOT_BITS - len) code)) (2 ^ (ROOT_BITS - len)) entry (root t)\<rparr>
      else
        (let i = unat (drop_bit (len - ROOT_BITS) code) in
         if i \<ge> length (root t) then t
         else
           (let t1 = (if root t ! i AND SUB_TABLE = 0
                      then t\<lparr>sub := sub t @ [replicate (2 ^ SUB_BITS) 0],
                             root := (root t)[i := SUB_TABLE OR of_nat (length (sub t))]\<rparr>
                      else t);
                slot = root t1 ! i
            in if len \<le> WIN_BITS then
                 (let low = unat (code AND (push_bit (len - ROOT_BITS) 1 - 1));
                      base = low * 2 ^ (WIN_BITS - len);
                      j = unat (slot AND NOT SUB_TABLE)
                  in if j < length (sub t1)
                     then t1\<lparr>sub := (sub t1)[j := fill_range base (2 ^ (WIN_BITS - len)) entry (sub t1 ! j)]\<rparr>
                     else t1)
               else t1)))"

definition huff_tables :: decode_tables where
  "huff_tables =
     fold add_symbol (enumerate 0 HUFF_TABLE) \<lparr>root = replicate (2 ^ ROOT_BITS) 0, sub = []\<rparr>"

text \<open>The long codes by length, each group sorted by code, and the search in a group.\<close>

definition long_table :: "(u32 \<times> nat) list list" where
  "long_table =
     map (\<lambda>g. sort_key fst
            (map (\<lambda>(sy, code, len). (code, sy))
               (filter (\<lambda>(sy, code, len). len > WIN_BITS \<and> len - WIN_BITS - 1 = g)
                  (enumerate 0 HUFF_TABLE))))
       [0..<30 - WIN_BITS]"

section \<open>Decode loop\<close>

definition window :: "u64 \<Rightarrow> nat \<Rightarrow> nat \<Rightarrow> nat" where
  "window acc nbits width =
     (let m = push_bit width 1 - 1 in
      if nbits \<ge> width then unat (drop_bit (nbits - width) acc AND m)
      else unat ((push_bit (width - nbits) acc OR (push_bit (width - nbits) 1 - 1)) AND m))"

fun decode_long_from :: "nat list \<Rightarrow> u64 \<Rightarrow> nat \<Rightarrow> (nat \<times> nat) option" where
  "decode_long_from [] acc nbits = None"
| "decode_long_from (len # lens) acc nbits =
     (if nbits < len then None
      else
        (let code = ucast (drop_bit (nbits - len) acc AND (push_bit len 1 - 1)) in
         case binary_search_by_key fst code (long_table ! (len - WIN_BITS - 1)) of
           Some i \<Rightarrow> Some (snd (long_table ! (len - WIN_BITS - 1) ! i), len)
         | None \<Rightarrow> decode_long_from lens acc nbits))"

definition decode_long :: "u64 \<Rightarrow> nat \<Rightarrow> (nat \<times> nat) option" where
  "decode_long acc nbits = decode_long_from [WIN_BITS + 1..<31] acc nbits"

fun refill_octets :: "bytes \<Rightarrow> u64 \<Rightarrow> nat \<Rightarrow> u64 \<times> nat \<times> bytes" where
  "refill_octets [] acc nbits = (acc, nbits, [])"
| "refill_octets (b # rest) acc nbits =
     (if nbits \<le> 48 then refill_octets rest (push_bit 8 acc OR ucast b) (nbits + 8)
      else (acc, nbits, b # rest))"

text \<open>The input is the suffix \<open>data[i..]\<close> of the source, so its index is implicit.\<close>

definition refill :: "bytes \<Rightarrow> u64 \<Rightarrow> nat \<Rightarrow> u64 \<times> nat \<times> bytes" where
  "refill data acc nbits =
     (if nbits \<le> 32 then
        (case data of
           a # b # c # d # rest \<Rightarrow> (push_bit 32 acc OR ucast (u32_of_be a b c d), nbits + 32, rest)
         | _ \<Rightarrow> refill_octets data acc nbits)
      else (acc, nbits, data))"

definition table_entry :: "u64 \<Rightarrow> nat \<Rightarrow> u16" where
  "table_entry acc nbits =
     (let e = (case list_get (root huff_tables) (window acc nbits ROOT_BITS) of
                 Some e \<Rightarrow> e | None \<Rightarrow> 0)
      in if e AND SUB_TABLE \<noteq> 0 then
           (let w = window acc nbits WIN_BITS AND (push_bit SUB_BITS 1 - 1) in
            case list_get (sub huff_tables) (unat (e AND NOT SUB_TABLE)) of
              Some s \<Rightarrow> (case list_get s w of Some e' \<Rightarrow> e' | None \<Rightarrow> 0)
            | None \<Rightarrow> 0)
         else e)"

text \<open>
  The loop body. \<open>None\<close> is the source's \<open>return None\<close>; \<open>Some (out, acc, nbits)\<close> is \<open>break\<close>, with the
  octets decoded so far and the bits that are left. Each round takes at least one bit, so the bits
  that are left, in the accumulator and in the input, are the termination measure.
\<close>

lemma decode_long_from_len:
  "decode_long_from lens acc nbits = Some (sy, len) \<Longrightarrow> len \<in> set lens \<and> len \<le> nbits"
  by (induction lens acc nbits rule: decode_long_from.induct)
    (auto simp: Let_def split: if_splits option.splits)

lemma decode_long_len:
  "decode_long acc nbits = Some (sy, len) \<Longrightarrow> WIN_BITS < len \<and> len \<le> nbits"
  unfolding decode_long_def by (drule decode_long_from_len) (simp del: upt_Suc)

lemma refill_octets_total:
  "refill_octets data acc nbits = (acc', nbits', data') \<Longrightarrow>
     nbits' + 8 * length data' = nbits + 8 * length data"
  by (induction data acc nbits rule: refill_octets.induct) (auto split: if_splits)

lemma refill_total:
  "refill data acc nbits = (acc', nbits', data') \<Longrightarrow>
     nbits' + 8 * length data' = nbits + 8 * length data"
  by (auto simp: refill_def refill_octets_total split: if_splits list.splits)

function decode_loop :: "bytes \<Rightarrow> u64 \<Rightarrow> nat \<Rightarrow> bytes \<Rightarrow> nat \<Rightarrow> (bytes \<times> u64 \<times> nat) option" where
  "decode_loop data0 acc0 nbits0 out max_output =
     (let (acc, nbits, data) = refill data0 acc0 nbits0 in
      if nbits = 0 then Some (out, acc, nbits)
      else
        (let e = table_entry acc nbits; len = unat (drop_bit 8 e) in
         if len \<noteq> 0 then
           (if len > nbits then Some (out, acc, nbits)
            else if length out = max_output then None
            else decode_loop data acc (nbits - len) (out @ [ucast e]) max_output)
         else if nbits < WIN_BITS then Some (out, acc, nbits)
         else
           (case decode_long acc nbits of
              None \<Rightarrow> None
            | Some (sy, len) \<Rightarrow>
                if sy = 256 then None
                else if length out = max_output then None
                else decode_loop data acc (nbits - len) (out @ [of_nat sy]) max_output)))"
  by pat_completeness auto
termination
  by (relation "measure (\<lambda>(data, acc, nbits, out, max_output). nbits + 8 * length data)")
    (auto dest!: refill_total [OF sym] decode_long_len)

declare decode_loop.simps [simp del]

definition decode_into_limited :: "bytes \<Rightarrow> nat \<Rightarrow> bytes option" where
  "decode_into_limited data max_output =
     (case decode_loop data 0 0 [] max_output of
        None \<Rightarrow> None
      | Some (out, acc, nbits) \<Rightarrow>
          if nbits > 7 then None
          else if nbits > 0 \<and> acc AND (push_bit nbits 1 - 1) \<noteq> push_bit nbits 1 - 1 then None
          else Some out)"

definition decode_limited :: "bytes \<Rightarrow> nat \<Rightarrow> bytes option" where
  "decode_limited data max_output = decode_into_limited data max_output"

definition huff_decode :: "bytes \<Rightarrow> bytes option" where
  "huff_decode data = decode_limited data usize_max"

end
