(* ===== verification/Bit_Strings.thy ===== *)
theory Bit_Strings
  imports HJ_Prelude
begin

text \<open>
  Words as bit strings, most significant bit first: the reading under which the Huffman coder's
  shifts and masks on its accumulator are concatenation and prefixes of lists.
\<close>

section \<open>The low bits of a word\<close>

primrec bits_of :: "nat \<Rightarrow> 'a::len word \<Rightarrow> bool list" where
  "bits_of 0 w = []"
| "bits_of (Suc n) w = bit w n # bits_of n w"

lemma length_bits_of [simp]: "length (bits_of n w) = n"
  by (induction n) auto

lemma bits_of_eq_Nil [simp]: "bits_of n w = [] \<longleftrightarrow> n = 0"
  by (cases n) auto

lemma nth_bits_of: "i < n \<Longrightarrow> bits_of n w ! i = bit w (n - 1 - i)"
  by (induction n arbitrary: i) (auto simp: nth_Cons split: nat.splits)

lemma bits_of_cong: "(\<And>i. i < n \<Longrightarrow> bit v i = bit w i) \<Longrightarrow> bits_of n v = bits_of n w"
  by (induction n) auto

lemma bits_of_add: "bits_of (m + k) w = bits_of m (drop_bit k w) @ bits_of k w"
  by (induction m) (auto simp: bit_drop_bit_eq add.commute)

lemma bits_of_push_or:
  assumes "n + len \<le> LENGTH('a)" "take_bit len c = c"
  shows "bits_of (n + len) (push_bit len acc OR c :: 'a::len word) = bits_of n acc @ bits_of len c"
proof -
  have hi: "bits_of n (drop_bit len (push_bit len acc OR c)) = bits_of n acc"
  proof (rule bits_of_cong)
    fix i assume "i < n"
    have "\<not> bit c (len + i)" using assms(2) by (metis bit_take_bit_iff not_add_less1)
    then show "bit (drop_bit len (push_bit len acc OR c)) i = bit acc i"
      using assms(1) \<open>i < n\<close> by (auto simp: bit_simps)
  qed
  have lo: "bits_of len (push_bit len acc OR c) = bits_of len c"
    by (rule bits_of_cong) (auto simp: bit_simps)
  show ?thesis by (simp only: bits_of_add hi lo)
qed

lemma bits_of_ucast:
  assumes "n \<le> LENGTH('b)"
  shows "bits_of n (ucast (w :: 'a::len word) :: 'b::len word) = bits_of n w"
  using assms by (intro bits_of_cong) (auto simp: bit_simps)

lemma bits_of_mask: "n \<le> LENGTH('a) \<Longrightarrow> bits_of n (mask n :: 'a::len word) = replicate n True"
  by (rule nth_equalityI) (auto simp: nth_bits_of bit_simps)

section \<open>Bit strings as numbers\<close>

primrec bits_nat :: "bool list \<Rightarrow> nat" where
  "bits_nat [] = 0"
| "bits_nat (b # bs) = of_bool b * 2 ^ length bs + bits_nat bs"

lemma bits_nat_less: "bits_nat bs < 2 ^ length bs"
  by (induction bs) auto

lemma bits_nat_append: "bits_nat (xs @ ys) = bits_nat xs * 2 ^ length ys + bits_nat ys"
  by (induction xs) (auto simp: power_add algebra_simps)

lemma bits_nat_inject: "length xs = length ys \<Longrightarrow> bits_nat xs = bits_nat ys \<longleftrightarrow> xs = ys"
proof (induction xs ys rule: list_induct2)
  case (Cons x xs y ys)
  then show ?case using bits_nat_less [of xs] bits_nat_less [of ys] by (cases x; cases y) auto
qed simp

lemma bits_nat_bits_of: "n \<le> LENGTH('a) \<Longrightarrow> bits_nat (bits_of n (w :: 'a::len word)) = unat w mod 2 ^ n"
proof (induction n)
  case (Suc n)
  have "bit w n = odd (unat w div 2 ^ n)"
    using Suc.prems by (simp add: bit_unsigned_iff flip: bit_iff_odd)
  then have "of_bool (bit w n) = unat w div 2 ^ n mod 2" by (simp add: mod2_eq_if)
  moreover have "unat w mod (2 ^ n * 2) = 2 ^ n * (unat w div 2 ^ n mod 2) + unat w mod 2 ^ n"
    by (rule mod_mult2_eq)
  ultimately show ?case using Suc by (simp add: mult.commute)
qed simp

lemma bits_nat_replicate_True: "bits_nat (replicate n True) = 2 ^ n - 1"
  by (induction n) auto

section \<open>Byte strings as bit strings\<close>

definition byte_bits :: "bytes \<Rightarrow> bool list" where
  "byte_bits bs = concat (map (bits_of 8) bs)"

lemma byte_bits_simps [simp]:
  "byte_bits [] = []" "byte_bits (b # bs) = bits_of 8 b @ byte_bits bs"
  "byte_bits (xs @ ys) = byte_bits xs @ byte_bits ys"
  by (simp_all add: byte_bits_def)

lemma length_byte_bits [simp]: "length (byte_bits bs) = 8 * length bs"
  by (induction bs) auto

lemma bits_of_8_inject: "bits_of 8 a = bits_of 8 (b :: u8) \<longleftrightarrow> a = b"
proof
  assume "bits_of 8 a = bits_of 8 b"
  then have "unat a mod 2 ^ 8 = unat b mod 2 ^ 8"
    using bits_nat_bits_of [of 8 a] bits_nat_bits_of [of 8 b] by simp
  then show "a = b" using unat_u8_lt [of a] unat_u8_lt [of b] by (simp add: word_unat_eq_iff)
qed simp

lemma byte_bits_inject: "byte_bits xs = byte_bits ys \<longleftrightarrow> xs = ys"
proof (induction xs arbitrary: ys)
  case Nil
  have "byte_bits ys = [] \<longleftrightarrow> ys = []" using length_byte_bits [of ys] by (cases ys) auto
  then show ?case by auto
next
  case (Cons x xs)
  show ?case
  proof (cases ys)
    case Nil
    then show ?thesis using length_byte_bits [of "x # xs"] by auto
  next
    case (Cons y ys')
    then show ?thesis using Cons.IH [of ys'] by (simp add: bits_of_8_inject)
  qed
qed

lemma byte_bits_u32_to_be: "byte_bits (u32_to_be w) = bits_of 32 w"
proof -
  have "bits_of (8 + (8 + (8 + 8))) w =
      bits_of 8 (drop_bit 24 w) @ bits_of 8 (drop_bit 16 w) @ bits_of 8 (drop_bit 8 w) @ bits_of 8 w"
    by (simp only: bits_of_add drop_bit_drop_bit) simp
  then show ?thesis by (simp add: u32_to_be_def bits_of_ucast)
qed

lemma bits_of_u32_of_be: "bits_of 32 (u32_of_be a b c d) = byte_bits [a, b, c, d]"
proof -
  let ?w = "u32_of_be a b c d"
  have "bits_of 8 (drop_bit 24 ?w) = bits_of 8 a" "bits_of 8 (drop_bit 16 ?w) = bits_of 8 b"
    "bits_of 8 (drop_bit 8 ?w) = bits_of 8 c" "bits_of 8 ?w = bits_of 8 d"
    by (rule bits_of_cong; auto simp: u32_of_be_def bit_simps dest: bit_imp_le_length)+
  moreover have "bits_of (8 + (8 + (8 + 8))) ?w =
      bits_of 8 (drop_bit 24 ?w) @ bits_of 8 (drop_bit 16 ?w) @ bits_of 8 (drop_bit 8 ?w) @ bits_of 8 ?w"
    by (simp only: bits_of_add drop_bit_drop_bit) simp
  ultimately show ?thesis by simp
qed

end
