(* ===== verification/Huffman_Code.thy ===== *)
theory Huffman_Code
  imports Hpack_Huffman Bit_Strings "HOL-Library.Sublist"
begin

text \<open>
  The Huffman code as a set of bit strings: it is canonical, hence prefix-free, and the reference
  decoder \<open>huff_spec\<close> that strips one code after the other off a bit string. The facts about the
  table rest on one evaluation per quarter of it (\<open>canon_run\<close>).
\<close>

section \<open>The table is canonical\<close>

text \<open>
  In a canonical code the codes of one length are consecutive numbers in symbol order. The check
  runs over the table with the next expected code of every length.
\<close>

fun canon_run :: "nat list \<Rightarrow> (u32 \<times> nat) list \<Rightarrow> nat list option" where
  "canon_run nx [] = Some nx"
| "canon_run nx ((c, n) # xs) =
     (if n < length nx \<and> unat c = nx ! n then canon_run (nx[n := nx ! n + 1]) xs else None)"

definition canon_first :: "nat list" where
  "canon_first = [0, 0, 0, 0, 0, 0, 20, 92, 248, 508, 1016, 2042, 4090, 8184, 16380, 32764, 65534,
     131068, 262136, 524272, 1048550, 2097116, 4194258, 8388568, 16777194, 33554412, 67108832,
     134217694, 268435426, 536870910, 1073741820]"

definition canon_next :: "nat list" where
  "canon_next = [0, 0, 0, 0, 0, 10, 46, 124, 254, 508, 1021, 2045, 4092, 8190, 16382, 32767, 65534,
     131068, 262136, 524275, 1048558, 2097129, 4194284, 8388597, 16777206, 33554416, 67108847,
     134217713, 268435455, 536870910, 1073741824]"

lemma canon_run_append:
  "canon_run nx (xs @ ys) =
     (case canon_run nx xs of None \<Rightarrow> None | Some nx' \<Rightarrow> canon_run nx' ys)"
  by (induction nx xs rule: canon_run.induct) auto

definition canon_next_1 :: "nat list" where
  "canon_next_1 = [0, 0, 0, 0, 0, 3, 33, 93, 252, 508, 1021, 2044, 4092, 8186, 16380, 32765, 65534, 131068,
     262136, 524272, 1048550, 2097116, 4194258, 8388569, 16777195, 33554412, 67108832,
     134217694, 268435452, 536870910, 1073741823]"

definition canon_next_2 :: "nat list" where
  "canon_next_2 = [0, 0, 0, 0, 0, 10, 46, 124, 254, 508, 1021, 2045, 4092, 8190, 16382, 32767, 65534,
     131068, 262136, 524273, 1048550, 2097116, 4194258, 8388569, 16777195, 33554412, 67108832,
     134217694, 268435453, 536870910, 1073741823]"

definition canon_next_3 :: "nat list" where
  "canon_next_3 = [0, 0, 0, 0, 0, 10, 46, 124, 254, 508, 1021, 2045, 4092, 8190, 16382, 32767, 65534,
     131068, 262136, 524273, 1048555, 2097123, 4194279, 8388594, 16777201, 33554412, 67108832,
     134217694, 268435453, 536870910, 1073741823]"

lemma canon_run_0: "canon_run canon_first HUFF_TABLE_0 = Some canon_next_1"
  by (simp add: HUFF_TABLE_0_def canon_first_def canon_next_1_def)

lemma canon_run_1: "canon_run canon_next_1 HUFF_TABLE_1 = Some canon_next_2"
  by (simp add: HUFF_TABLE_1_def canon_next_1_def canon_next_2_def)

lemma canon_run_2: "canon_run canon_next_2 HUFF_TABLE_2 = Some canon_next_3"
  by (simp add: HUFF_TABLE_2_def canon_next_2_def canon_next_3_def)

lemma canon_run_3: "canon_run canon_next_3 HUFF_TABLE_3 = Some canon_next"
  by (simp add: HUFF_TABLE_3_def canon_next_3_def canon_next_def)

lemma canon_run_table: "canon_run canon_first HUFF_TABLE = Some canon_next"
  by (simp add: HUFF_TABLE_def canon_run_append canon_run_0 canon_run_1 canon_run_2 canon_run_3)

lemma length_HUFF_TABLE: "length HUFF_TABLE = 257"
  by (simp add: HUFF_TABLE_def HUFF_TABLE_0_def HUFF_TABLE_1_def HUFF_TABLE_2_def HUFF_TABLE_3_def)

lemma canon_run_spec:
  assumes "canon_run nx T = Some nx'"
  shows "length nx' = length nx"
    and "n < length nx \<Longrightarrow> nx ! n \<le> nx' ! n"
    and "\<lbrakk>i < length T; T ! i = (c, n)\<rbrakk> \<Longrightarrow> n < length nx \<and> nx ! n \<le> unat c \<and> unat c < nx' ! n"
    and "\<lbrakk>i < j; j < length T; T ! i = (c, n); T ! j = (d, n)\<rbrakk> \<Longrightarrow> unat c < unat d"
  using assms
proof (induction nx T arbitrary: i j n c d rule: canon_run.induct)
  case (2 nx c0 n0 xs)
  {
    case 1
    then show ?case using "2.IH"(1) by (auto split: if_splits)
  next
    case 2
    then show ?case using "2.IH"(2) [of n] by (auto simp: nth_list_update split: if_splits)
  next
    case 3
    then have ok: "n0 < length nx" "unat c0 = nx ! n0"
      and run: "canon_run (nx[n0 := nx ! n0 + 1]) xs = Some nx'" by (auto split: if_splits)
    show ?case
    proof (cases i)
      case 0
      have "(nx[n0 := nx ! n0 + 1]) ! n0 \<le> nx' ! n0" using "2.IH"(2) [of n0] ok run by simp
      then show ?thesis using 3 0 ok by auto
    next
      case (Suc k)
      then have "n < length nx \<and> (nx[n0 := nx ! n0 + 1]) ! n \<le> unat c \<and> unat c < nx' ! n"
        using "2.IH"(3) [of k c n] 3 ok run by auto
      then show ?thesis using ok by (auto simp: nth_list_update split: if_splits)
    qed
  next
    case 4
    then have ok: "n0 < length nx" "unat c0 = nx ! n0"
      and run: "canon_run (nx[n0 := nx ! n0 + 1]) xs = Some nx'" by (auto split: if_splits)
    obtain k where j: "j = Suc k" using 4 by (cases j) auto
    show ?case
    proof (cases i)
      case 0
      have "(nx[n0 := nx ! n0 + 1]) ! n \<le> unat d" using "2.IH"(3) [of k d n] 4 j ok run by auto
      then show ?thesis using 4 0 ok by auto
    next
      case (Suc i')
      then show ?thesis using "2.IH"(4) [of i' k c n d] 4 j ok run by auto
    qed
  }
qed auto

lemma canon_gap_Suc: "k < 30 \<Longrightarrow> canon_next ! k * 2 \<le> canon_first ! Suc k"
proof -
  have "list_all2 (\<lambda>a b. a * 2 \<le> b) (butlast canon_next) (tl canon_first)"
    by (simp add: canon_next_def canon_first_def)
  moreover assume "k < 30"
  moreover from this have "k < length (butlast canon_next)" by (simp add: canon_next_def)
  ultimately have "butlast canon_next ! k * 2 \<le> tl canon_first ! k"
    by (auto dest: list_all2_nthD)
  moreover have "length canon_next = 31" "length canon_first = 31"
    by (simp_all add: canon_next_def canon_first_def)
  ultimately show ?thesis using \<open>k < 30\<close> by (simp add: nth_butlast nth_tl)
qed

lemma canon_gap:
  assumes "m < n" "n \<le> 30"
  shows "canon_next ! m * 2 ^ (n - m) \<le> canon_first ! n"
  using assms
proof (induction "n - m - 1" arbitrary: m)
  case 0
  then have "n = Suc m" by simp
  then show ?case using 0 canon_gap_Suc [of m] by auto
next
  case (Suc d)
  have "canon_next ! m * 2 \<le> canon_first ! Suc m" using Suc by (intro canon_gap_Suc) auto
  also have "\<dots> \<le> canon_next ! Suc m"
    using canon_run_spec(2) [OF canon_run_table, of "Suc m"] Suc by (simp add: canon_first_def)
  finally have "canon_next ! m * 2 * 2 ^ (n - Suc m) \<le> canon_next ! Suc m * 2 ^ (n - Suc m)"
    by (rule mult_le_mono1)
  also have "\<dots> \<le> canon_first ! n" using Suc by (intro Suc.hyps) auto
  finally show ?case using Suc.prems by (simp add: mult.assoc flip: power_Suc) (simp add: Suc_diff_Suc)
qed

section \<open>Codes as bit strings\<close>

definition huff_code :: "nat \<Rightarrow> bool list" where
  "huff_code s = (case HUFF_TABLE ! s of (c, n) \<Rightarrow> bits_of n c)"

abbreviation huff_len :: "nat \<Rightarrow> nat" where
  "huff_len s \<equiv> snd (HUFF_TABLE ! s)"

lemma length_huff_code [simp]: "length (huff_code s) = huff_len s"
  by (simp add: huff_code_def split: prod.splits)

lemma table_bounds:
  assumes "s < 257"
  shows "5 \<le> huff_len s" "huff_len s \<le> 30"
    and "canon_first ! huff_len s \<le> unat (fst (HUFF_TABLE ! s))"
    and "unat (fst (HUFF_TABLE ! s)) < canon_next ! huff_len s"
    and "unat (fst (HUFF_TABLE ! s)) < 2 ^ huff_len s"
proof -
  obtain c n where cn: "HUFF_TABLE ! s = (c, n)" by fastforce
  have b: "n < length canon_first \<and> canon_first ! n \<le> unat c \<and> unat c < canon_next ! n"
    using canon_run_spec(3) [OF canon_run_table, of s c n] cn assms by (simp add: length_HUFF_TABLE)
  then show "canon_first ! huff_len s \<le> unat (fst (HUFF_TABLE ! s))"
    "unat (fst (HUFF_TABLE ! s)) < canon_next ! huff_len s" by (simp_all add: cn)
  have n31: "n < 31" using b by (simp add: canon_first_def)
  then show "huff_len s \<le> 30" by (simp add: cn)
  have "canon_next ! k = canon_first ! k" if "k < 5" for k
  proof -
    have "k = 0 \<or> k = 1 \<or> k = 2 \<or> k = 3 \<or> k = 4" using that by arith
    then show ?thesis by (elim disjE) (simp_all add: canon_next_def canon_first_def)
  qed
  then show "5 \<le> huff_len s" using b cn by (metis leD not_less snd_conv)
  have "canon_next ! n \<le> 2 ^ n"
  proof (cases "n = 30")
    case True
    then show ?thesis by (simp add: canon_next_def)
  next
    case False
    then have "canon_next ! n * 2 ^ (30 - n) \<le> 2 ^ n * 2 ^ (30 - n)"
      using canon_gap [of n 30] n31 by (simp add: canon_first_def flip: power_add)
    then show ?thesis by simp
  qed
  then show "unat (fst (HUFF_TABLE ! s)) < 2 ^ huff_len s" using b by (simp add: cn)
qed

lemma bits_nat_huff_code:
  assumes "s < 257"
  shows "bits_nat (huff_code s) = unat (fst (HUFF_TABLE ! s))"
  using table_bounds [OF assms] by (auto simp: huff_code_def bits_nat_bits_of split: prod.splits)

lemma huff_code_inject:
  assumes "s < 257" "t < 257" "huff_code s = huff_code t"
  shows "s = t"
proof -
  have len: "huff_len s = huff_len t" using assms(3) by (metis length_huff_code)
  have code: "unat (fst (HUFF_TABLE ! s)) = unat (fst (HUFF_TABLE ! t))"
    using bits_nat_huff_code [OF assms(1)] bits_nat_huff_code [OF assms(2)] assms(3) by simp
  have lt: "unat (fst (HUFF_TABLE ! i)) < unat (fst (HUFF_TABLE ! j))"
    if "i < j" "j < 257" "huff_len i = huff_len j" for i j
    using canon_run_spec(4) [OF canon_run_table, of i j] that
    by (metis length_HUFF_TABLE prod.collapse)
  show ?thesis using lt [of s t] lt [of t s] assms(1,2) len code by (metis less_irrefl linorder_neqE_nat)
qed

lemma huff_prefix_free:
  assumes "s < 257" "t < 257" "prefix (huff_code s) (huff_code t)"
  shows "s = t"
proof (rule ccontr)
  assume "s \<noteq> t"
  obtain ys where ys: "huff_code t = huff_code s @ ys" using assms(3) by (auto simp: prefix_def)
  have "ys \<noteq> []" using huff_code_inject [OF assms(1,2)] ys \<open>s \<noteq> t\<close> by auto
  then have len: "huff_len s < huff_len t" and d: "length ys = huff_len t - huff_len s"
    using arg_cong [OF ys, of length] by auto
  let ?c = "\<lambda>s. unat (fst (HUFF_TABLE ! s))"
  have "?c t = ?c s * 2 ^ length ys + bits_nat ys"
    using bits_nat_huff_code [OF assms(1)] bits_nat_huff_code [OF assms(2)] ys
    by (simp add: bits_nat_append)
  also have "\<dots> < (?c s + 1) * 2 ^ length ys" using bits_nat_less [of ys] by simp
  also have "\<dots> \<le> canon_next ! huff_len s * 2 ^ length ys"
    using table_bounds(4) [OF assms(1)] by (intro mult_le_mono1) simp
  also have "\<dots> \<le> canon_first ! huff_len t"
    unfolding d using len table_bounds(2) [OF assms(2)] by (rule canon_gap)
  also have "\<dots> \<le> ?c t" by (rule table_bounds(3) [OF assms(2)])
  finally show False by simp
qed

section \<open>The reference decoder\<close>

lemma find_upt_SomeD: "find P [0..<n] = Some s \<Longrightarrow> s < n \<and> P s"
  by (auto simp: find_Some_iff)

lemma find_upt_None_iff: "find P [0..<n] = None \<longleftrightarrow> (\<forall>s < n. \<not> P s)"
  by (auto simp: find_None_iff)

lemma find_upt_unique:
  assumes "s < n" "P s" "\<And>t. t < n \<Longrightarrow> P t \<Longrightarrow> t = s"
  shows "find P [0..<n] = Some s"
proof (cases "find P [0..<n]")
  case None
  then show ?thesis using assms(1,2) by (simp add: find_upt_None_iff)
next
  case (Some t)
  then show ?thesis using assms(3) by (auto dest: find_upt_SomeD)
qed

definition huff_match :: "bool list \<Rightarrow> (nat \<times> nat) option" where
  "huff_match bs =
     map_option (\<lambda>s. (s, huff_len s)) (find (\<lambda>s. prefix (huff_code s) bs) [0..<257])"

function huff_spec :: "bool list \<Rightarrow> nat \<Rightarrow> bytes \<Rightarrow> bytes option" where
  "huff_spec bs limit out =
     (case huff_match bs of
        Some (s, n) \<Rightarrow>
          if s = 256 \<or> length out = limit then None
          else huff_spec (drop n bs) limit (out @ [of_nat s])
      | None \<Rightarrow> if length bs \<le> 7 \<and> list_all (\<lambda>b. b) bs then Some out else None)"
  by pat_completeness auto

lemma huff_match_SomeD:
  assumes "huff_match bs = Some (s, n)"
  shows "s < 257" "n = huff_len s" "prefix (huff_code s) bs" "n \<le> length bs" "5 \<le> n" "n \<le> 30"
proof -
  show s: "s < 257" "n = huff_len s" "prefix (huff_code s) bs"
    using assms by (auto simp: huff_match_def simp del: upt.simps dest!: find_upt_SomeD)
  show "n \<le> length bs" using s(2) prefix_length_le [OF s(3)] by simp
  show "5 \<le> n" "n \<le> 30" using table_bounds(1,2) [OF s(1)] s(2) by auto
qed

lemma huff_match_shrinks: "huff_match bs = Some (s, n) \<Longrightarrow> 0 < n \<and> n \<le> length bs"
  using huff_match_SomeD(4,5) [of bs s n] by simp

termination huff_spec
  by (relation "measure (\<lambda>(bs, limit, out). length bs)") (auto dest: huff_match_shrinks)

declare huff_spec.simps [simp del]

lemma huff_match_code:
  assumes "s < 257" "prefix (huff_code s) bs"
  shows "huff_match bs = Some (s, huff_len s)"
proof -
  have "t = s" if "t < 257" "prefix (huff_code t) bs" for t
    using prefix_same_cases [OF that(2) assms(2)] huff_prefix_free assms(1) that(1) by blast
  then have "find (\<lambda>s. prefix (huff_code s) bs) [0..<257] = Some s"
    by (intro find_upt_unique [where P = "\<lambda>s. prefix (huff_code s) bs"] assms)
  then show ?thesis by (simp add: huff_match_def)
qed

lemma huff_match_None_iff: "huff_match bs = None \<longleftrightarrow> (\<forall>s < 257. \<not> prefix (huff_code s) bs)"
  by (simp only: huff_match_def option.map_disc_iff find_upt_None_iff)

end
