(* ===== verification/Huffman_Encode.thy ===== *)
theory Huffman_Encode
  imports Huffman_Code
begin

text \<open>
  Correctness of the Huffman encoder of \<open>hpack/huffman.rs\<close>. The word-wise \<open>fill\<close> and the
  octet-wise fallback \<open>encode_octets\<close> produce the same octets: the concatenated codes of the input,
  padded with 1-bits to a whole octet. The relation \<open>encodes\<close> states this on bit strings, and its
  right-hand side determines the octets.
\<close>

section \<open>One code appended to the accumulator\<close>

abbreviation code_bits :: "u8 \<Rightarrow> bool list" where
  "code_bits b \<equiv> huff_code (unat b)"

abbreviation data_bits :: "bytes \<Rightarrow> bool list" where
  "data_bits data \<equiv> concat (map code_bits data)"

lemma unat_u8_symbol: "unat (b :: u8) < 257"
  using unat_u8_lt [of b] by simp

lemma code_of_facts:
  assumes "code_of b = (code, len)"
  shows "5 \<le> len" "len \<le> 30" "unat code < 2 ^ len" "code_bits b = bits_of len code"
    "huff_len (unat b) = len"
  using assms table_bounds [OF unat_u8_symbol [of b]] by (auto simp: code_of_def huff_code_def)

lemma append_code:
  assumes "code_of b = (code, len)" "nbits < 32"
  shows "bits_of (nbits + len) (push_bit len acc OR ucast code :: u64) = bits_of nbits acc @ code_bits b"
proof -
  note f = code_of_facts [OF assms(1)]
  have "take_bit len (ucast code :: u64) = ucast code"
  proof -
    have "unat (ucast code :: u64) = unat code" using unsigned_less [of code, where 'a = nat] by (simp add: unat_ucast_mod)
    then show ?thesis using f(3) by (simp add: word_unat_eq_iff unat_take_bit_mod)
  qed
  moreover have "nbits + len \<le> LENGTH(64)" using assms(2) f(2) by simp
  ultimately show ?thesis using f(2) by (subst bits_of_push_or) (auto simp: f(4) bits_of_ucast)
qed

lemma pad_octet_bits:
  assumes "nbits < 8"
  shows "bits_of 8 (pad_octet acc nbits) = bits_of nbits acc @ replicate (8 - nbits) True"
proof -
  let ?m = "mask (8 - nbits) :: u64"
  have "take_bit (8 - nbits) ?m = ?m" by (simp add: take_bit_of_mask)
  then have "bits_of (nbits + (8 - nbits)) (push_bit (8 - nbits) acc OR ?m) =
      bits_of nbits acc @ bits_of (8 - nbits) ?m"
    using assms by (intro bits_of_push_or) auto
  moreover have "pad_octet acc nbits = ucast (push_bit (8 - nbits) acc OR ?m)"
    by (simp add: pad_octet_def Let_def mask_eq_exp_minus_1)
  ultimately show ?thesis using assms by (simp add: bits_of_ucast bits_of_mask)
qed

lemma drop_octet_bits:
  assumes "8 \<le> nbits"
  shows "bits_of nbits acc = bits_of 8 (ucast (drop_bit (nbits - 8) acc :: u64) :: u8) @ bits_of (nbits - 8) acc"
  using bits_of_add [of 8 "nbits - 8" acc] assms by (simp add: bits_of_ucast)

lemma drop_word_bits:
  assumes "32 \<le> nbits"
  shows "bits_of nbits acc =
    byte_bits (u32_to_be (ucast (drop_bit (nbits - 32) acc :: u64))) @ bits_of (nbits - 32) acc"
  using bits_of_add [of 32 "nbits - 32" acc] assms by (simp add: byte_bits_u32_to_be bits_of_ucast)

section \<open>Filling a sized slice\<close>

lemma fill_words_spec:
  assumes "nbits < 32"
  shows "case fill_words cap acc nbits w data of
      None \<Rightarrow> 8 * cap < nbits + length (data_bits data)
    | Some (cap', acc', nbits', w') \<Rightarrow>
        nbits' < 32 \<and> cap' + length w' = cap + length w \<and>
        byte_bits w' @ bits_of nbits' acc' = byte_bits w @ bits_of nbits acc @ data_bits data"
  using assms
proof (induction cap acc nbits w data rule: fill_words.induct)
  case (2 cap acc nbits w b data)
  obtain code len where c: "code_of b = (code, len)" by fastforce
  define acc' where "acc' = push_bit len acc OR (ucast code :: u64)"
  note f = code_of_facts [OF c]
  have app: "bits_of (nbits + len) acc' = bits_of nbits acc @ code_bits b"
    unfolding acc'_def using c "2.prems" by (rule append_code)
  show ?case
  proof (cases "nbits + len \<ge> 32")
    case True
    define n where "n = nbits + len - 32"
    let ?w = "u32_to_be (ucast (drop_bit n acc'))"
    have n: "n < 32" using "2.prems" f(2) by (simp add: n_def)
    have spl: "bits_of nbits acc @ code_bits b @ zs = byte_bits ?w @ bits_of n acc' @ zs" for zs
      using drop_word_bits [OF True, of acc'] app by (metis append_assoc n_def)
    have len_eq: "nbits + huff_len (unat b) = 32 + n" using True f(5) by (simp add: n_def)
    show ?thesis
    proof (cases "cap < 4")
      case cap: True
      then have "fill_words cap acc nbits w (b # data) = None"
        using True by (simp add: c acc'_def Let_def)
      then show ?thesis using cap len_eq by simp
    next
      case cap: False
      then have step: "fill_words cap acc nbits w (b # data) = fill_words (cap - 4) acc' n (w @ ?w) data"
        using True by (simp add: c acc'_def n_def Let_def)
      have "case fill_words (cap - 4) acc' n (w @ ?w) data of
          None \<Rightarrow> 8 * (cap - 4) < n + length (data_bits data)
        | Some (cap', acc'', nbits', w') \<Rightarrow>
            nbits' < 32 \<and> cap' + length w' = cap - 4 + length (w @ ?w) \<and>
            byte_bits w' @ bits_of nbits' acc'' = byte_bits (w @ ?w) @ bits_of n acc' @ data_bits data"
        using "2.IH"(1) [OF refl c [symmetric] acc'_def refl True n_def cap n] by simp
      then show ?thesis using cap len_eq spl
        by (auto simp: step simp del: fill_words.simps split: option.splits)
    qed
  next
    case False
    then have step: "fill_words cap acc nbits w (b # data) = fill_words cap acc' (nbits + len) w data"
      by (simp add: c acc'_def Let_def)
    have "case fill_words cap acc' (nbits + len) w data of
        None \<Rightarrow> 8 * cap < nbits + len + length (data_bits data)
      | Some (cap', acc'', nbits', w') \<Rightarrow>
          nbits' < 32 \<and> cap' + length w' = cap + length w \<and>
          byte_bits w' @ bits_of nbits' acc'' = byte_bits w @ bits_of (nbits + len) acc' @ data_bits data"
      using "2.IH"(2) [OF refl c [symmetric] acc'_def refl False] False by simp
    then show ?thesis using app f(5) by (auto simp: step simp del: fill_words.simps split: option.splits)
  qed
qed simp

lemma fill_octets_spec:
  "case fill_octets cap acc nbits w of
      None \<Rightarrow> 8 * cap < nbits
    | Some (cap', acc', nbits', w') \<Rightarrow>
        nbits' < 8 \<and> cap' + length w' = cap + length w \<and>
        byte_bits w' @ bits_of nbits' acc' = byte_bits w @ bits_of nbits acc"
proof (induction cap acc nbits w rule: fill_octets.induct)
  case (1 cap acc nbits w)
  show ?case
  proof (cases "8 \<le> nbits \<and> cap \<noteq> 0")
    case True
    let ?w = "w @ [ucast (drop_bit (nbits - 8) acc)]"
    have step: "fill_octets cap acc nbits w = fill_octets (cap - 1) acc (nbits - 8) ?w"
      using True by (simp add: fill_octets.simps [of cap])
    have "byte_bits ?w @ bits_of (nbits - 8) acc = byte_bits w @ bits_of nbits acc"
      using True drop_octet_bits [of nbits acc] by simp
    then show ?thesis
      using "1" True unfolding step by (auto split: option.splits)
  next
    case False
    then show ?thesis by (auto simp: fill_octets.simps [of cap])
  qed
qed

text \<open>\<open>w\<close> is the padded encoding of \<open>data\<close>: its codes, filled up with 1-bits to a whole octet.\<close>

definition encodes :: "bytes \<Rightarrow> bytes \<Rightarrow> bool" where
  "encodes w data \<longleftrightarrow> (\<exists>p < 8. byte_bits w = data_bits data @ replicate p True)"

lemma encodes_length:
  assumes "encodes w data"
  shows "length w = encoded_len data"
proof -
  obtain p where p: "p < 8" "byte_bits w = data_bits data @ replicate p True"
    using assms by (auto simp: encodes_def)
  have bits: "sum_list (map (\<lambda>b. snd (code_of b)) data) = length (data_bits data)"
    by (simp add: length_concat code_of_def comp_def)
  have "8 * length w = length (data_bits data) + p"
    using arg_cong [OF p(2), of length] by simp
  then show ?thesis using p(1) unfolding encoded_len_def bits by linarith
qed

lemma encodes_unique:
  assumes "encodes v data" "encodes w data"
  shows "v = w"
proof -
  obtain p q where v: "byte_bits v = data_bits data @ replicate p True"
    and w: "byte_bits w = data_bits data @ replicate q True"
    using assms by (auto simp: encodes_def)
  have "p = q" using encodes_length [OF assms(1)] encodes_length [OF assms(2)]
      arg_cong [OF v, of length] arg_cong [OF w, of length] by simp
  then show ?thesis using v w byte_bits_inject by metis
qed

lemma encodes_pad:
  assumes "nbits < 8" "byte_bits w @ bits_of nbits acc = data_bits data"
  shows "encodes (if nbits > 0 then w @ [pad_octet acc nbits] else w) data"
  using assms pad_octet_bits [OF assms(1), of acc]
  by (auto simp: encodes_def intro: exI [of _ "8 - nbits"] exI [of _ 0] simp flip: assms(2))

lemma fill_huff_Some:
  assumes "fill_huff cap data = Some w"
  shows "encodes w data"
proof -
  obtain c1 a1 n1 w1 where f1: "fill_words cap 0 0 [] data = Some (c1, a1, n1, w1)"
    using assms by (auto simp: fill_huff_def split: option.splits)
  obtain c2 a2 n2 w2 where f2: "fill_octets c1 a1 n1 w1 = Some (c2, a2, n2, w2)"
    using assms f1 by (auto simp: fill_huff_def split: option.splits)
  have "n2 < 8" "byte_bits w2 @ bits_of n2 a2 = data_bits data"
    using fill_words_spec [where nbits = 0 and cap = cap and acc = 0 and w = "[]" and data = data] fill_octets_spec [where cap = c1 and acc = a1 and nbits = n1 and w = w1] f1 f2 by auto
  from encodes_pad [OF this] show ?thesis
    using assms f1 f2 by (auto simp: fill_huff_def split: if_splits)
qed

lemma fill_huff_fits: "\<exists>w. fill_huff (encoded_len data) data = Some w"
proof -
  let ?cap = "encoded_len data"
  have bits: "sum_list (map (\<lambda>b. snd (code_of b)) data) = length (data_bits data)"
    by (simp add: length_concat code_of_def comp_def)
  have cap: "length (data_bits data) \<le> 8 * ?cap" "8 * ?cap < length (data_bits data) + 8"
    unfolding encoded_len_def bits by linarith+
  obtain c1 a1 n1 w1 where f1: "fill_words ?cap 0 0 [] data = Some (c1, a1, n1, w1)"
    and s1: "c1 + length w1 = ?cap" "byte_bits w1 @ bits_of n1 a1 = data_bits data"
    using fill_words_spec [where nbits = 0 and cap = ?cap and acc = 0 and w = "[]" and data = data] cap(1) by (auto split: option.splits)
  have "8 * length w1 + n1 = length (data_bits data)" using arg_cong [OF s1(2), of length] by simp
  then have "n1 \<le> 8 * c1" using s1(1) cap(1) by linarith
  then obtain c2 a2 n2 w2 where f2: "fill_octets c1 a1 n1 w1 = Some (c2, a2, n2, w2)"
    and s2: "n2 < 8" "c2 + length w2 = c1 + length w1"
      "byte_bits w2 @ bits_of n2 a2 = byte_bits w1 @ bits_of n1 a1"
    using fill_octets_spec [where cap = c1 and acc = a1 and nbits = n1 and w = w1] by (auto split: option.splits)
  have "8 * length w2 + n2 = length (data_bits data)"
    using arg_cong [OF s2(3), of length] s1(2) arg_cong [OF s1(2), of length] by simp
  then have "c2 = (if n2 > 0 then 1 else 0)" using s1(1) s2 cap by auto
  then show ?thesis using f1 f2 by (auto simp: fill_huff_def)
qed

section \<open>The octet-by-octet fallback\<close>

lemma push_octets_spec:
  assumes "push_octets out acc nbits = (out', nbits')"
  shows "nbits' < 8 \<and> (\<exists>w. out' = out @ w \<and> byte_bits w @ bits_of nbits' acc = bits_of nbits acc)"
  using assms
proof (induction out acc nbits arbitrary: out' nbits' rule: push_octets.induct)
  case (1 out acc nbits)
  show ?case
  proof (cases "8 \<le> nbits")
    case True
    let ?b = "ucast (drop_bit (nbits - 8) acc) :: u8"
    have "push_octets (out @ [?b]) acc (nbits - 8) = (out', nbits')"
      using "1.prems" True by (simp add: push_octets.simps [of out])
    from "1.IH" [OF True this] obtain w where "nbits' < 8" "out' = (out @ [?b]) @ w"
      "byte_bits w @ bits_of nbits' acc = bits_of (nbits - 8) acc" by auto
    then show ?thesis
      using drop_octet_bits [OF True, of acc] by (auto intro: exI [of _ "?b # w"])
  next
    case False
    then show ?thesis using "1.prems" by (simp add: push_octets.simps [of out])
  qed
qed

lemma encode_octets_loop_spec:
  assumes "encode_octets_loop out acc nbits data = (out', acc', nbits')" "nbits < 8"
  shows "nbits' < 8 \<and>
    (\<exists>w. out' = out @ w \<and> byte_bits w @ bits_of nbits' acc' = bits_of nbits acc @ data_bits data)"
  using assms
proof (induction data arbitrary: out acc nbits)
  case (Cons b data)
  obtain code len where c: "code_of b = (code, len)" by fastforce
  define acc1 where "acc1 = push_bit len acc OR (ucast code :: u64)"
  obtain out1 n1 where p: "push_octets out acc1 (nbits + len) = (out1, n1)" by fastforce
  obtain w1 where w1: "n1 < 8" "out1 = out @ w1" "byte_bits w1 @ bits_of n1 acc1 = bits_of nbits acc @ code_bits b"
    using push_octets_spec [OF p] append_code [OF c, of nbits acc] Cons.prems(2) by (auto simp: acc1_def)
  have "encode_octets_loop out1 acc1 n1 data = (out', acc', nbits')"
    using Cons.prems(1) c p by (simp add: acc1_def Let_def)
  from Cons.IH [OF this w1(1)] obtain w2 where w2: "nbits' < 8" "out' = out1 @ w2"
    "byte_bits w2 @ bits_of nbits' acc' = bits_of n1 acc1 @ data_bits data" by auto
  have "byte_bits (w1 @ w2) @ bits_of nbits' acc' = bits_of nbits acc @ data_bits (b # data)"
    using w1(3) w2(3) by (simp flip: append_assoc) (simp add: append_assoc)
  then show ?case using w1 w2 by (auto intro!: exI [of _ "w1 @ w2"])
qed auto

lemma encode_octets_spec: "\<exists>w. encode_octets out data = out @ w \<and> encodes w data"
proof -
  obtain out' acc nbits where l: "encode_octets_loop out 0 0 data = (out', acc, nbits)"
    by (metis prod_cases3)
  obtain w where w: "nbits < 8" "out' = out @ w" "byte_bits w @ bits_of nbits acc = data_bits data"
    using encode_octets_loop_spec [OF l] by auto
  show ?thesis using encodes_pad [OF w(1,3)] l w(2) by (auto simp: encode_octets_def split: if_splits)
qed

section \<open>The encoder\<close>

text \<open>
  Whatever length the caller passes, the octets appended are the padded encoding: a wrong length
  is noticed by \<open>fill\<close> and the fallback produces the same octets.
\<close>

lemma encode_sized_spec: "\<exists>w. encode_sized out data n = out @ w \<and> encodes w data"
  using encode_octets_spec [of out data]
  by (auto simp: encode_sized_def dest: fill_huff_Some split: option.splits)

lemma huff_encode_encodes: "encodes (huff_encode [] data) data"
  using encode_sized_spec [of "[]" data] by (auto simp: huff_encode_def)

lemma encode_sized_eq: "encode_sized out data n = out @ huff_encode [] data"
  using encode_sized_spec [of out data n] huff_encode_encodes [of data] encodes_unique by blast

lemma length_huff_encode: "length (huff_encode [] data) = encoded_len data"
  by (rule encodes_length [OF huff_encode_encodes])

end
