(* ===== verification/Huffman_Tables.thy ===== *)
theory Huffman_Tables
  imports Huffman_Encode
begin

text \<open>
  The decoder's lookup tables (\<open>decode_tables\<close> of \<open>hpack/huffman.rs\<close>). The invariant \<open>tables_inv\<close>
  of the construction loop says that after the first \<open>k\<close> symbols the two-level lookup answers every
  16-bit window with the entry of the symbol whose code is a prefix of the window; the final table
  therefore agrees with the code itself (\<open>table_entry_lookup\<close>).
\<close>

section \<open>Ranges of table slots and code prefixes\<close>

lemma prefix_bits_nat:
  assumes "length c \<le> length w"
  shows "prefix c w \<longleftrightarrow> bits_nat w div 2 ^ (length w - length c) = bits_nat c"
proof -
  let ?t = "take (length c) w" and ?d = "drop (length c) w"
  have "bits_nat w = bits_nat ?t * 2 ^ length ?d + bits_nat ?d"
    using bits_nat_append [of ?t ?d] by simp
  then have "bits_nat w div 2 ^ (length w - length c) = bits_nat ?t"
    using bits_nat_less [of ?d] by simp
  moreover have "prefix c w \<longleftrightarrow> ?t = c"
    by (metis append_eq_conv_conj prefix_def take_is_prefix)
  ultimately show ?thesis using bits_nat_inject [of ?t c] assms by auto
qed

lemma div_eq_range: "0 < m \<Longrightarrow> x div m = q \<longleftrightarrow> q * m \<le> x \<and> x < q * m + (m :: nat)"
  by (metis add.commute div_nat_eqI dividend_less_div_times div_times_less_eq_dividend mult.commute
      mult_Suc)

lemma prefix_range:
  assumes "length c \<le> length w"
  shows "prefix c w \<longleftrightarrow> bits_nat c * 2 ^ (length w - length c) \<le> bits_nat w \<and>
    bits_nat w < bits_nat c * 2 ^ (length w - length c) + 2 ^ (length w - length c)"
  unfolding prefix_bits_nat [OF assms] by (rule div_eq_range) simp

lemma length_fill_range [simp]: "length (fill_range base span e xs) = length xs"
  by (simp add: fill_range_def)

lemma nth_fill_range:
  assumes "base + span \<le> length xs" "i < length xs"
  shows "fill_range base span e xs ! i = (if base \<le> i \<and> i < base + span then e else xs ! i)"
  using assms by (auto simp: fill_range_def nth_append)

text \<open>The slots a code occupies in a table indexed by \<open>width\<close> bits.\<close>

lemma code_slots:
  assumes "length c \<le> n" "length w = n"
  shows "bits_nat c * 2 ^ (n - length c) + 2 ^ (n - length c) \<le> 2 ^ n"
    and "prefix c w \<longleftrightarrow> bits_nat c * 2 ^ (n - length c) \<le> bits_nat w \<and>
      bits_nat w < bits_nat c * 2 ^ (n - length c) + 2 ^ (n - length c)"
proof -
  have "(bits_nat c + 1) * 2 ^ (n - length c) \<le> 2 ^ length c * 2 ^ (n - length c)"
    using bits_nat_less [of c] by (intro mult_le_mono1) simp
  then show "bits_nat c * 2 ^ (n - length c) + 2 ^ (n - length c) \<le> 2 ^ n"
    using assms(1) by (simp flip: power_add)
  show "prefix c w \<longleftrightarrow> bits_nat c * 2 ^ (n - length c) \<le> bits_nat w \<and>
      bits_nat w < bits_nat c * 2 ^ (n - length c) + 2 ^ (n - length c)"
    using prefix_range [of c w] assms by simp
qed

section \<open>Entries and sub-table pointers\<close>

lemma huff_entry_less: "n < 128 \<Longrightarrow> s < 256 \<Longrightarrow> 256 * n + s < 2 ^ 15"
  for n s :: nat by simp

lemma unat_huff_entry:
  assumes "n < 128" "s < 256"
  shows "unat (huff_entry n s) = 256 * n + s"
proof -
  have "unat (of_nat n :: u16) = n" "unat (of_nat s :: u16) = s"
    using assms by (simp_all add: unat_of_nat)
  moreover have "push_bit 8 (of_nat n :: u16) AND of_nat s = 0"
  proof -
    have s: "take_bit 8 (of_nat s :: u16) = of_nat s"
      using assms(2) by (simp add: word_unat_eq_iff unat_take_bit_mod unat_of_nat del: take_bit_eq_mod)
    have "\<not> bit (of_nat s :: u16) i" if "8 \<le> i" for i
      using that by (subst s [symmetric]) (simp add: bit_take_bit_iff)
    then show ?thesis by (intro bit_word_eqI) (auto simp: bit_and_iff bit_push_bit_iff)
  qed
  ultimately show ?thesis
    unfolding huff_entry_def
    by (subst unat_or_disjoint) (use assms in \<open>simp_all add: unat_push_bit_mod del: push_bit_eq_mult\<close>)
qed

lemma huff_entry_facts:
  assumes "0 < n" "n < 128" "s < 256"
  shows "huff_entry n s AND SUB_TABLE = 0" "huff_entry n s \<noteq> 0"
    "unat (drop_bit 8 (huff_entry n s)) = n" "ucast (huff_entry n s) = (of_nat s :: u8)"
proof -
  note u = unat_huff_entry [OF assms(2,3)]
  have "\<not> bit (unat (huff_entry n s)) 15" using assms by (simp add: u bit_iff_odd)
  then have "\<not> bit (huff_entry n s) 15" by (simp add: bit_unsigned_iff)
  moreover have "SUB_TABLE = push_bit 15 1" by (simp add: SUB_TABLE_def)
  ultimately show "huff_entry n s AND SUB_TABLE = 0"
    by (metis and_exp_eq_0_iff_not_bit push_bit_of_1)
  show "huff_entry n s \<noteq> 0" using assms u by (metis add_is_0 mult_is_0 less_numeral_extra(3) unsigned_0 zero_neq_numeral)
  show "unat (drop_bit 8 (huff_entry n s)) = n"
    using assms u by (simp add: unat_drop_bit_div del: drop_bit_eq_div)
  show "ucast (huff_entry n s) = (of_nat s :: u8)"
    using assms by (simp add: word_unat_eq_iff unat_ucast_mod u unat_of_nat)
qed

definition sub_ptr :: "nat \<Rightarrow> u16" where
  "sub_ptr j = SUB_TABLE OR of_nat j"

lemma sub_ptr_facts:
  assumes "j < 2 ^ 15"
  shows "sub_ptr j AND SUB_TABLE \<noteq> 0" "unat (sub_ptr j AND NOT SUB_TABLE) = j"
proof -
  have st: "SUB_TABLE = push_bit 15 1" by (simp add: SUB_TABLE_def)
  have b: "bit SUB_TABLE i \<longleftrightarrow> i = 15" for i
    unfolding st by (auto simp only: bit_push_bit_iff bit_1_iff possible_bit_word) auto
  have "bit (sub_ptr j AND SUB_TABLE) 15" by (simp add: sub_ptr_def bit_simps b)
  then show "sub_ptr j AND SUB_TABLE \<noteq> 0" by (metis bit_0_eq bot_apply bot_bool_def)
  have u: "unat (of_nat j :: u16) = j" using assms by (simp add: unat_of_nat)
  then have "\<not> bit (unat (of_nat j :: u16)) 15" using assms by (simp add: bit_iff_odd)
  then have "\<not> bit (of_nat j :: u16) 15" by (simp add: bit_unsigned_iff)
  then have "sub_ptr j AND NOT SUB_TABLE = of_nat j"
    by (intro bit_word_eqI) (auto simp: sub_ptr_def bit_simps b)
  then show "unat (sub_ptr j AND NOT SUB_TABLE) = j" using u by simp
qed

lemma sub_ptr_inject: "i < 2 ^ 15 \<Longrightarrow> j < 2 ^ 15 \<Longrightarrow> sub_ptr i = sub_ptr j \<longleftrightarrow> i = j"
  using sub_ptr_facts(2) by metis

section \<open>What the tables answer\<close>

text \<open>
  \<open>short_entry k w\<close> is the entry that the first \<open>k\<close> symbols prescribe for a 16-bit window:
  the one of the symbol whose code is a prefix of the window, 0 if there is none.
  \<open>table_lookup\<close> is the two-level lookup.
\<close>

definition short_entry :: "nat \<Rightarrow> bool list \<Rightarrow> u16" where
  "short_entry k w =
     (case find (\<lambda>s. huff_len s \<le> 16 \<and> prefix (huff_code s) w) [0..<k] of
        Some s \<Rightarrow> huff_entry (huff_len s) s
      | None \<Rightarrow> 0)"

definition table_lookup :: "decode_tables \<Rightarrow> bool list \<Rightarrow> u16" where
  "table_lookup t w =
     (let e = root t ! bits_nat (take 11 w) in
      if e AND SUB_TABLE \<noteq> 0 then sub t ! unat (e AND NOT SUB_TABLE) ! bits_nat (drop 11 w) else e)"

definition tables_inv :: "nat \<Rightarrow> nat \<Rightarrow> decode_tables \<Rightarrow> bool" where
  "tables_inv m k t \<longleftrightarrow>
     length (root t) = 2 ^ 11 \<and> (\<forall>s \<in> set (sub t). length s = 2 ^ 5) \<and> length (sub t) \<le> m \<and>
     (\<forall>i < 2 ^ 11. root t ! i AND SUB_TABLE \<noteq> 0 \<longrightarrow> (\<exists>j < length (sub t). root t ! i = sub_ptr j)) \<and>
     (\<forall>i < 2 ^ 11. \<forall>i' < 2 ^ 11. root t ! i AND SUB_TABLE \<noteq> 0 \<longrightarrow> root t ! i = root t ! i' \<longrightarrow> i = i') \<and>
     (\<forall>w. length w = 16 \<longrightarrow> table_lookup t w = short_entry k w)"

lemma find_snoc: "find P (xs @ [y]) = (case find P xs of None \<Rightarrow> if P y then Some y else None | r \<Rightarrow> r)"
  by (induction xs) auto

lemma prefix_take_iff: "length c \<le> n \<Longrightarrow> prefix c (take n w) \<longleftrightarrow> prefix c w"
proof -
  assume n: "length c \<le> n"
  have "prefix c w \<longleftrightarrow> take (length c) w = c" for w :: "'a list"
    by (metis append_eq_conv_conj prefix_def take_is_prefix)
  then show ?thesis using n by (simp add: min_absorb1)
qed

lemma huff_len_EOS: "huff_len 256 = 30"
  by (simp add: HUFF_TABLE_def nth_append HUFF_TABLE_0_def HUFF_TABLE_1_def HUFF_TABLE_2_def
      HUFF_TABLE_3_def)

lemma short_entry_Suc:
  assumes "k < 257"
  shows "short_entry (Suc k) w =
    (if huff_len k \<le> 16 \<and> prefix (huff_code k) w then huff_entry (huff_len k) k
     else short_entry k w)"
proof (cases "huff_len k \<le> 16 \<and> prefix (huff_code k) w")
  case True
  let ?P = "\<lambda>s. huff_len s \<le> 16 \<and> prefix (huff_code s) w"
  have "t = k" if "t < Suc k" "?P t" for t
    using prefix_same_cases [of "huff_code t" w "huff_code k"] True that assms huff_prefix_free
    by (metis less_SucE less_trans)
  then have "find ?P [0..<Suc k] = Some k" using True by (intro find_upt_unique) auto
  then show ?thesis using True by (simp add: short_entry_def del: upt_Suc)
next
  case False
  then have "find (\<lambda>s. huff_len s \<le> 16 \<and> prefix (huff_code s) w) [0..<Suc k] =
      find (\<lambda>s. huff_len s \<le> 16 \<and> prefix (huff_code s) w) [0..<k]"
    by (auto simp: find_snoc split: option.splits)
  then show ?thesis unfolding short_entry_def using False by (simp only: if_False)
qed

lemma short_entry_None:
  assumes "\<And>s. s < k \<Longrightarrow> \<not> prefix (huff_code s) w"
  shows "short_entry k w = 0"
proof -
  have "find (\<lambda>s. huff_len s \<le> 16 \<and> prefix (huff_code s) w) [0..<k] = None"
    using assms by (simp add: find_upt_None_iff)
  then show ?thesis by (simp add: short_entry_def)
qed

text \<open>A short code: the slots of its left-aligned prefix.\<close>

lemma add_short:
  assumes "tables_inv m k t" "k < 256" "HUFF_TABLE ! k = (code, len)" "len \<le> 11"
  shows "tables_inv m (Suc k) (add_symbol (k, code, len) t)"
proof -
  let ?e = "huff_entry len k" and ?c = "huff_code k"
  let ?t = "add_symbol (k, code, len) t"
  have k: "k < 257" using assms(2) by simp
  have len: "length ?c = len" "5 \<le> len" using assms(3) table_bounds(1) [OF k] by auto
  have code: "unat code = bits_nat ?c" using bits_nat_huff_code [OF k] assms(3) by simp
  have ent: "?e AND SUB_TABLE = 0" using huff_entry_facts(1) assms(2,4) len by simp
  have room: "bits_nat ?c * 2 ^ (11 - len) + 2 ^ (11 - len) \<le> 2 ^ 11"
    using code_slots(1) [of ?c 11 "replicate 11 True"] assms(4) len(1) by simp
  have base: "unat (push_bit (11 - len) code) = bits_nat ?c * 2 ^ (11 - len)"
    using room unfolding unat_push_bit_mod code by (simp add: mod_less)
  have t: "?t = t\<lparr>root := fill_range (bits_nat ?c * 2 ^ (11 - len)) (2 ^ (11 - len)) ?e (root t)\<rparr>"
    using assms(2,4) base by (simp add: add_symbol_def ROOT_BITS_def del: push_bit_eq_mult)
  have l: "length (root t) = 2 ^ 11" using assms(1) by (simp add: tables_inv_def)
  have nth: "root ?t ! i = (if bits_nat ?c * 2 ^ (11 - len) \<le> i \<and>
      i < bits_nat ?c * 2 ^ (11 - len) + 2 ^ (11 - len) then ?e else root t ! i)"
    if "i < 2 ^ 11" for i
    unfolding t using that room l by (simp add: nth_fill_range)
  have lookup: "table_lookup ?t w = short_entry (Suc k) w" if w: "length w = 16" for w
  proof -
    let ?i = "bits_nat (take 11 w)"
    have i: "?i < 2 ^ 11" using bits_nat_less [of "take 11 w"] w by simp
    have pre: "prefix ?c w \<longleftrightarrow> bits_nat ?c * 2 ^ (11 - len) \<le> ?i \<and>
        ?i < bits_nat ?c * 2 ^ (11 - len) + 2 ^ (11 - len)"
    proof -
      have "prefix ?c w \<longleftrightarrow> prefix ?c (take 11 w)"
        using assms(4) len(1) by (simp add: prefix_take_iff)
      then show ?thesis using code_slots(2) [of ?c 11 "take 11 w"] assms(4) len(1) w by simp
    qed
    show ?thesis
    proof (cases "prefix ?c w")
      case True
      then have "root ?t ! ?i = ?e" using nth [OF i] pre by simp
      then show ?thesis using True assms(3,4) ent short_entry_Suc [OF k, of w]
        by (simp add: table_lookup_def)
    next
      case False
      then have "root ?t ! ?i = root t ! ?i" using nth [OF i] pre by auto
      moreover have "sub ?t = sub t" by (simp add: t)
      ultimately have "table_lookup ?t w = table_lookup t w" by (simp only: table_lookup_def)
      then show ?thesis using False assms(1) w short_entry_Suc [OF k, of w] by (simp add: tables_inv_def)
    qed
  qed
  have "sub ?t = sub t" "length (root ?t) = 2 ^ 11" by (simp_all add: t l)
  then show ?thesis
    using assms(1) ent nth lookup unfolding tables_inv_def by (auto split: if_splits)
qed

text \<open>A longer code: its sub-table is allocated first, which changes no answer.\<close>

lemma long_code_window:
  assumes "k < 257" "11 \<le> huff_len k"
  shows "\<exists>w. length w = 16 \<and> take 11 w = take 11 (huff_code k) \<and> (\<forall>s < k. \<not> prefix (huff_code s) w)"
proof (intro exI conjI allI impI notI)
  let ?w = "take 16 (huff_code k @ replicate 16 True)"
  show "length ?w = 16" by simp
  show "take 11 ?w = take 11 (huff_code k)" using assms(2) by (simp add: min_def)
  fix s assume s: "s < k" "prefix (huff_code s) ?w"
  have "prefix (huff_code s) (huff_code k @ replicate 16 True)"
    using s(2) by (rule prefix_order.trans [OF _ take_is_prefix])
  from prefix_same_cases [OF this prefixI [OF refl]] show False
    using huff_prefix_free [of s k] huff_prefix_free [of k s] s(1) assms(1) by auto
qed

definition alloc_sub :: "nat \<Rightarrow> decode_tables \<Rightarrow> decode_tables" where
  "alloc_sub i t =
     (if root t ! i AND SUB_TABLE = 0
      then t\<lparr>sub := sub t @ [replicate (2 ^ SUB_BITS) 0], root := (root t)[i := SUB_TABLE OR of_nat (length (sub t))]\<rparr>
      else t)"

lemma alloc_sub_inv:
  assumes "tables_inv m k t" "k < 257" "11 \<le> huff_len k" "m < 2 ^ 15 - 1"
    and i: "i = bits_nat (take 11 (huff_code k))"
  shows "tables_inv (Suc m) k (alloc_sub i t)"
    and "root (alloc_sub i t) ! i AND SUB_TABLE \<noteq> 0"
proof -
  note inv = assms(1) [unfolded tables_inv_def]
  have il: "i < 2 ^ 11" using bits_nat_less [of "take 11 (huff_code k)"] assms(3) by (simp add: i)
  let ?n = "length (sub t)"
  have n: "?n < 2 ^ 15" using inv assms(4) by simp
  show "root (alloc_sub i t) ! i AND SUB_TABLE \<noteq> 0"
    using sub_ptr_facts(1) [OF n] il inv by (auto simp: alloc_sub_def sub_ptr_def)
  show "tables_inv (Suc m) k (alloc_sub i t)"
  proof (cases "root t ! i AND SUB_TABLE = 0")
    case True
    obtain w where w: "length w = 16" "take 11 w = take 11 (huff_code k)" "\<forall>s < k. \<not> prefix (huff_code s) w"
      using long_code_window [OF assms(2,3)] by blast
    have "table_lookup t w = 0" using inv w short_entry_None [of k w] by simp
    then have zero: "root t ! i = 0" using True w(2) by (simp add: table_lookup_def i)
    let ?t = "t\<lparr>sub := sub t @ [replicate (2 ^ 5) 0], root := (root t)[i := sub_ptr ?n]\<rparr>"
    have t: "alloc_sub i t = ?t" using True by (simp add: alloc_sub_def sub_ptr_def SUB_BITS_def WIN_BITS_def ROOT_BITS_def)
    have nth: "root ?t ! j = (if j = i then sub_ptr ?n else root t ! j)" if "j < 2 ^ 11" for j
      using inv that by (simp add: nth_list_update)
    have old: "\<exists>j' < ?n. root t ! j = sub_ptr j'" if "j < 2 ^ 11" "root t ! j AND SUB_TABLE \<noteq> 0" for j
      using inv that by blast
    have fresh: "root t ! j \<noteq> sub_ptr ?n" if "j < 2 ^ 11" for j
      using old [OF that] sub_ptr_facts(1) [OF n] sub_ptr_inject n by (metis less_irrefl less_trans)
    have lookup: "table_lookup ?t v = table_lookup t v" if v: "length v = 16" for v
    proof -
      let ?i = "bits_nat (take 11 v)" and ?d = "bits_nat (drop 11 v)"
      have vi: "?i < 2 ^ 11" and vd: "?d < 2 ^ 5"
        using bits_nat_less [of "take 11 v"] bits_nat_less [of "drop 11 v"] v by simp_all
      show ?thesis
      proof (cases "?i = i")
        case True
        then have "table_lookup ?t v = (sub t @ [replicate (2 ^ 5) 0]) ! ?n ! ?d"
          using nth [OF vi] sub_ptr_facts [OF n] by (simp add: table_lookup_def)
        also have "\<dots> = 0" using vd by (simp only: nth_append_length nth_replicate)
        finally show ?thesis using True zero by (simp add: table_lookup_def)
      next
        case False
        then have r: "root ?t ! ?i = root t ! ?i" using nth [OF vi] by simp
        show ?thesis
        proof (cases "root t ! ?i AND SUB_TABLE = 0")
          case True
          then show ?thesis using r by (simp add: table_lookup_def)
        next
          case s: False
          then obtain j where j: "j < ?n" "root t ! ?i = sub_ptr j" using old [OF vi] by blast
          then have "sub ?t ! j = sub t ! j" by (simp add: nth_append)
          then show ?thesis using s j r sub_ptr_facts(2) [of j] n by (simp add: table_lookup_def)
        qed
      qed
    qed
    show ?thesis
      unfolding t tables_inv_def
    proof (intro conjI allI impI)
      show "\<exists>j' < length (sub ?t). root ?t ! j = sub_ptr j'"
        if "j < 2 ^ 11" "root ?t ! j AND SUB_TABLE \<noteq> 0" for j
        using old [OF that(1)] that(2) nth [OF that(1)] by (auto split: if_splits simp: less_Suc_eq)
      show "j = j'"
        if "j < 2 ^ 11" "j' < 2 ^ 11" "root ?t ! j AND SUB_TABLE \<noteq> 0" "root ?t ! j = root ?t ! j'" for j j'
        using that nth [OF that(1)] nth [OF that(2)] fresh inv by (metis (no_types, lifting))
    qed (use inv lookup in \<open>auto simp del: replicate.simps\<close>)
  next
    case False
    then have "alloc_sub i t = t" by (simp add: alloc_sub_def)
    then show ?thesis using inv unfolding tables_inv_def by (metis le_SucI)
  qed
qed

lemma prefix_split:
  assumes "n \<le> length c"
  shows "prefix c w \<longleftrightarrow> take n w = take n c \<and> prefix (drop n c) (drop n w)"
proof
  assume "take n w = take n c \<and> prefix (drop n c) (drop n w)"
  then obtain z where t: "take n w = take n c" and z: "drop n w = drop n c @ z" by (auto elim: prefixE)
  have "w = (take n c @ drop n c) @ z" by (metis append_assoc append_take_drop_id t z)
  then show "prefix c w" by (simp add: prefix_def)
qed (use assms in \<open>auto elim!: prefixE\<close>)

lemma nth_update_nth:
  assumes "j < length xss" "j' < length xss"
  shows "(xss[j := ys]) ! j' ! x = (if j' = j then ys ! x else xss ! j' ! x)"
  using assms by (simp add: nth_list_update)

lemma fill_sub_inv:
  assumes "tables_inv m k t" "k < 256" "m \<le> 2 ^ 15" "HUFF_TABLE ! k = (code, len)" "11 < len" "len \<le> 16"
    and i: "i = bits_nat (take 11 (huff_code k))" and j: "j < length (sub t)" "root t ! i = sub_ptr j"
  shows "tables_inv m (Suc k)
    (t\<lparr>sub := (sub t)[j := fill_range (bits_nat (drop 11 (huff_code k)) * 2 ^ (16 - len))
                                    (2 ^ (16 - len)) (huff_entry len k) (sub t ! j)]\<rparr>)"
    (is "tables_inv m (Suc k) ?t")
proof -
  note inv = assms(1) [unfolded tables_inv_def]
  let ?c = "drop 11 (huff_code k)"
  have len: "length (huff_code k) = len" "length ?c = len - 11" "16 - len = 5 - (len - 11)"
    using assms(4,5) by auto
  have il: "i < 2 ^ 11" using bits_nat_less [of "take 11 (huff_code k)"] assms(5) len by (simp add: i)
  have sj: "length (sub t ! j) = 2 ^ 5" using inv j(1) by (metis nth_mem)
  have jn: "j' < 2 ^ 15" if "j' < length (sub t)" for j' using that inv assms(3) by (meson dual_order.strict_trans1 order.trans)
  have room: "bits_nat ?c * 2 ^ (16 - len) + 2 ^ (16 - len) \<le> 2 ^ 5"
    unfolding len(3) using code_slots(1) [of ?c 5 "replicate 5 True"] assms(6) len(2) by simp
  have inj: "a = b"
    if "a < 2 ^ 11" "b < 2 ^ 11" "root t ! a AND SUB_TABLE \<noteq> 0" "root t ! a = root t ! b" for a b
    using inv that by blast
  have lookup: "table_lookup ?t w = short_entry (Suc k) w" if w: "length w = 16" for w
  proof -
    let ?i = "bits_nat (take 11 w)" and ?d = "bits_nat (drop 11 w)"
    have vi: "?i < 2 ^ 11" and vd: "?d < 2 ^ 5"
      using bits_nat_less [of "take 11 w"] bits_nat_less [of "drop 11 w"] w by simp_all
    have pre: "prefix (huff_code k) w \<longleftrightarrow> ?i = i \<and> bits_nat ?c * 2 ^ (16 - len) \<le> ?d \<and>
        ?d < bits_nat ?c * 2 ^ (16 - len) + 2 ^ (16 - len)"
    proof -
      have "prefix (huff_code k) w \<longleftrightarrow> take 11 w = take 11 (huff_code k) \<and> prefix ?c (drop 11 w)"
        using assms(5) len(1) by (intro prefix_split) simp
      moreover have "take 11 w = take 11 (huff_code k) \<longleftrightarrow> ?i = i"
        unfolding i using bits_nat_inject [of "take 11 w" "take 11 (huff_code k)"] assms(5) len(1) w by simp
      moreover have "length ?c \<le> 5" "length (drop 11 w) = 5" using assms(6) len(2) w by simp_all
      ultimately show ?thesis
        unfolding len(3) using code_slots(2) [of ?c 5 "drop 11 w"] by (simp only: len(2))
    qed
    have old: "table_lookup t w = short_entry k w" using inv w by blast
    show ?thesis
    proof (cases "root t ! ?i AND SUB_TABLE = 0")
      case True
      then have "?i \<noteq> i" using j sub_ptr_facts(1) [OF jn [OF j(1)]] by auto
      then show ?thesis using True old short_entry_Suc [of k w] assms(2) pre by (simp add: table_lookup_def)
    next
      case False
      then obtain j' where j': "j' < length (sub t)" "root t ! ?i = sub_ptr j'" using inv vi by blast
      have "j' = j \<longleftrightarrow> ?i = i"
        using inj [OF vi il False] j'(2) j(2) sub_ptr_inject [OF jn [OF j'(1)] jn [OF j(1)]] by auto
      then have "table_lookup ?t w = (if prefix (huff_code k) w then huff_entry len k else table_lookup t w)"
        using False j' sub_ptr_facts(2) [OF jn [OF j'(1)]] room sj vd pre
        by (auto simp: table_lookup_def nth_update_nth [OF j(1) j'(1)] nth_fill_range)
      then show ?thesis using old short_entry_Suc [of k w] assms(2,4,6) by simp
    qed
  qed
  have "\<forall>s \<in> set (sub ?t). length s = 2 ^ 5"
    using inv sj by (auto dest!: set_update_subset_insert [THEN subsetD])
  then show ?thesis using inv lookup unfolding tables_inv_def by auto
qed

lemma tables_inv_skip:
  assumes "tables_inv m k t" "k < 257" "16 < huff_len k"
  shows "tables_inv m (Suc k) t"
  using assms(1) short_entry_Suc [OF assms(2)] assms(3) unfolding tables_inv_def by auto

lemma code_high_low:
  assumes "k < 257" "HUFF_TABLE ! k = (code, len)" "11 < len"
  shows "unat (drop_bit (len - 11) code) = bits_nat (take 11 (huff_code k))"
    and "unat (code AND (push_bit (len - 11) 1 - 1)) = bits_nat (drop 11 (huff_code k))"
proof -
  let ?c = "huff_code k"
  have len: "length ?c = len" "len \<le> 30" using assms(2) table_bounds(2) [OF assms(1)] by auto
  have "bits_nat ?c = bits_nat (take 11 ?c) * 2 ^ (len - 11) + bits_nat (drop 11 ?c)"
    using bits_nat_append [of "take 11 ?c" "drop 11 ?c"] len by simp
  moreover have "bits_nat (drop 11 ?c) < 2 ^ (len - 11)" using bits_nat_less [of "drop 11 ?c"] len by simp
  moreover have "unat code = bits_nat ?c" using bits_nat_huff_code [OF assms(1)] assms(2) by simp
  ultimately have q: "unat code div 2 ^ (len - 11) = bits_nat (take 11 ?c)"
    and r: "unat code mod 2 ^ (len - 11) = bits_nat (drop 11 ?c)" by simp_all
  show "unat (drop_bit (len - 11) code) = bits_nat (take 11 ?c)" using q by (simp only: unat_drop_bit_div)
  have "code AND (push_bit (len - 11) 1 - 1) = take_bit (len - 11) code"
    by (simp only: take_bit_eq_mask mask_eq_exp_minus_1 push_bit_of_1)
  then show "unat (code AND (push_bit (len - 11) 1 - 1)) = bits_nat (drop 11 ?c)"
    using r by (simp only: unat_take_bit_mod)
qed

lemma add_symbol_long:
  assumes "k \<noteq> 256" "ROOT_BITS < len" "i = unat (drop_bit (len - ROOT_BITS) code)" "i < length (root t)"
  shows "add_symbol (k, code, len) t =
    (let a = alloc_sub i t; j = unat (root a ! i AND NOT SUB_TABLE) in
     if len \<le> WIN_BITS \<and> j < length (sub a)
     then a\<lparr>sub := (sub a)[j := fill_range (unat (code AND (push_bit (len - ROOT_BITS) 1 - 1)) * 2 ^ (WIN_BITS - len))
                                         (2 ^ (WIN_BITS - len)) (huff_entry len k) (sub a ! j)]\<rparr>
     else a)"
proof -
  have "\<not> len \<le> ROOT_BITS" "\<not> i \<ge> length (root t)" using assms by simp_all
  then show ?thesis
    unfolding add_symbol_def Let_def prod.case assms(3) [symmetric] alloc_sub_def [symmetric]
    using assms(1) by (simp only: if_False) simp
qed

lemma add_long:
  assumes "tables_inv k k t" "k < 256" "HUFF_TABLE ! k = (code, len)" "11 < len"
  shows "tables_inv (Suc k) (Suc k) (add_symbol (k, code, len) t)"
proof -
  let ?i = "bits_nat (take 11 (huff_code k))"
  let ?a = "alloc_sub ?i t"
  have k: "k < 257" using assms(2) by simp
  have len: "11 \<le> huff_len k" "length (huff_code k) = len" using assms(3,4) by auto
  have l: "length (root t) = 2 ^ 11" using assms(1) by (simp add: tables_inv_def)
  have il: "?i < 2 ^ 11" using bits_nat_less [of "take 11 (huff_code k)"] len by simp
  have a: "tables_inv (Suc k) k ?a" "root ?a ! ?i AND SUB_TABLE \<noteq> 0"
    using alloc_sub_inv [OF assms(1) k len(1) _ refl] assms(2) by simp_all
  then obtain j where j: "j < length (sub ?a)" "root ?a ! ?i = sub_ptr j"
    using il unfolding tables_inv_def by blast
  have "length (sub ?a) \<le> Suc k" using a(1) by (simp add: tables_inv_def)
  then have j15: "j < 2 ^ 15" using j(1) assms(2) by simp
  note hl = code_high_low [OF k assms(3,4)]
  have add: "add_symbol (k, code, len) t =
    (if len \<le> 16
     then ?a\<lparr>sub := (sub ?a)[j := fill_range (bits_nat (drop 11 (huff_code k)) * 2 ^ (16 - len))
                                          (2 ^ (16 - len)) (huff_entry len k) (sub ?a ! j)]\<rparr>
     else ?a)"
    using add_symbol_long [of k len ?i code t] assms(2,4) hl il l j sub_ptr_facts(2) [OF j15]
    by (simp only: ROOT_BITS_def WIN_BITS_def Let_def) simp
  show ?thesis
  proof (cases "len \<le> 16")
    case True
    then show ?thesis
      unfolding add using fill_sub_inv [OF a(1) assms(2) _ assms(3,4) True refl j] assms(2) by simp
  next
    case False
    then show ?thesis unfolding add using tables_inv_skip [OF a(1) k] assms(3) by simp
  qed
qed

lemma add_symbol_EOS: "add_symbol (256, code, len) t = t"
  by (simp add: add_symbol_def)

lemma tables_inv_mono: "tables_inv m k t \<Longrightarrow> m \<le> m' \<Longrightarrow> tables_inv m' k t"
  unfolding tables_inv_def by (meson order.trans)

lemma tables_inv_empty: "tables_inv 0 0 \<lparr>root = replicate (2 ^ 11) 0, sub = []\<rparr>"
proof -
  have "table_lookup \<lparr>root = replicate (2 ^ 11) 0, sub = []\<rparr> w = short_entry 0 w" if "length w = 16" for w
  proof -
    have "bits_nat (take 11 w) < 2 ^ 11" using bits_nat_less [of "take 11 w"] that by simp
    then have "replicate (2 ^ 11) (0 :: u16) ! bits_nat (take 11 w) = 0" by (rule nth_replicate)
    then show ?thesis by (simp only: table_lookup_def decode_tables.simps) (simp add: short_entry_def)
  qed
  then show ?thesis
    unfolding tables_inv_def decode_tables.simps length_replicate by (simp del: replicate.simps)
qed

lemma fold_tables_inv:
  "k \<le> 257 \<Longrightarrow>
   tables_inv k k (fold add_symbol (take k (enumerate 0 HUFF_TABLE)) \<lparr>root = replicate (2 ^ 11) 0, sub = []\<rparr>)"
proof (induction k)
  case 0
  show ?case using tables_inv_empty by simp
next
  case (Suc k)
  let ?t = "fold add_symbol (take k (enumerate 0 HUFF_TABLE)) \<lparr>root = replicate (2 ^ 11) 0, sub = []\<rparr>"
  obtain code len where c: "HUFF_TABLE ! k = (code, len)" by fastforce
  have "take (Suc k) (enumerate 0 HUFF_TABLE) = take k (enumerate 0 HUFF_TABLE) @ [(k, code, len)]"
    using Suc.prems c by (simp add: take_Suc_conv_app_nth length_HUFF_TABLE nth_enumerate_eq)
  then have step: "fold add_symbol (take (Suc k) (enumerate 0 HUFF_TABLE)) \<lparr>root = replicate (2 ^ 11) 0, sub = []\<rparr> =
      add_symbol (k, code, len) ?t" by (simp only: fold_append fold.simps comp_apply id_apply)
  have IH: "tables_inv k k ?t" using Suc by simp
  consider "k = 256" | "k < 256" "len \<le> 11" | "k < 256" "11 < len" using Suc.prems by linarith
  then show ?case
  proof cases
    case 1
    then have "add_symbol (k, code, len) ?t = ?t" by (simp only: add_symbol_EOS)
    then show ?thesis
      unfolding step using tables_inv_skip [OF tables_inv_mono [OF IH]] huff_len_EOS 1 by simp
  next
    case 2
    then show ?thesis unfolding step using tables_inv_mono [OF add_short [OF IH 2(1) c 2(2)]] by simp
  next
    case 3
    show ?thesis unfolding step by (rule add_long [OF IH 3(1) c 3(2)])
  qed
qed

lemma huff_tables_inv: "tables_inv 257 257 huff_tables"
proof -
  have "take 257 (enumerate 0 HUFF_TABLE) = enumerate 0 HUFF_TABLE"
    by (rule take_all) (simp add: length_HUFF_TABLE)
  then show ?thesis
    using fold_tables_inv [of 257] by (simp only: huff_tables_def ROOT_BITS_def order_refl)
qed

section \<open>Windows\<close>

definition window_bits :: "u64 \<Rightarrow> nat \<Rightarrow> nat \<Rightarrow> bool list" where
  "window_bits acc nbits width = take width (bits_of nbits acc @ replicate width True)"

lemma length_window_bits [simp]: "length (window_bits acc nbits width) = width"
  by (simp add: window_bits_def)

lemma take_bits_of: "n \<le> m \<Longrightarrow> take n (bits_of m w) = bits_of n (drop_bit (m - n) w)"
  using bits_of_add [of n "m - n" w] by simp

lemma unat_and_low: "unat (v AND (push_bit n 1 - 1)) = unat v mod 2 ^ n"
  for v :: "'a::len word"
proof -
  have "v AND (push_bit n 1 - 1) = take_bit n v"
    by (simp only: take_bit_eq_mask mask_eq_exp_minus_1 push_bit_of_1)
  then show ?thesis by (simp only: unat_take_bit_mod)
qed

lemma low_bits_nat:
  assumes "n \<le> LENGTH('a)"
  shows "unat ((v :: 'a::len word) AND (push_bit n 1 - 1)) = bits_nat (bits_of n v)"
  unfolding unat_and_low bits_nat_bits_of [OF assms] ..

lemma window_bits_nat:
  assumes "width \<le> 64" "nbits \<le> 64"
  shows "window acc nbits width = bits_nat (window_bits acc nbits width)"
proof (cases "width \<le> nbits")
  case True
  then have "window_bits acc nbits width = bits_of width (drop_bit (nbits - width) acc)"
    by (simp add: window_bits_def take_bits_of)
  then show ?thesis
    using True assms low_bits_nat [of width "drop_bit (nbits - width) acc"]
    by (simp add: window_def Let_def del: push_bit_of_1)
next
  case False
  let ?d = "width - nbits"
  have one: "push_bit ?d 1 - 1 = (mask ?d :: u64)"
    by (simp only: mask_eq_exp_minus_1 push_bit_of_1)
  have "bits_of (nbits + ?d) (push_bit ?d acc OR mask ?d) = bits_of nbits acc @ bits_of ?d (mask ?d :: u64)"
    using False assms by (intro bits_of_push_or) (simp_all add: take_bit_of_mask)
  then have "bits_of width (push_bit ?d acc OR mask ?d) = window_bits acc nbits width"
    using False assms by (simp add: window_bits_def bits_of_mask)
  then show ?thesis
    using False assms low_bits_nat [of width "push_bit ?d acc OR mask ?d"]
    by (simp only: window_def Let_def if_False one) simp
qed

lemma nat_and_low: "(x :: nat) AND (push_bit n 1 - 1) = x mod 2 ^ n"
  by (metis mask_eq_exp_minus_1 push_bit_of_1 take_bit_eq_mask take_bit_eq_mod)

lemma window_bits_take: "m \<le> n \<Longrightarrow> take m (window_bits acc nbits n) = window_bits acc nbits m"
  by (simp add: window_bits_def min_def)

lemma table_entry_lookup:
  assumes "nbits \<le> 64"
  shows "table_entry acc nbits = short_entry 257 (window_bits acc nbits 16)"
proof -
  let ?w = "window_bits acc nbits 16"
  note inv = huff_tables_inv [unfolded tables_inv_def]
  let ?i = "bits_nat (take 11 ?w)" and ?d = "bits_nat (drop 11 ?w)"
  have i: "?i < 2 ^ 11" and d: "?d < 2 ^ 5"
    using bits_nat_less [of "take 11 ?w"] bits_nat_less [of "drop 11 ?w"] by simp_all
  have r: "list_get (root huff_tables) (window acc nbits 11) = Some (root huff_tables ! ?i)"
    using inv i assms by (simp add: list_get_def window_bits_nat window_bits_take)
  have "bits_nat ?w = ?i * 2 ^ 5 + ?d" using bits_nat_append [of "take 11 ?w" "drop 11 ?w"] by simp
  then have w: "window acc nbits 16 AND (push_bit 5 1 - 1) = ?d"
    using d assms by (simp only: nat_and_low window_bits_nat) simp
  have "table_lookup huff_tables ?w = short_entry 257 ?w" using inv by simp
  moreover have "table_entry acc nbits = table_lookup huff_tables ?w"
  proof (cases "root huff_tables ! ?i AND SUB_TABLE = 0")
    case True
    then show ?thesis
      using r by (simp add: table_entry_def table_lookup_def ROOT_BITS_def)
  next
    case False
    then obtain j where j: "j < length (sub huff_tables)" "root huff_tables ! ?i = sub_ptr j"
      using inv i by blast
    have "length (sub huff_tables) \<le> 257" using inv by blast
    then have "unat (sub_ptr j AND NOT SUB_TABLE) = j" using j(1) by (intro sub_ptr_facts) simp
    moreover have "length (sub huff_tables ! j) = 2 ^ 5" using inv j(1) by (metis nth_mem)
    ultimately show ?thesis
      using False r w j d
      by (simp add: table_entry_def table_lookup_def ROOT_BITS_def WIN_BITS_def SUB_BITS_def list_get_def
          del: push_bit_of_1)
  qed
  ultimately show ?thesis by simp
qed

end
