(* ===== verification/Huffman_Decode.thy ===== *)
theory Huffman_Decode
  imports Huffman_Tables
begin

text \<open>
  Correctness of the Huffman decoder of \<open>hpack/huffman.rs\<close>: the search for the long codes, the
  refill of the accumulator and the decode loop, against the bit-by-bit reference decoder
  \<open>huff_spec\<close>; then the round trip with the encoder and its converse.
\<close>

section \<open>Long codes\<close>

definition long_group :: "nat \<Rightarrow> (nat \<times> u32 \<times> nat) list" where
  "long_group g = filter (\<lambda>(sy, code, len). len > WIN_BITS \<and> len - WIN_BITS - 1 = g) (enumerate 0 HUFF_TABLE)"

lemma long_table_nth:
  "g < 14 \<Longrightarrow> long_table ! g = sort_key fst (map (\<lambda>(sy, code, len). (code, sy)) (long_group g))"
  by (simp add: long_table_def long_group_def WIN_BITS_def del: upt_Suc)

lemma set_long_group:
  "set (long_group g) = {(sy, HUFF_TABLE ! sy) |sy. sy < 257 \<and> huff_len sy = g + 17}"
proof (rule set_eqI)
  fix p :: "nat \<times> u32 \<times> nat"
  obtain sy code len where p: "p = (sy, code, len)" by (metis prod_cases3)
  show "p \<in> set (long_group g) \<longleftrightarrow> p \<in> {(sy, HUFF_TABLE ! sy) |sy. sy < 257 \<and> huff_len sy = g + 17}"
    by (cases "HUFF_TABLE ! sy") (auto simp: p long_group_def WIN_BITS_def in_set_enumerate_eq length_HUFF_TABLE)
qed

lemma long_table_set:
  assumes "16 < len" "len \<le> 30"
  shows "(code, sy) \<in> set (long_table ! (len - WIN_BITS - 1)) \<longleftrightarrow> sy < 257 \<and> HUFF_TABLE ! sy = (code, len)"
proof -
  have g: "len - WIN_BITS - 1 < 14" "len - WIN_BITS - 1 + 17 = len" using assms by (auto simp: WIN_BITS_def)
  show ?thesis
    unfolding long_table_nth [OF g(1)] set_sort set_map set_long_group g(2) by (auto simp: image_iff split: prod.splits) (metis surj_pair)+
qed

lemma long_table_sorted:
  assumes "16 < len" "len \<le> 30"
  shows "sorted_wrt (\<lambda>x y. fst x < fst y) (long_table ! (len - WIN_BITS - 1))"
proof -
  define g where "g = len - WIN_BITS - 1"
  have g: "g < 14" "g + 17 = len" using assms by (auto simp: WIN_BITS_def g_def)
  let ?xs = "map (\<lambda>(sy, code, len). (code, sy)) (long_group g)"
  have "inj_on (fst \<circ> (\<lambda>(sy, code, len). (code, sy))) (set (long_group g))"
  proof (rule inj_onI)
    fix x y
    assume "x \<in> set (long_group g)" "y \<in> set (long_group g)"
      and eq: "(fst \<circ> (\<lambda>(sy, code, len). (code, sy))) x = (fst \<circ> (\<lambda>(sy, code, len). (code, sy))) y"
    then obtain s t where s: "x = (s, HUFF_TABLE ! s)" "s < 257" "huff_len s = g + 17"
      and t: "y = (t, HUFF_TABLE ! t)" "t < 257" "huff_len t = g + 17"
      unfolding set_long_group by blast
    then have "HUFF_TABLE ! s = HUFF_TABLE ! t" using eq by (auto simp: prod_eq_iff split: prod.splits)
    then have "s = t" using s t by (intro huff_code_inject) (simp_all add: huff_code_def)
    then show "x = y" using s t by simp
  qed
  moreover have "distinct (long_group g)" by (simp add: long_group_def distinct_enumerate)
  ultimately have "distinct (map fst ?xs)" 
    unfolding map_map by (simp only: distinct_map)
  then have "distinct (map fst (sort_key fst ?xs))" by (simp only: distinct_map distinct_sort set_sort)
  then have "sorted_wrt (<) (map fst (sort_key fst ?xs))" by (simp add: strict_sorted_iff)
  then show ?thesis unfolding g_def [symmetric] long_table_nth [OF g(1)] by (simp add: sorted_wrt_map)
qed

lemma long_search:
  fixes acc :: u64
  assumes "16 < len" "len \<le> 30" "len \<le> nbits" "nbits \<le> 64"
  defines "g \<equiv> long_table ! (len - WIN_BITS - 1)"
    and "code \<equiv> ucast (drop_bit (nbits - len) acc AND (push_bit len 1 - 1)) :: u32"
  shows "case binary_search_by_key fst code g of
      Some i \<Rightarrow> snd (g ! i) < 257 \<and> huff_code (snd (g ! i)) = take len (bits_of nbits acc)
    | None \<Rightarrow> \<forall>s < 257. huff_code s \<noteq> take len (bits_of nbits acc)"
proof -
  let ?b = "take len (bits_of nbits acc)"
  have b: "?b = bits_of len (drop_bit (nbits - len) acc)" using assms(3) by (rule take_bits_of)
  have code: "unat code = bits_nat ?b"
  proof -
    have "unat (drop_bit (nbits - len) acc AND (push_bit len 1 - 1)) = bits_nat ?b"
      unfolding b using assms(2) by (intro low_bits_nat) simp
    moreover have "bits_nat ?b < 2 ^ 32"
      using bits_nat_less [of ?b] power_increasing [of len 32 "2 :: nat"] assms(2,3)
      by (simp add: min_absorb2)
    ultimately show ?thesis by (simp add: code_def unat_ucast_mod)
  qed
  have key: "huff_code s = ?b \<longleftrightarrow> HUFF_TABLE ! s = (code, len)" if "s < 257" for s
  proof
    assume h: "huff_code s = ?b"
    then have "huff_len s = len" using assms(3) by (metis length_huff_code length_bits_of length_take min.absorb2)
    moreover have "fst (HUFF_TABLE ! s) = code"
      using h bits_nat_huff_code [OF that] code by (simp add: word_unat_eq_iff)
    ultimately show "HUFF_TABLE ! s = (code, len)" by (metis prod.collapse)
  next
    assume "HUFF_TABLE ! s = (code, len)"
    then show "huff_code s = ?b"
      using bits_nat_huff_code [OF that] code bits_nat_inject [of "huff_code s" ?b] assms(3) by simp
  qed
  note sorted = long_table_sorted [OF assms(1,2), folded g_def]
  note mem = long_table_set [OF assms(1,2), folded g_def]
  show ?thesis
  proof (cases "binary_search_by_key fst code g")
    case None
    have "(code, s) \<notin> set g" for s
      using binary_search_finds [OF sorted, of "(code, s)"] None by auto
    then show ?thesis using None mem key by auto
  next
    case (Some i)
    then have "(code, snd (g ! i)) \<in> set g"
      using binary_search_SomeD [OF Some] by (metis nth_mem prod.collapse)
    then show ?thesis using Some mem key by auto
  qed
qed

lemma take_eq_prefix: "length c = n \<Longrightarrow> n \<le> length w \<Longrightarrow> take n w = c \<longleftrightarrow> prefix c w"
  by (metis append_eq_conv_conj prefix_def take_is_prefix)

lemma decode_long_from_sound:
  assumes "decode_long_from lens acc nbits = Some (s, n)" "set lens \<subseteq> {17..30}" "nbits \<le> 64"
  shows "s < 257 \<and> prefix (huff_code s) (bits_of nbits acc) \<and> n = huff_len s"
  using assms
proof (induction lens)
  case (Cons len lens)
  have len: "16 < len" "len \<le> 30" "len \<le> nbits"
    using Cons.prems by (auto split: if_splits)
  note search = long_search [OF len Cons.prems(3), of acc]
  show ?case
  proof (cases "binary_search_by_key fst (ucast (drop_bit (nbits - len) acc AND (push_bit len 1 - 1)) :: u32)
      (long_table ! (len - WIN_BITS - 1))")
    case None
    then show ?thesis using Cons len by (simp add: Let_def del: push_bit_of_1)
  next
    case (Some i)
    then have "n = len" "s < 257" "huff_code s = take len (bits_of nbits acc)"
      using Cons.prems(1) len search by (auto simp: Let_def simp del: push_bit_of_1)
    then show ?thesis using len by (metis length_bits_of length_huff_code length_take min.absorb2 take_is_prefix)
  qed
qed simp

lemma decode_long_from_complete:
  assumes "s < 257" "prefix (huff_code s) (bits_of nbits acc)" "huff_len s \<in> set lens"
    and "set lens \<subseteq> {17..30}" "sorted lens" "nbits \<le> 64"
  shows "decode_long_from lens acc nbits \<noteq> None"
  using assms(3-5)
proof (induction lens)
  case (Cons len lens)
  have n: "huff_len s \<le> nbits" using prefix_length_le [OF assms(2)] by simp
  then have len: "16 < len" "len \<le> 30" "len \<le> nbits" using Cons.prems by auto
  note search = long_search [OF len assms(6), of acc]
  show ?case
  proof (cases "binary_search_by_key fst (ucast (drop_bit (nbits - len) acc AND (push_bit len 1 - 1)) :: u32)
      (long_table ! (len - WIN_BITS - 1))")
    case None
    then have "huff_len s \<noteq> len"
      using search assms(1,2) len take_eq_prefix [of "huff_code s" len "bits_of nbits acc"] by auto
    then show ?thesis using Cons len None by (simp add: Let_def del: push_bit_of_1)
  next
    case (Some i)
    then show ?thesis using len by (simp add: Let_def del: push_bit_of_1)
  qed
qed simp

lemma decode_long_match:
  assumes "nbits \<le> 64"
  shows "decode_long acc nbits =
    (case huff_match (bits_of nbits acc) of
       Some (s, n) \<Rightarrow> if 16 < n then Some (s, n) else None
     | None \<Rightarrow> None)"
proof -
  let ?lens = "[WIN_BITS + 1..<31]"
  have lens: "set ?lens = {17..30}" "sorted ?lens" 
    unfolding WIN_BITS_def set_upt by (auto simp del: upt_Suc upt_rec_numeral)
  have dl: "decode_long acc nbits = decode_long_from ?lens acc nbits" by (rule decode_long_def)
  show ?thesis
  proof (cases "decode_long acc nbits")
    case None
    have "\<not> 16 < n" if m: "huff_match (bits_of nbits acc) = Some (s, n)" for s n
    proof
      assume "16 < n"
      then have "huff_len s \<in> set ?lens" using huff_match_SomeD [OF m] lens by simp
      then show False
        using None decode_long_from_complete [OF huff_match_SomeD(1,3) [OF m], of ?lens] lens assms
        unfolding dl by (simp del: upt_Suc upt_rec_numeral)
    qed
    then show ?thesis using None by (auto split: option.splits)
  next
    case (Some p)
    obtain s n where p: "p = (s, n)" by fastforce
    have s: "s < 257" "prefix (huff_code s) (bits_of nbits acc)" "n = huff_len s"
      using decode_long_from_sound [of ?lens acc nbits s n] Some p lens(1) assms unfolding dl by (auto simp del: upt_Suc upt_rec_numeral)
    moreover have "16 < n" using decode_long_len [of acc nbits s n] Some p by (simp add: WIN_BITS_def)
    ultimately show ?thesis using huff_match_code [OF s(1,2)] Some p by simp
  qed
qed

section \<open>Refilling the accumulator\<close>

lemma refill_octets_spec:
  assumes "refill_octets data acc nbits = (acc', nbits', data')" "nbits \<le> 56"
  shows "nbits' \<le> 56 \<and> (48 < nbits' \<or> data' = []) \<and>
    bits_of nbits' acc' @ byte_bits data' = bits_of nbits acc @ byte_bits data"
  using assms
proof (induction data acc nbits rule: refill_octets.induct)
  case (2 b rest acc nbits)
  show ?case
  proof (cases "nbits \<le> 48")
    case True
    let ?b = "ucast b :: u64"
    have b: "take_bit 8 ?b = ?b" by (rule bit_word_eqI) (auto simp: bit_simps dest: bit_imp_le_length)
    have "bits_of (nbits + 8) (push_bit 8 acc OR ?b) = bits_of nbits acc @ bits_of 8 ?b"
      using True b by (intro bits_of_push_or) simp_all
    also have "bits_of 8 ?b = bits_of 8 b" by (rule bits_of_ucast) simp
    finally show ?thesis using "2.IH" [OF True] "2.prems" True by (simp del: push_bit_numeral)
  next
    case False
    then show ?thesis using "2.prems" by auto
  qed
qed auto

lemma refill_spec:
  assumes "refill data acc nbits = (acc', nbits', data')" "nbits \<le> 64"
  shows "nbits' \<le> 64 \<and> (32 \<le> nbits' \<or> data' = []) \<and>
    bits_of nbits' acc' @ byte_bits data' = bits_of nbits acc @ byte_bits data"
proof -
  consider (skip) "32 < nbits" | (word) a b c d rest where "nbits \<le> 32" "data = a # b # c # d # rest"
    | (octets) "nbits \<le> 32" "refill_octets data acc nbits = (acc', nbits', data')"
    using assms(1) by (auto simp: refill_def split: if_splits list.splits)
  then show ?thesis
  proof cases
    case skip
    then show ?thesis using assms by (auto simp: refill_def)
  next
    case word
    let ?w = "ucast (u32_of_be a b c d) :: u64"
    have w: "take_bit 32 ?w = ?w" by (rule bit_word_eqI) (auto simp: bit_simps dest: bit_imp_le_length)
    have "bits_of (nbits + 32) (push_bit 32 acc OR ?w) = bits_of nbits acc @ bits_of 32 ?w"
      using word(1) w by (intro bits_of_push_or) simp_all
    also have "bits_of 32 ?w = byte_bits [a, b, c, d]"
      by (subst bits_of_ucast) (simp_all only: bits_of_u32_of_be, simp)
    finally show ?thesis using assms(1) word by (auto simp: refill_def simp del: push_bit_numeral)
  next
    case octets
    then show ?thesis using refill_octets_spec [OF octets(2)] by auto
  qed
qed

section \<open>Matching in the window and in the input\<close>

lemma huff_match_append:
  assumes "30 \<le> length b \<or> d = []"
  shows "huff_match (b @ d) = huff_match b"
proof -
  have "prefix (huff_code s) (b @ d) \<longleftrightarrow> prefix (huff_code s) b" if "s < 257" for s
  proof (cases "d = []")
    case False
    then have "huff_len s \<le> length b" using assms table_bounds(2) [OF that] by simp
    then show ?thesis using prefix_take_iff [of "huff_code s" "length b" "b @ d"] by simp
  qed simp
  then have "find (\<lambda>s. prefix (huff_code s) (b @ d)) [0..<257] = find (\<lambda>s. prefix (huff_code s) b) [0..<257]"
    by (intro find_cong) (simp_all del: upt_rec_numeral)
  then show ?thesis by (simp only: huff_match_def)
qed

lemma table_entry_match:
  assumes "nbits \<le> 64"
  shows "table_entry acc nbits =
    (case huff_match (window_bits acc nbits 16) of Some (s, n) \<Rightarrow> huff_entry n s | None \<Rightarrow> 0)"
proof -
  let ?w = "window_bits acc nbits 16"
  have "huff_len s \<le> 16 \<and> prefix (huff_code s) ?w \<longleftrightarrow> prefix (huff_code s) ?w" for s
    using prefix_length_le [of "huff_code s" ?w] by auto
  then show ?thesis
    by (simp only: table_entry_lookup [OF assms] short_entry_def huff_match_def) (simp split: option.splits)
qed

lemma prefix_window:
  "length c \<le> 16 \<Longrightarrow>
   prefix c (window_bits acc nbits 16) \<longleftrightarrow> prefix c (bits_of nbits acc @ replicate 16 True)"
  unfolding window_bits_def by (rule prefix_take_iff)

lemma window_match_Some:
  assumes "huff_match (window_bits acc nbits 16) = Some (s, n)"
  shows "n \<le> 16" "s < 256" "0 < n"
    and "n \<le> nbits \<Longrightarrow> huff_match (bits_of nbits acc) = Some (s, n)"
    and "nbits < n \<Longrightarrow> huff_match (bits_of nbits acc) = None"
proof -
  note m = huff_match_SomeD [OF assms]
  show n: "n \<le> 16" "0 < n" using m(4,5) by simp_all
  show "s < 256" using m(1,2) n huff_len_EOS by (cases "s = 256") auto
  show "huff_match (bits_of nbits acc) = Some (s, n)" if "n \<le> nbits"
  proof -
    have "prefix (huff_code s) (bits_of nbits acc @ replicate 16 True)"
      using m(3) n m(2) by (simp only: prefix_window length_huff_code)
    then have "prefix (huff_code s) (bits_of nbits acc)"
      using prefix_take_iff [of "huff_code s" nbits "bits_of nbits acc @ replicate 16 True"] m(2) that by simp
    then show ?thesis using huff_match_code [OF m(1)] m(2) by simp
  qed
  show "huff_match (bits_of nbits acc) = None" if "nbits < n"
  proof (rule ccontr)
    assume "huff_match (bits_of nbits acc) \<noteq> None"
    then obtain s' n' where m': "huff_match (bits_of nbits acc) = Some (s', n')" by auto
    note d = huff_match_SomeD [OF m']
    have "prefix (huff_code s') (bits_of nbits acc @ replicate 16 True)" using d(3) by simp
    then have "prefix (huff_code s') (window_bits acc nbits 16)"
      using d(2,4) that n by (subst prefix_window) simp_all
    from huff_match_code [OF d(1) this] have "n' = n" using assms d(2) by simp
    then show False using d(4) that by simp
  qed
qed

lemma window_match_None:
  assumes "huff_match (window_bits acc nbits 16) = None"
    and "huff_match (bits_of nbits acc) = Some (s, n)"
  shows "16 < n" "16 < nbits"
proof -
  note m = huff_match_SomeD [OF assms(2)]
  have "\<not> prefix (huff_code s) (window_bits acc nbits 16)" using assms(1) m(1) huff_match_None_iff by blast
  moreover have "prefix (huff_code s) (bits_of nbits acc @ replicate 16 True)" using m(3) by simp
  ultimately show "16 < n" using m(2) prefix_window [of "huff_code s" acc nbits] by (metis length_huff_code not_less)
  then show "16 < nbits" using m(4) by simp
qed

section \<open>The decoder is the reference decoder\<close>

definition decode_finish :: "(bytes \<times> u64 \<times> nat) option \<Rightarrow> bytes option" where
  "decode_finish r =
     (case r of
        None \<Rightarrow> None
      | Some (out, acc, nbits) \<Rightarrow>
          if nbits \<le> 7 \<and> list_all (\<lambda>b. b) (bits_of nbits acc) then Some out else None)"

lemma list_all_True: "list_all (\<lambda>b. b) bs \<longleftrightarrow> bs = replicate (length bs) True"
  by (induction bs) auto

lemma pad_check:
  assumes "n \<le> 64"
  shows "(acc :: u64) AND (push_bit n 1 - 1) = push_bit n 1 - 1 \<longleftrightarrow> list_all (\<lambda>b. b) (bits_of n acc)"
proof -
  have m: "unat (push_bit n 1 - 1 :: u64) = 2 ^ n - 1"
    using unat_mask_le [of n, where 'a = 64] assms by (simp only: mask_eq_exp_minus_1 push_bit_of_1) simp
  have "acc AND (push_bit n 1 - 1) = push_bit n 1 - 1 \<longleftrightarrow> bits_nat (bits_of n acc) = 2 ^ n - 1"
    using low_bits_nat [of n acc] assms m by (simp only: word_unat_eq_iff) simp
  also have "\<dots> \<longleftrightarrow> bits_of n acc = replicate n True"
    using bits_nat_inject [of "bits_of n acc" "replicate n True"] by (simp add: bits_nat_replicate_True)
  also have "\<dots> \<longleftrightarrow> list_all (\<lambda>b. b) (bits_of n acc)"
    using list_all_True [of "bits_of n acc"] by simp
  finally show ?thesis .
qed

lemma decode_into_limited_finish:
  "decode_into_limited data limit = decode_finish (decode_loop data 0 0 [] limit)"
proof -
  have "(if nbits > 7 then None
         else if nbits > 0 \<and> acc AND (push_bit nbits 1 - 1) \<noteq> push_bit nbits 1 - 1 then None
         else Some out) =
        (if nbits \<le> 7 \<and> list_all (\<lambda>b. b) (bits_of nbits acc) then Some out else None)"
    for out :: bytes and acc :: u64 and nbits
    using pad_check [of nbits acc] by (cases "nbits \<le> 7"; cases "nbits = 0") (simp_all del: push_bit_of_1)
  then show ?thesis by (simp only: decode_into_limited_def decode_finish_def)
qed

lemma decode_loop_spec:
  assumes "nbits \<le> 64"
  shows "decode_finish (decode_loop data acc nbits out limit) =
    huff_spec (bits_of nbits acc @ byte_bits data) limit out"
  using assms
proof (induction "nbits + 8 * length data" arbitrary: data acc nbits out rule: less_induct)
  case less
  obtain acc1 n1 data1 where r: "refill data acc nbits = (acc1, n1, data1)" by (metis prod_cases3)
  note rs = refill_spec [OF r less.prems]
  let ?b = "bits_of n1 acc1" and ?r = "bits_of n1 acc1 @ byte_bits data1"
  have R: "bits_of nbits acc @ byte_bits data = ?r" using rs by simp
  have total: "n1 + 8 * length data1 = nbits + 8 * length data" by (rule refill_total [OF r])
  have match: "huff_match ?r = huff_match ?b" using rs by (intro huff_match_append) auto
  have short: "data1 = []" if "n1 < 32" using rs that by auto
  let ?w = "window_bits acc1 n1 16"
  note e = table_entry_match [of n1 acc1]
  have stop: "decode_finish (Some (out, acc1, n1)) = huff_spec ?r limit out"
    if "huff_match ?b = None" "n1 < 32"
    using that match short by (subst huff_spec.simps) (simp add: decode_finish_def)
  have rec: "decode_finish (decode_loop data1 acc1 (n1 - n) out' limit) = huff_spec (drop n ?r) limit out'"
    if "0 < n" "n \<le> n1" for n out'
  proof -
    have "drop n ?r = bits_of (n1 - n) acc1 @ byte_bits data1"
      using that bits_of_add [of n "n1 - n" acc1] by simp
    moreover have "n1 - n + 8 * length data1 < nbits + 8 * length data" "n1 - n \<le> 64"
      using total that rs by linarith+
    ultimately show ?thesis using less.hyps [of "n1 - n" data1 acc1 out'] by simp
  qed
  show ?case
  proof (cases "n1 = 0")
    case True
    then have "huff_match ?b = None" using huff_match_shrinks [of ?b] by (cases "huff_match ?b") auto
    then show ?thesis using stop True by (subst decode_loop.simps) (simp add: r R)
  next
    case n1: False
    show ?thesis
    proof (cases "huff_match ?w")
      case (Some p)
      obtain s n where p: "p = (s, n)" by fastforce
      note w = window_match_Some [OF Some [unfolded p]]
      note ent = huff_entry_facts [OF w(3) _ w(2)]
      have te: "table_entry acc1 n1 = huff_entry n s" using e rs Some p by simp
      have len: "unat (drop_bit 8 (table_entry acc1 n1)) = n" using ent(3) w(1) te by simp
      show ?thesis
      proof (cases "n \<le> n1")
        case True
        have "decode_loop data acc nbits out limit =
          (if length out = limit then None else decode_loop data1 acc1 (n1 - n) (out @ [of_nat s]) limit)"
          using n1 True w(3) len te ent(4) w(1)
          by (subst decode_loop.simps) (simp only: r Let_def prod.case, simp)
        moreover have "huff_match ?r = Some (s, n)" using match w(4) [OF True] by simp
        ultimately show ?thesis
          using rec [OF w(3) True] w(2) unfolding R
          by (subst huff_spec.simps) (simp add: decode_finish_def)
      next
        case False
        have "decode_loop data acc nbits out limit = Some (out, acc1, n1)"
          using n1 False w(3) len by (subst decode_loop.simps) (simp only: r Let_def prod.case, simp)
        then show ?thesis using stop w(1,5) False unfolding R by simp
      qed
    next
      case None
      have te: "unat (drop_bit 8 (table_entry acc1 n1)) = 0" using e rs None by simp
      show ?thesis
      proof (cases "n1 < 16")
        case True
        have "decode_loop data acc nbits out limit = Some (out, acc1, n1)"
          using n1 True te by (subst decode_loop.simps) (simp only: r Let_def prod.case, simp add: WIN_BITS_def)
        moreover have "huff_match ?b = None"
          using window_match_None [OF None] True by (cases "huff_match ?b") auto
        ultimately show ?thesis using stop True unfolding R by simp
      next
        case False
        have dl: "decode_long acc1 n1 = huff_match ?b"
          using decode_long_match [of n1 acc1] rs window_match_None [OF None]
          by (auto split: option.splits)
        have step: "decode_loop data acc nbits out limit =
          (case huff_match ?b of None \<Rightarrow> None
           | Some (s, n) \<Rightarrow> if s = 256 then None else if length out = limit then None
                            else decode_loop data1 acc1 (n1 - n) (out @ [of_nat s]) limit)"
          using n1 False te unfolding dl [symmetric]
          by (subst decode_loop.simps) (simp only: r Let_def prod.case, simp add: WIN_BITS_def)
        show ?thesis
        proof (cases "huff_match ?b")
          case None
          then show ?thesis
            using step False match unfolding R by (subst huff_spec.simps) (simp add: decode_finish_def)
        next
          case (Some p)
          obtain s n where p: "p = (s, n)" by fastforce
          have "0 < n" "n \<le> n1" using huff_match_shrinks [of ?b s n] Some p by auto
          then show ?thesis
            using step Some p match rec unfolding R by (subst huff_spec.simps) (simp add: decode_finish_def)
        qed
      qed
    qed
  qed
qed

lemma decode_into_limited_spec: "decode_into_limited data limit = huff_spec (byte_bits data) limit []"
  unfolding decode_into_limited_finish using decode_loop_spec [of 0 data 0 "[]" limit] by simp

section \<open>Round trip\<close>

lemma huff_code_EOS: "huff_code 256 = replicate 30 True"
proof -
  have "HUFF_TABLE ! 256 = (mask 30, 30)"
    by (simp add: HUFF_TABLE_def nth_append HUFF_TABLE_0_def HUFF_TABLE_1_def HUFF_TABLE_2_def
        HUFF_TABLE_3_def mask_eq_exp_minus_1)
  then show ?thesis by (simp only: huff_code_def prod.case) (rule bits_of_mask, simp)
qed

lemma huff_match_padding: "p < 8 \<Longrightarrow> huff_match (replicate p True) = None"
proof (rule ccontr)
  assume p: "p < 8" and "huff_match (replicate p True) \<noteq> None"
  then obtain s n where m: "huff_match (replicate p True) = Some (s, n)" by auto
  have "prefix (replicate p True) (huff_code 256)"
    unfolding huff_code_EOS using p replicate_add [of p "30 - p" True] by (simp add: prefix_def)
  then have "prefix (huff_code s) (huff_code 256)"
    using huff_match_SomeD(3) [OF m] prefix_order.trans by blast
  then have "s = 256" using huff_match_SomeD(1) [OF m] by (intro huff_prefix_free) simp_all
  then show False using huff_match_SomeD(2,4) [OF m] huff_len_EOS p by simp
qed

lemma huff_spec_encoded:
  assumes "p < 8" "length out \<le> limit"
  shows "huff_spec (data_bits xs @ replicate p True) limit out =
    (if length out + length xs \<le> limit then Some (out @ xs) else None)"
  using assms(2)
proof (induction xs arbitrary: out)
  case Nil
  then show ?case
    using assms(1) huff_match_padding
    by (subst huff_spec.simps) (simp add: list_all_length)
next
  case (Cons b xs)
  let ?rest = "data_bits xs @ replicate p True"
  have m: "huff_match (data_bits (b # xs) @ replicate p True) = Some (unat b, huff_len (unat b))"
    using unat_u8_symbol [of b] by (intro huff_match_code) simp_all
  have "huff_spec (data_bits (b # xs) @ replicate p True) limit out =
    (if length out = limit then None else huff_spec ?rest limit (out @ [b]))"
    using unat_u8_lt [of b] by (subst huff_spec.simps) (simp only: m, simp)
  then show ?case using Cons by simp
qed

lemma huff_spec_SomeD:
  assumes "huff_spec bs limit out = Some r"
  shows "\<exists>xs p. p < 8 \<and> bs = data_bits xs @ replicate p True \<and> r = out @ xs"
  using assms
proof (induction bs limit out rule: huff_spec.induct)
  case (1 bs limit out)
  show ?case
  proof (cases "huff_match bs")
    case None
    then have "length bs \<le> 7" "list_all (\<lambda>b. b) bs" "r = out"
      using "1.prems" by (simp_all add: huff_spec.simps [of bs] split: if_splits)
    then show ?thesis using list_all_True [of bs] by (intro exI [of _ "[]"] exI [of _ "length bs"]) simp
  next
    case (Some q)
    obtain s n where q: "q = (s, n)" by fastforce
    note m = huff_match_SomeD [OF Some [unfolded q]]
    have c: "\<not> (s = 256 \<or> length out = limit)"
      and rec: "huff_spec (drop n bs) limit (out @ [of_nat s]) = Some r"
      using "1.prems" Some q by (simp_all add: huff_spec.simps [of bs] split: if_splits)
    obtain xs p where IH: "p < 8" "drop n bs = data_bits xs @ replicate p True" "r = (out @ [of_nat s]) @ xs"
      using "1.IH" [OF Some q [symmetric] c rec] by blast
    have s: "unat (of_nat s :: u8) = s" using c m(1) by (simp add: unat_of_nat)
    obtain ys where ys: "bs = huff_code s @ ys" using m(3) by (auto elim: prefixE)
    then have "bs = data_bits (of_nat s # xs) @ replicate p True" using IH(2) m(2) s by simp
    then show ?thesis using IH by (intro exI [of _ "of_nat s # xs"] exI [of _ p]) simp
  qed
qed

lemma decode_limited_encoded:
  assumes "encodes w xs"
  shows "decode_limited w limit = (if length xs \<le> limit then Some xs else None)"
proof -
  obtain p where p: "p < 8" "byte_bits w = data_bits xs @ replicate p True"
    using assms by (auto simp: encodes_def)
  show ?thesis
    using huff_spec_encoded [OF p(1), of "[]" limit xs]
    by (simp add: decode_limited_def decode_into_limited_spec p(2))
qed

lemma decode_limited_encodes:
  assumes "decode_limited data limit = Some xs"
  shows "encodes data xs"
  using huff_spec_SomeD [of "byte_bits data" limit "[]" xs] assms
  by (auto simp: decode_limited_def decode_into_limited_spec encodes_def)

lemma decode_limited_iff:
  "decode_limited data limit = Some xs \<longleftrightarrow> data = huff_encode [] xs \<and> length xs \<le> limit"
  using decode_limited_encodes [of data limit xs] decode_limited_encoded [OF huff_encode_encodes, of xs limit]
    encodes_unique [OF _ huff_encode_encodes] by (auto split: if_splits)

lemma length_decode_limited: "decode_limited data limit = Some xs \<Longrightarrow> length xs \<le> limit"
  by (simp add: decode_limited_iff)

section \<open>Properties\<close>

text \<open>
  C11. The table-driven decoder (root table, sub-tables, binary search for the long codes, word-wise
  refill) computes exactly what the bit-by-bit reference decoder of the code computes, on every
  input and for every output limit, errors included: an EOS symbol, padding of more than seven bits
  or with a 0-bit, and more output than the limit are refused.
\<close>

theorem huff_decode_reference: "decode_limited data limit = huff_spec (byte_bits data) limit []"
  by (simp add: decode_limited_def decode_into_limited_spec)

text \<open>
  C12. Huffman decoding inverts encoding and accepts nothing else: an input decodes to \<open>xs\<close> exactly
  when it is the encoding of \<open>xs\<close>, and \<open>xs\<close> is within the limit. There are no two encodings of
  one string, and no encoding of two strings.
\<close>

theorem huff_decode_iff:
  "decode_limited data limit = Some xs \<longleftrightarrow> data = huff_encode [] xs \<and> length xs \<le> limit"
  by (rule decode_limited_iff)

text \<open>
  C17. The encoder's result does not depend on the length it is given: for a wrong length the word-wise
  writer reports the mismatch and the octet-wise fallback appends the same octets, exactly
  \<open>encoded_len\<close> of them.
\<close>

theorem encode_sized_any_length:
  "encode_sized out data n = out @ huff_encode [] data \<and>
   length (huff_encode [] data) = encoded_len data"
  by (simp add: encode_sized_eq length_huff_encode)

end
