(* ===== verification/Hpack_Integer.thy ===== *)
theory Hpack_Integer
  imports HJ_Prelude
begin

text \<open>
  HPACK integers (RFC 7541 section 5.1), \<open>crates/hj-h2/src/hpack/integer.rs\<close>: the prefix-coded
  integer encoder and decoder on 64-bit words. The encoder appends to the caller's buffer; the
  decoder reads \<open>buf\<close> from \<open>pos\<close> and returns the value with the new position. \<open>None\<close> is the
  source's \<open>None\<close>; the position after a failure is not part of the result, since every caller
  gives the block up.
\<close>

section \<open>Encoder and decoder\<close>

function int_encode_tail :: "bytes \<Rightarrow> u64 \<Rightarrow> bytes" where
  "int_encode_tail out v =
     (if v \<ge> 128 then int_encode_tail (out @ [(ucast v AND 0x7f) OR 0x80]) (drop_bit 7 v)
      else out @ [ucast v])"
  by pat_completeness auto
termination
proof (relation "measure (\<lambda>(out, v). unat v)", goal_cases)
  case (2 out v)
  then have "128 \<le> unat v" by (simp add: word_le_nat_alt)
  then show ?case by (simp add: unat_drop_bit_div)
qed simp

declare int_encode_tail.simps [simp del]

definition int_encode :: "bytes \<Rightarrow> u64 \<Rightarrow> nat \<Rightarrow> u8 \<Rightarrow> bytes" where
  "int_encode out value prefix_bits flag =
     (let max = push_bit prefix_bits 1 - 1 in
      if value < max then out @ [flag OR ucast value]
      else int_encode_tail (out @ [flag OR ucast max]) (value - max))"

function int_decode_tail :: "bytes \<Rightarrow> nat \<Rightarrow> u64 \<Rightarrow> nat \<Rightarrow> (u64 \<times> nat) option" where
  "int_decode_tail buf pos value shift =
     (case list_get buf pos of
        None \<Rightarrow> None
      | Some b \<Rightarrow>
          if shift > 56 \<and> b AND 0x7f \<noteq> 0 then None
          else (case checked_add64 value (push_bit shift (ucast (b AND 0x7f))) of
                  None \<Rightarrow> None
                | Some value' \<Rightarrow>
                    if b AND 0x80 = 0 then Some (value', pos + 1)
                    else if shift + 7 > 56 then None
                    else int_decode_tail buf (pos + 1) value' (shift + 7)))"
  by pat_completeness auto
termination
  by (relation "measure (\<lambda>(buf, pos, value, shift). 64 - shift)") auto

declare int_decode_tail.simps [simp del]

definition int_decode :: "bytes \<Rightarrow> nat \<Rightarrow> nat \<Rightarrow> (u64 \<times> nat) option" where
  "int_decode buf pos prefix_bits =
     (let max = push_bit prefix_bits 1 - 1 in
      case list_get buf pos of
        None \<Rightarrow> None
      | Some b \<Rightarrow>
          let first = ucast b AND max in
          if first < max then Some (first, pos + 1)
          else int_decode_tail buf (pos + 1) max 0)"

section \<open>The encoder appends\<close>

lemma int_encode_tail_append: "int_encode_tail out v = out @ int_encode_tail [] v"
proof (induction "unat v" arbitrary: out v rule: less_induct)
  case less
  show ?case
  proof (cases "v \<ge> 128")
    case True
    then have "unat (drop_bit 7 v) < unat v"
      by (simp add: unat_drop_bit_div word_le_nat_alt)
    note IH = less.hyps [OF this]
    let ?b = "(ucast v AND 0x7f) OR 0x80 :: u8"
    have "int_encode_tail out v = (out @ [?b]) @ int_encode_tail [] (drop_bit 7 v)"
      using True IH [of "out @ [?b]"] by (simp add: int_encode_tail.simps [of out v])
    moreover have "int_encode_tail [] v = [?b] @ int_encode_tail [] (drop_bit 7 v)"
      using True IH [of "[?b]"] by (simp add: int_encode_tail.simps [of "[]" v])
    ultimately show ?thesis by simp
  next
    case False
    then show ?thesis by (simp add: int_encode_tail.simps [of _ v])
  qed
qed

lemma int_encode_tail_rec:
  "int_encode_tail [] v =
     (if v \<ge> 128 then ((ucast v AND 0x7f) OR 0x80) # int_encode_tail [] (drop_bit 7 v)
      else [ucast v])"
  using int_encode_tail_append [of "[(ucast v AND 0x7f) OR 0x80]" "drop_bit 7 v"]
  by (simp add: int_encode_tail.simps [of "[]" v])

lemma int_encode_append: "int_encode out v n flag = out @ int_encode [] v n flag"
  by (simp add: int_encode_def Let_def int_encode_tail_append [of "out @ [_]"]
      int_encode_tail_append [of "[_]"])

lemma int_encode_nonempty: "int_encode [] v n flag \<noteq> []"
  by (simp add: int_encode_def Let_def int_encode_tail_append [of "[_]"])

section \<open>Round trip\<close>

text \<open>
  The value accumulated from one octet: \<open>checked_add\<close> succeeds as long as the sum stays below
  \<open>2 ^ 64\<close>, and the payload of a seven-bit group is its value times \<open>2 ^ shift\<close>.
\<close>

lemma octet_contribution:
  assumes "shift \<le> 56"
  shows "unat (push_bit shift (ucast ((b :: u8) AND 0x7f)) :: u64) = unat b mod 128 * 2 ^ shift"
proof -
  have "(2 :: nat) ^ shift \<le> 2 ^ 56" using assms by (intro power_increasing) auto
  moreover have "unat b mod 128 \<le> 127" by (simp add: less_Suc_eq_le [symmetric])
  ultimately have "unat b mod 128 * 2 ^ shift \<le> 127 * 2 ^ 56" by (intro mult_le_mono)
  then have "unat b mod 128 * 2 ^ shift < 2 ^ 64" by simp
  then show ?thesis by (simp add: unat_push_bit_mod unat_ucast_mod unat_and_7f_u8)
qed

lemma int_decode_tail_step:
  assumes "list_get buf pos = Some b" and "shift \<le> 56"
    and "unat val + unat b mod 128 * 2 ^ shift < 2 ^ 64"
  shows "int_decode_tail buf pos val shift =
    (let val' = val + push_bit shift (ucast (b AND 0x7f)) in
     if unat b < 128 then Some (val', pos + 1)
     else if shift + 7 > 56 then None else int_decode_tail buf (pos + 1) val' (shift + 7))"
  using assms
  by (simp add: int_decode_tail.simps [of buf pos] checked_add64_def octet_contribution
      and_80_eq_0_iff)

lemma int_tail_roundtrip:
  assumes "unat v < 2 ^ (63 - shift)" "shift \<le> 56" "7 dvd shift"
    and "unat val + unat v * 2 ^ shift < 2 ^ 64"
  shows "\<exists>r. int_decode_tail (pre @ int_encode_tail [] v @ rest) (length pre) val shift =
       Some (r, length pre + length (int_encode_tail [] v)) \<and>
     unat r = unat val + unat v * 2 ^ shift"
  using assms
proof (induction "unat v" arbitrary: v pre val shift rule: less_induct)
  case less
  let ?buf = "pre @ int_encode_tail [] v @ rest"
  show ?case
  proof (cases "v \<ge> 128")
    case True
    define b :: u8 where "b = (ucast v AND 0x7f) OR 0x80"
    define w where "w = drop_bit 7 v"
    have v128: "128 \<le> unat v" using True by (simp add: word_le_nat_alt)
    have w: "unat w = unat v div 128" by (simp add: w_def unat_drop_bit_div)
    have b: "unat b = unat v mod 128 + 128" by (simp add: b_def unat_or_80 unat_ucast_mod mod_mod_cancel)
    have enc: "int_encode_tail [] v = b # int_encode_tail [] w"
      using True by (simp add: int_encode_tail_rec [of v] b_def w_def)
    have "(2 :: nat) ^ 7 < 2 ^ (63 - shift)" using v128 less.prems(1) by simp
    then have "7 < 63 - shift" by (rule power_less_imp_less_exp [rotated]) simp
    then have shift: "shift + 7 \<le> 56" using less.prems(3) by presburger
    have split: "unat v = unat w * 128 + unat v mod 128" by (simp add: w)
    have "unat v * 2 ^ shift = unat w * 2 ^ (shift + 7) + unat v mod 128 * 2 ^ shift"
      by (subst split) (simp add: algebra_simps power_add)
    note total = this
    define val' where "val' = val + push_bit shift (ucast (b AND 0x7f))"
    have val': "unat val' = unat val + unat v mod 128 * 2 ^ shift"
      using less.prems(2,4) total
      by (simp add: val'_def unat_plus_if' octet_contribution b)
    have "63 - shift = (63 - (shift + 7)) + 7" using shift by simp
    then have "(2 :: nat) ^ (63 - shift) = 2 ^ (63 - (shift + 7)) * 2 ^ 7"
      by (simp only: power_add)
    then have "(2 :: nat) ^ (63 - shift) = 2 ^ (63 - (shift + 7)) * 128" by simp
    then have "unat w < 2 ^ (63 - (shift + 7))"
      using less.prems(1) by (simp add: w less_mult_imp_div_less)
    moreover have "unat val' + unat w * 2 ^ (shift + 7) < 2 ^ 64"
      using less.prems(4) total val' by simp
    ultimately obtain r where
      r: "int_decode_tail ((pre @ [b]) @ int_encode_tail [] w @ rest) (length (pre @ [b])) val' (shift + 7)
          = Some (r, length (pre @ [b]) + length (int_encode_tail [] w))"
      and ur: "unat r = unat val' + unat w * 2 ^ (shift + 7)"
      using less.hyps [of w "shift + 7" val' "pre @ [b]"] v128 shift less.prems(3) w by auto
    have "int_decode_tail ?buf (length pre) val shift =
        int_decode_tail ?buf (length pre + 1) val' (shift + 7)"
      using less.prems(2,4) shift total
      by (subst int_decode_tail_step [of _ _ b]) (auto simp: enc slice_simps b val'_def)
    then show ?thesis
      using r ur total val' by (auto simp: enc)
  next
    case False
    define b :: u8 where "b = ucast v"
    have v128: "unat v < 128" using False by (simp add: word_le_nat_alt)
    have b: "unat b = unat v" using v128 by (simp add: b_def unat_ucast_mod)
    have enc: "int_encode_tail [] v = [b]"
      using False by (simp add: int_encode_tail_rec [of v] b_def)
    have "int_decode_tail ?buf (length pre) val shift =
        Some (val + push_bit shift (ucast (b AND 0x7f)), length pre + 1)"
      using less.prems(2,4) v128
      by (subst int_decode_tail_step [of _ _ b]) (auto simp: enc slice_simps b)
    moreover have "unat (val + push_bit shift (ucast (b AND 0x7f))) = unat val + unat v * 2 ^ shift"
      using less.prems(2,4) v128 by (simp add: unat_plus_if' octet_contribution b)
    ultimately show ?thesis by (auto simp: enc)
  qed
qed

text \<open>
  Beyond 63 value bits the encoder needs a tenth continuation octet, which the decoder refuses.
\<close>

lemma int_decode_tail_cont:
  assumes "list_get buf pos = Some b" "128 \<le> unat b" "shift \<le> 56"
  shows "int_decode_tail buf pos val shift = None \<or>
    (shift + 7 \<le> 56 \<and>
     (\<exists>val'. int_decode_tail buf pos val shift = int_decode_tail buf (pos + 1) val' (shift + 7)))"
  using assms
  by (auto simp: int_decode_tail.simps [of buf pos] and_80_eq_0_iff split: option.splits)

lemma int_tail_overlong:
  assumes "2 ^ (63 - shift) \<le> unat v" "shift \<le> 56" "7 dvd shift"
  shows "int_decode_tail (pre @ int_encode_tail [] v @ rest) (length pre) val shift = None"
  using assms
proof (induction "unat v" arbitrary: v pre val shift rule: less_induct)
  case less
  let ?buf = "pre @ int_encode_tail [] v @ rest"
  define b :: u8 where "b = (ucast v AND 0x7f) OR 0x80"
  define w where "w = drop_bit 7 v"
  have "(2 :: nat) ^ 7 \<le> 2 ^ (63 - shift)" using less.prems(2) by (intro power_increasing) auto
  then have v128: "128 \<le> unat v" using less.prems(1) by simp
  then have enc: "int_encode_tail [] v = b # int_encode_tail [] w"
    by (simp add: int_encode_tail_rec [of v] b_def w_def word_le_nat_alt)
  have w: "unat w = unat v div 128" by (simp add: w_def unat_drop_bit_div)
  have "128 \<le> unat b" by (simp add: b_def unat_or_80)
  moreover have "list_get ?buf (length pre) = Some b" by (simp add: enc slice_simps)
  ultimately consider "int_decode_tail ?buf (length pre) val shift = None"
    | val' where "shift + 7 \<le> 56"
      "int_decode_tail ?buf (length pre) val shift = int_decode_tail ?buf (length pre + 1) val' (shift + 7)"
    using int_decode_tail_cont [of ?buf "length pre" b shift val] less.prems(2) by metis
  then show ?case
  proof cases
    case 1
    then show ?thesis .
  next
    case (2 val')
    then have "63 - shift = (63 - (shift + 7)) + 7" by simp
    then have "(2 :: nat) ^ (63 - shift) = 2 ^ (63 - (shift + 7)) * 2 ^ 7"
      by (simp only: power_add)
    then have "2 ^ (63 - (shift + 7)) \<le> unat w"
      using less.prems(1) by (simp add: w less_eq_div_iff_mult_less_eq)
    then have "int_decode_tail ((pre @ [b]) @ int_encode_tail [] w @ rest) (length (pre @ [b])) val' (shift + 7) = None"
      using less.hyps [of w "shift + 7" "pre @ [b]" val'] v128 w 2(1) less.prems(3) by auto
    then show ?thesis using 2(2) by (simp add: enc)
  qed
qed

text \<open>The prefix maximum \<open>(1 << prefix_bits) - 1\<close> is the word \<open>mask n\<close>.\<close>

lemma int_encode_mask:
  "int_encode out v n flag =
     (if v < mask n then out @ [flag OR ucast v]
      else out @ [flag OR ucast (mask n :: u64)] @ int_encode_tail [] (v - mask n))"
  using int_encode_tail_append [of "out @ [flag OR ucast (mask n :: u64)]"]
  by (simp add: int_encode_def Let_def mask_eq_exp_minus_1)

lemma int_decode_mask:
  "int_decode buf pos n =
     (case list_get buf pos of
        None \<Rightarrow> None
      | Some b \<Rightarrow>
          if ucast b AND mask n < (mask n :: u64) then Some (ucast b AND mask n, pos + 1)
          else int_decode_tail buf (pos + 1) (mask n) 0)"
  by (simp add: int_decode_def Let_def mask_eq_exp_minus_1 split: option.splits)

text \<open>The first octet: the representation flag above the prefix, the value below it.\<close>

lemma first_octet:
  assumes "n \<le> 8" "take_bit n flag = 0" "unat (v :: u64) < 2 ^ n"
  shows "ucast (flag OR ucast v :: u8) AND (mask n :: u64) = v"
proof -
  have v: "take_bit n v = v"
    using assms(3) by (metis take_bit_nat_eq_self_iff unsigned_take_bit_eq word_unat_eq_iff)
  have "ucast (flag OR ucast v :: u8) AND (mask n :: u64) = take_bit n (ucast (flag OR ucast v))"
    by (metis take_bit_eq_mask)
  also have "\<dots> = ucast (take_bit n flag OR ucast (take_bit n v))"
    using assms(1) by (auto simp: bit_eq_iff bit_simps)
  also have "\<dots> = take_bit n v"
    using assms(1) by (auto simp: assms(2) bit_eq_iff bit_simps simp del: take_bit_eq_mod)
  finally show ?thesis by (simp only: v)
qed

lemma int_decode_encode:
  assumes "1 \<le> n" "n \<le> 8" "take_bit n flag = 0"
  shows "int_decode (pre @ int_encode [] v n flag @ rest) (length pre) n =
    (if unat v < 2 ^ 63 + 2 ^ n - 1
     then Some (v, length pre + length (int_encode [] v n flag)) else None)"
proof -
  let ?m = "mask n :: u64"
  let ?buf = "pre @ int_encode [] v n flag @ rest"
  have m: "unat ?m = 2 ^ n - 1" using assms(2) by (simp add: unat_mask_le)
  have n2: "2 \<le> (2 :: nat) ^ n" using assms(1) by (cases n) auto
  show ?thesis
  proof (cases "v < ?m")
    case True
    then have "unat v < 2 ^ n - 1" by (simp add: word_less_nat_alt m)
    moreover from this have "ucast (flag OR ucast v :: u8) AND ?m = v"
      using assms by (intro first_octet) auto
    ultimately show ?thesis
      using True by (simp add: int_encode_mask int_decode_mask slice_simps)
  next
    case False
    define b :: u8 where "b = flag OR ucast ?m"
    have b: "ucast b AND ?m = ?m"
      unfolding b_def using assms n2 by (intro first_octet) (auto simp: m)
    have vm: "unat (v - ?m) = unat v - (2 ^ n - 1)"
      using False by (simp add: unat_sub m not_less)
    have ge: "2 ^ n - 1 \<le> unat v" using False by (simp add: word_less_nat_alt m)
    have enc: "int_encode [] v n flag = b # int_encode_tail [] (v - ?m)"
      using False by (simp add: int_encode_mask b_def)
    have dec: "int_decode ?buf (length pre) n = int_decode_tail ?buf (length (pre @ [b])) ?m 0"
      by (simp add: int_decode_mask enc slice_simps b)
    have buf: "?buf = (pre @ [b]) @ int_encode_tail [] (v - ?m) @ rest" by (simp add: enc)
    show ?thesis
    proof (cases "unat v < 2 ^ 63 + 2 ^ n - 1")
      case True
      then have "unat (v - ?m) < 2 ^ (63 - 0)" using vm ge n2 by simp
      moreover have "unat ?m + unat (v - ?m) * 2 ^ 0 < 2 ^ 64"
        using vm ge unat_u64_lt [of v] by (simp add: m)
      ultimately obtain r where "int_decode_tail ?buf (length (pre @ [b])) ?m 0 =
          Some (r, length (pre @ [b]) + length (int_encode_tail [] (v - ?m)))"
        and "unat r = unat ?m + unat (v - ?m) * 2 ^ 0"
        using int_tail_roundtrip [of "v - ?m" 0 ?m "pre @ [b]" rest] unfolding buf by auto
      moreover from this(2) have "r = v" using vm ge m by (simp add: word_unat_eq_iff)
      ultimately show ?thesis using True dec enc by simp
    next
      case False
      then have "2 ^ (63 - 0) \<le> unat (v - ?m)" using vm by simp
      then have "int_decode_tail ?buf (length (pre @ [b])) ?m 0 = None"
        unfolding buf by (intro int_tail_overlong) auto
      then show ?thesis using False dec by simp
    qed
  qed
qed

section \<open>Bounds on what the decoder accepts\<close>

lemma int_decode_tail_bounds:
  assumes "int_decode_tail buf pos val shift = Some (r, p)" "shift \<le> 56" "7 dvd shift"
  shows "pos < p \<and> p \<le> length buf \<and> p \<le> pos + (63 - shift) div 7 \<and>
    unat r + 2 ^ shift \<le> unat val + 2 ^ 63"
  using assms
proof (induction buf pos val shift rule: int_decode_tail.induct)
  case (1 buf pos val shift)
  obtain b where b: "list_get buf pos = Some b"
    using "1.prems"(1) by (auto simp: int_decode_tail.simps [of buf pos] split: option.splits)
  let ?c = "push_bit shift (ucast (b AND 0x7f)) :: u64"
  obtain val' where val': "checked_add64 val ?c = Some val'"
    using "1.prems"(1,2) b
    by (auto simp: int_decode_tail.simps [of buf pos] split: option.splits if_splits)
  define x where "x = unat b mod 128 * 2 ^ shift"
  have "unat val' = unat val + x"
    using unat_checked_add64 [OF val'] octet_contribution [OF "1.prems"(2), of b] by (simp add: x_def)
  moreover have "x \<le> 127 * 2 ^ shift"
    unfolding x_def by (intro mult_le_mono1) (simp add: less_Suc_eq_le [symmetric])
  ultimately have v': "unat val' \<le> unat val + 127 * 2 ^ shift" by simp
  have len: "pos < length buf" using b by (auto dest: list_get_SomeD)
  show ?case
  proof (cases "b AND 0x80 = 0")
    case True
    then have "p = pos + 1" "r = val'"
      using "1.prems"(1,2) b val' by (auto simp: int_decode_tail.simps [of buf pos])
    moreover have "(2 :: nat) ^ shift \<le> 2 ^ 56"
      using "1.prems"(2) by (intro power_increasing) auto
    moreover have "1 \<le> (63 - shift) div 7" using "1.prems"(2) by simp
    ultimately show ?thesis using len v' by auto
  next
    case False
    then have s: "shift + 7 \<le> 56"
      and rec: "int_decode_tail buf (pos + 1) val' (shift + 7) = Some (r, p)"
      using "1.prems"(1,2) b val' by (auto simp: int_decode_tail.simps [of buf pos] split: if_splits)
    have "pos + 1 < p \<and> p \<le> length buf \<and> p \<le> pos + 1 + (63 - (shift + 7)) div 7 \<and>
        unat r + 2 ^ (shift + 7) \<le> unat val' + 2 ^ 63"
      using "1.IH" [OF b _ val' False _ rec s] "1.prems"(2,3) s by simp
    moreover have "(63 - shift) div 7 = 1 + (63 - (shift + 7)) div 7" using s by simp
    moreover have "(2 :: nat) ^ (shift + 7) = 128 * 2 ^ shift" by (simp add: power_add)
    ultimately show ?thesis using v' by auto
  qed
qed

lemma int_decode_bounds:
  assumes "int_decode buf pos n = Some (v, p)" "1 \<le> n" "n \<le> 8"
  shows "pos < p \<and> p \<le> length buf \<and> p \<le> pos + 10 \<and> unat v < 2 ^ 63 + 2 ^ n - 1"
proof -
  obtain b where b: "list_get buf pos = Some b"
    using assms(1) by (auto simp: int_decode_mask split: option.splits)
  have m: "unat (mask n :: u64) = 2 ^ n - 1" using assms(3) by (simp add: unat_mask_le)
  have n2: "2 \<le> (2 :: nat) ^ n" using assms(2) by (cases n) auto
  have len: "pos < length buf" using b by (auto dest: list_get_SomeD)
  show ?thesis
  proof (cases "ucast b AND mask n < (mask n :: u64)")
    case True
    then have "p = pos + 1" "unat v < 2 ^ n - 1"
      using assms(1) b m by (auto simp: int_decode_mask word_less_nat_alt)
    then show ?thesis using len by simp
  next
    case False
    then have "int_decode_tail buf (pos + 1) (mask n) 0 = Some (v, p)"
      using assms(1) b by (simp add: int_decode_mask)
    from int_decode_tail_bounds [OF this] show ?thesis using m n2 by auto
  qed
qed

lemma length_int_encode:
  assumes "1 \<le> n" "n \<le> 8" "take_bit n flag = 0" "unat v < 2 ^ 63 + 2 ^ n - 1"
  shows "length (int_encode [] v n flag) \<le> 10"
proof -
  have "int_decode (int_encode [] v n flag) 0 n = Some (v, length (int_encode [] v n flag))"
    using int_decode_encode [OF assms(1-3), of "[]" v "[]"] assms(4) by simp
  from int_decode_bounds [OF this assms(1,2)] show ?thesis by simp
qed

section \<open>Properties\<close>

text \<open>
  C19. Round trip of HPACK integers. Whatever the caller's buffer holds before and after, decoding
  what the encoder wrote yields the value and stops right after it; the values that the decoder's
  continuation limit excludes (those of \<open>2^63 + 2^n - 1\<close> and above) are refused, never misread.
\<close>

theorem int_roundtrip:
  assumes "1 \<le> n" "n \<le> 8" "take_bit n flag = 0"
  shows "int_decode (int_encode pre v n flag @ rest) (length pre) n =
    (if unat v < 2 ^ 63 + 2 ^ n - 1
     then Some (v, length (int_encode pre v n flag)) else None)"
  using int_decode_encode [OF assms, of pre v rest] by (simp add: int_encode_append [of pre])

theorem int_roundtrip_witness:
  "int_decode (int_encode [7] 1337 5 0x20 @ [9]) (length [7 :: u8]) 5 =
    Some (1337, length (int_encode [7] 1337 5 0x20))"
proof -
  have "take_bit 5 (0x20 :: u8) = 0" by code_simp
  from int_roundtrip [OF _ _ this, of "[7]" 1337 "[9]"] show ?thesis by simp
qed

text \<open>
  C20. The integer decoder always makes progress, never reads past the buffer, consumes at most ten
  octets, and never returns a value of \<open>2^63 + 2^n - 1\<close> or more.
\<close>

theorem int_decode_safe:
  assumes "int_decode buf pos n = Some (v, p)" "1 \<le> n" "n \<le> 8"
  shows "pos < p \<and> p \<le> length buf \<and> p \<le> pos + 10 \<and> unat v < 2 ^ 63 + 2 ^ n - 1"
  by (rule int_decode_bounds [OF assms])

theorem int_decode_safe_witness:
  "int_decode [0x1f, 0x9a, 0x0a] 0 5 = Some (1337, 3) \<and>
   (0 :: nat) < 3 \<and> (3 :: nat) \<le> length [0x1f, 0x9a, 0x0a :: u8] \<and> (3 :: nat) \<le> 0 + 10 \<and>
   unat (1337 :: u64) < 2 ^ 63 + 2 ^ 5 - 1"
proof -
  have d: "int_decode [0x1f, 0x9a, 0x0a] 0 5 = Some (1337, 3)"
    by (simp add: int_decode_mask list_get_def int_decode_tail.simps checked_add64_def
        mask_eq_exp_minus_1)
  from int_decode_safe [OF d] d show ?thesis by simp
qed

end
