(* ===== verification/Hpack_Strings.thy ===== *)
theory Hpack_Strings
  imports Huffman_Decode Hpack_Integer Hpack_Static
begin

text \<open>
  HPACK string literals (RFC 7541 section 5.2), the first part of \<open>crates/hj-h2/src/hpack/mod.rs\<close>:
  the literal encoder with its memo of long literals, and the literal decoder. The memo is shown to
  be transparent (it never changes the octets written) and decoding to invert encoding.
\<close>

section \<open>Error values\<close>

datatype hpack_error = Truncated | BadIndex | BadString | InvalidSizeUpdate | HeaderListTooLarge

section \<open>Encoding string literals\<close>

definition LONG_LITERAL_MIN :: nat where "LONG_LITERAL_MIN = 257"
definition LONG_LITERAL_SLOTS :: nat where "LONG_LITERAL_SLOTS = 8"

text \<open>
  The thread-local memo of long literals: the slot that is written next, and the slots with the raw
  octets and their encoded form. The source borrows it for the duration of one call and never
  re-enters it, so it is passed along as a value.
\<close>

type_synonym literal_memo = "nat \<times> (bytes \<times> bytes) list"

definition encode_string_literal :: "bytes \<Rightarrow> bytes \<Rightarrow> bytes" where
  "encode_string_literal out raw =
     (let hlen = encoded_len raw in
      if hlen < length raw
      then encode_sized (int_encode out (of_nat hlen) 7 0x80) raw hlen
      else int_encode out (of_nat (length raw)) 7 0x00 @ raw)"

definition encode_string_bytes :: "bytes \<Rightarrow> bytes \<Rightarrow> literal_memo \<Rightarrow> bytes \<times> literal_memo" where
  "encode_string_bytes out raw memo =
     (if length raw < LONG_LITERAL_MIN then (encode_string_literal out raw, memo)
      else
        (let (nxt, slots) = memo in
         case find (\<lambda>(key, _). key = raw) slots of
           Some (_, encoded) \<Rightarrow> (out @ encoded, memo)
         | None \<Rightarrow>
             let start = length out; out' = encode_string_literal out raw in
             (case slice_get out' start (length out') of
                None \<Rightarrow> (out', memo)
              | Some encoded \<Rightarrow>
                  let entry = (raw, encoded);
                      slots' = (if nxt < length slots then slots[nxt := entry] else slots @ [entry])
                  in (out', ((nxt + 1) mod LONG_LITERAL_SLOTS, slots')))))"

definition value_is_secret :: "bytes \<Rightarrow> bool" where
  "value_is_secret name \<longleftrightarrow>
     name \<in> {str_bytes ''authorization'', str_bytes ''cookie'', str_bytes ''proxy-authorization'',
              str_bytes ''set-cookie''}"

section \<open>Decoding string literals\<close>

text \<open>
  \<open>decode_string\<close> and \<open>decode_string_into\<close> differ only in where the decoded octets live (a fresh
  buffer or the caller's scratch space); both return the octets and the new position.
\<close>

definition decode_string :: "bytes \<Rightarrow> nat \<Rightarrow> hpack_error + bytes \<times> nat" where
  "decode_string buf pos =
     (case list_get buf pos of
        None \<Rightarrow> Inl Truncated
      | Some b \<Rightarrow>
          (case int_decode buf pos 7 of
             None \<Rightarrow> Inl Truncated
           | Some (len, pos) \<Rightarrow>
               if pos + unat len > usize_max then Inl Truncated
               else
                 (case slice_get buf pos (pos + unat len) of
                    None \<Rightarrow> Inl Truncated
                  | Some octets \<Rightarrow>
                      if b AND 0x80 \<noteq> 0 then
                        (case huff_decode octets of
                           None \<Rightarrow> Inl BadString
                         | Some decoded \<Rightarrow> Inr (decoded, pos + unat len))
                      else Inr (octets, pos + unat len))))"

section \<open>The memo is transparent\<close>

lemma encode_string_literal_append: "encode_string_literal out raw = out @ encode_string_literal [] raw"
  using encode_sized_eq [of _ raw "encoded_len raw"]
  by (simp add: encode_string_literal_def Let_def int_encode_append [of out])

definition memo_ok :: "literal_memo \<Rightarrow> bool" where
  "memo_ok memo \<longleftrightarrow>
     (\<forall>(key, encoded) \<in> set (snd memo). encoded = encode_string_literal [] key) \<and>
     length (snd memo) \<le> LONG_LITERAL_SLOTS \<and>
     (if length (snd memo) = LONG_LITERAL_SLOTS then fst memo < LONG_LITERAL_SLOTS
      else fst memo = length (snd memo))"

definition memo_empty :: literal_memo where
  "memo_empty = (0, [])"

lemma memo_ok_empty: "memo_ok memo_empty"
  by (simp add: memo_ok_def memo_empty_def LONG_LITERAL_SLOTS_def)

lemma encode_string_bytes_spec:
  assumes "memo_ok memo" "encode_string_bytes out raw memo = (out', memo')"
  shows "out' = out @ encode_string_literal [] raw" "memo_ok memo'"
    and "set (map fst (snd memo')) \<subseteq> set (map fst (snd memo)) \<union> {raw}"
    and "length raw < LONG_LITERAL_MIN \<Longrightarrow> memo' = memo"
proof -
  obtain nxt slots where m: "memo = (nxt, slots)" by fastforce
  let ?e = "encode_string_literal [] raw"
  have "out' = out @ ?e \<and> memo_ok memo' \<and>
      set (map fst (snd memo')) \<subseteq> set (map fst (snd memo)) \<union> {raw} \<and>
      (length raw < LONG_LITERAL_MIN \<longrightarrow> memo' = memo)"
  proof (cases "length raw < LONG_LITERAL_MIN")
    case True
    then show ?thesis
      using assms encode_string_literal_append [of out raw] by (auto simp: encode_string_bytes_def)
  next
    case long: False
    show ?thesis
    proof (cases "find (\<lambda>(key, _). key = raw) slots")
      case None
      have lit: "encode_string_literal out raw = out @ ?e" by (rule encode_string_literal_append)
      have "slice_get (out @ ?e) (length out) (length (out @ ?e)) = Some ?e"
        using slice_get_append [of out ?e "[]"] by simp
      then have r: "out' = out @ ?e" "memo' = ((nxt + 1) mod LONG_LITERAL_SLOTS,
          if nxt < length slots then slots[nxt := (raw, ?e)] else slots @ [(raw, ?e)])"
        using assms(2) long None lit by (auto simp: encode_string_bytes_def m Let_def)
      have "memo_ok memo'"
        using assms(1) set_update_subset_insert [of slots nxt "(raw, ?e)"]
        by (auto simp: memo_ok_def m r(2) LONG_LITERAL_SLOTS_def split: if_splits)
      moreover have "set (map fst (snd memo')) \<subseteq> set (map fst (snd memo)) \<union> {raw}"
        using set_update_subset_insert [of slots nxt "(raw, ?e)"] by (auto simp: r(2) m)
      ultimately show ?thesis using r(1) long by simp
    next
      case (Some p)
      then have "(raw, snd p) \<in> set slots" by (auto simp: find_Some_iff) (metis nth_mem)
      then have "snd p = ?e" using assms(1) by (auto simp: memo_ok_def m)
      then show ?thesis
        using assms long Some by (auto simp: encode_string_bytes_def m case_prod_beta)
    qed
  qed
  then show "out' = out @ ?e" "memo_ok memo'"
    "set (map fst (snd memo')) \<subseteq> set (map fst (snd memo)) \<union> {raw}"
    "length raw < LONG_LITERAL_MIN \<Longrightarrow> memo' = memo" by simp_all
qed

section \<open>Round trip of string literals\<close>

lemma huff_decode_encode: "length raw \<le> usize_max \<Longrightarrow> huff_decode (huff_encode [] raw) = Some raw"
  by (simp add: huff_decode_def decode_limited_iff)


lemma int_encode_hd:
  assumes "1 \<le> n" "n \<le> 8"
  shows "\<exists>b bs. int_encode [] v n flag = b # bs \<and> (\<forall>i \<ge> n. bit b i = bit flag i)"
proof -
  have m: "\<not> bit (ucast (mask n :: u64) :: u8) i" if "n \<le> i" for i
    using that by (simp add: bit_simps)
  show ?thesis
  proof (cases "v < mask n")
    case True
    then have "unat v < 2 ^ n" using unat_mask_le [of n, where 'a = 64] assms(2) by (simp add: word_less_nat_alt)
    then have v: "take_bit n v = v" by (simp add: word_unat_eq_iff unat_take_bit_mod del: take_bit_eq_mod)
    have "\<not> bit (ucast v :: u8) i" if "n \<le> i" for i
      using that by (subst v [symmetric]) (simp add: bit_simps)
    then show ?thesis using True by (auto simp: int_encode_mask bit_or_iff)
  next
    case False
    then show ?thesis
      using m by (auto simp: int_encode_mask int_encode_tail_append [of "[_]"] bit_or_iff)
  qed
qed

lemma octet_flag_bits:
  "(b :: u8) AND 0x80 = 0 \<longleftrightarrow> \<not> bit b 7" "b AND 0x40 = 0 \<longleftrightarrow> \<not> bit b 6" "b AND 0x20 = 0 \<longleftrightarrow> \<not> bit b 5"
  using and_exp_eq_0_iff_not_bit [of b 7] and_exp_eq_0_iff_not_bit [of b 6] and_exp_eq_0_iff_not_bit [of b 5]
  by simp_all

lemma decode_string_literal:
  assumes "length raw < 2 ^ 63" "length (pre @ encode_string_literal [] raw @ rest) \<le> usize_max"
  shows "decode_string (pre @ encode_string_literal [] raw @ rest) (length pre) =
    Inr (raw, length pre + length (encode_string_literal [] raw))"
proof -
  have go: "decode_string (pre @ (int_encode [] (of_nat n) 7 flag @ body) @ rest) (length pre) =
      Inr (raw, length pre + length (int_encode [] (of_nat n) 7 flag @ body))"
    if n: "n < 2 ^ 63" "length body = n" and flag: "flag = 0x80 \<and> huff_decode body = Some raw \<or> flag = 0 \<and> body = raw"
      and l: "length (pre @ (int_encode [] (of_nat n) 7 flag @ body) @ rest) \<le> usize_max" for n flag body
  proof -
    let ?i = "int_encode [] (of_nat n) 7 flag"
    have un: "unat (of_nat n :: u64) = n" using n(1) by (simp add: unat_of_nat)
    have tb: "take_bit 7 flag = 0" using flag by (auto simp: take_bit_eq_0_iff)
    have i: "int_decode (pre @ (?i @ body) @ rest) (length pre) 7 = Some (of_nat n, length pre + length ?i)"
      using int_decode_encode [of 7 flag pre "of_nat n" "body @ rest"] tb un n(1) by simp
    obtain b bs where b: "?i = b # bs" "bit b 7 = bit flag 7" using int_encode_hd [of 7 "of_nat n" flag] by auto
    have g: "list_get (pre @ (?i @ body) @ rest) (length pre) = Some b" by (simp add: b(1) slice_simps)
    have s: "slice_get (pre @ (?i @ body) @ rest) (length pre + length ?i) (length pre + length ?i + n) = Some body"
      using slice_get_append [of "pre @ ?i" body rest] n(2) by simp
    have h: "b AND 0x80 \<noteq> 0 \<longleftrightarrow> flag = 0x80" using b(2) flag by (auto simp: octet_flag_bits bit_simps)
    show ?thesis
      using l flag n(2) by (simp only: decode_string_def g i s option.case prod.case un h) auto
  qed
  show ?thesis
  proof (cases "encoded_len raw < length raw")
    case True
    then have e: "encode_string_literal [] raw = int_encode [] (of_nat (encoded_len raw)) 7 0x80 @ huff_encode [] raw"
      by (simp add: encode_string_literal_def encode_sized_eq)
    show ?thesis
      using True assms go [of "encoded_len raw" "huff_encode [] raw" "0x80"] huff_decode_encode [of raw]
      unfolding e by (simp add: length_huff_encode usize_max_def)
  next
    case False
    then have e: "encode_string_literal [] raw = int_encode [] (of_nat (length raw)) 7 0 @ raw"
      by (simp add: encode_string_literal_def)
    show ?thesis using assms go [of "length raw" raw 0] unfolding e by simp
  qed
qed

lemma decode_string_bounds:
  assumes "decode_string buf pos = Inr (s, p)"
  shows "pos < p \<and> p \<le> length buf"
proof -
  obtain b len q where i: "int_decode buf pos 7 = Some (len, q)" and p: "p = q + unat len"
    "slice_get buf q (q + unat len) \<noteq> None"
    using assms by (auto simp: decode_string_def split: option.splits if_splits)
  show ?thesis using int_decode_bounds [OF i] p by (auto simp: slice_get_def split: if_splits)
qed

section \<open>Properties\<close>

text \<open>
  C16. Round trip of string literals. Whatever the memo of long literals remembers, the literal that
  the encoder appends decodes to the string and the decoder stops right after it; the memo's
  invariant (every slot holds the encoding of its key, at most eight slots) is kept.
\<close>

theorem string_literal_roundtrip:
  assumes "memo_ok memo" "encode_string_bytes pre raw memo = (out, memo')"
    and "length raw < 2 ^ 63" "length (out @ rest) \<le> usize_max"
  shows "decode_string (out @ rest) (length pre) = Inr (raw, length out) \<and> memo_ok memo'"
  using encode_string_bytes_spec(1,2) [OF assms(1,2)] decode_string_literal [OF assms(3), of pre rest] assms(4)
  by simp

theorem string_literal_roundtrip_witness:
  "encode_string_bytes [7] [1, 2] memo_empty = ([7, 2, 1, 2], memo_empty) \<and>
   decode_string ([7, 2, 1, 2] @ [9]) (length [7 :: u8]) = Inr ([1, 2], length [7, 2, 1, 2 :: u8])"
proof -
  have c: "snd (code_of 1) = 23" "snd (code_of 2) = 28"
    by (simp_all add: code_of_def HUFF_TABLE_def HUFF_TABLE_0_def)
  have "encode_string_bytes [7] [1, 2] memo_empty = ([7, 2, 1, 2], memo_empty)"
    by (simp add: encode_string_bytes_def LONG_LITERAL_MIN_def encode_string_literal_def encoded_len_def c
        int_encode_mask mask_eq_exp_minus_1)
  with string_literal_roundtrip [OF memo_ok_empty this, of "[9]"] show ?thesis
    by (simp add: usize_max_def)
qed

end
