(* ===== verification/Hpack_Encoder.thy ===== *)
theory Hpack_Encoder
  imports Hpack_Table Hpack_Strings
begin

text \<open>
  The HPACK encoder of \<open>crates/hj-h2/src/hpack/mod.rs\<close>: its dynamic table with sequence numbers and
  name index, the pending size updates, and \<open>encode_header\<close>. The table implements the contract
  \<open>dyn_table\<close>, and the lookups through the index answer like a scan of the table.
\<close>

section \<open>State\<close>

record hpack_encoder =
  e_dynamic :: "header list"
  e_seqnos :: "nat list"
  e_ins_count :: nat
  e_name_index :: "bytes \<Rightarrow> nat list option"
  e_size :: nat
  e_max_size :: nat
  e_preferred_max :: nat
  e_pending_size_update :: "nat option"
  e_pending_min_size :: "nat option"

definition encoder_new :: hpack_encoder where
  "encoder_new =
     \<lparr>e_dynamic = [], e_seqnos = [], e_ins_count = 0, e_name_index = Map.empty, e_size = 0,
      e_max_size = 4096, e_preferred_max = 4096, e_pending_size_update = None,
      e_pending_min_size = None\<rparr>"

section \<open>Operations\<close>

definition set_peer_max_size :: "nat \<Rightarrow> hpack_encoder \<Rightarrow> hpack_encoder" where
  "set_peer_max_size peer_max e =
     (let target = min peer_max (e_preferred_max e);
          mn = (case e_pending_min_size e of None \<Rightarrow> target | Some prev \<Rightarrow> min prev target)
      in if target = e_max_size e \<and> mn \<ge> target
         then e\<lparr>e_pending_size_update := None, e_pending_min_size := None\<rparr>
         else e\<lparr>e_pending_min_size := Some mn, e_pending_size_update := Some target\<rparr>)"

definition hpack_index :: "hpack_encoder \<Rightarrow> nat \<Rightarrow> nat" where
  "hpack_index e seqno = STATIC_LEN + 1 + (e_ins_count e - 1 - seqno)"

primrec find_map :: "('a \<Rightarrow> 'b option) \<Rightarrow> 'a list \<Rightarrow> 'b option" where
  "find_map f [] = None"
| "find_map f (x # xs) = (case f x of Some y \<Rightarrow> Some y | None \<Rightarrow> find_map f xs)"

definition find_dynamic :: "hpack_encoder \<Rightarrow> bytes \<Rightarrow> bytes \<Rightarrow> nat option" where
  "find_dynamic e name val =
     (case e_name_index e name of
        None \<Rightarrow> None
      | Some l \<Rightarrow>
          find_map (\<lambda>seqno.
            let pos = e_ins_count e - 1 - seqno in
            case list_get (e_dynamic e) pos of
              None \<Rightarrow> None
            | Some (_, v) \<Rightarrow> if v = val then Some (hpack_index e seqno) else None) (rev l))"

definition find_dynamic_name :: "hpack_encoder \<Rightarrow> bytes \<Rightarrow> nat option" where
  "find_dynamic_name e name =
     (case e_name_index e name of
        None \<Rightarrow> None
      | Some l \<Rightarrow> if l = [] then None else Some (hpack_index e (last l)))"

definition pop_back :: "'a list \<Rightarrow> 'a option \<times> 'a list" where
  "pop_back xs = (if xs = [] then (None, []) else (Some (last xs), butlast xs))"

definition evict_back :: "hpack_encoder \<Rightarrow> hpack_encoder \<times> bool" where
  "evict_back e =
     (let (entry, dyn) = pop_back (e_dynamic e);
          (sq, sqs) = pop_back (e_seqnos e);
          e1 = e\<lparr>e_dynamic := dyn, e_seqnos := sqs\<rparr>
      in case (entry, sq) of
           (Some (n, v), Some seqno) \<Rightarrow>
             (let e2 = e1\<lparr>e_size := e_size e1 - (length n + length v + ENTRY_OVERHEAD)\<rparr> in
              case e_name_index e2 n of
                None \<Rightarrow> (e2, True)
              | Some l \<Rightarrow>
                  (let l' = (case list_position (\<lambda>s. s = seqno) l of
                               None \<Rightarrow> l
                             | Some pos \<Rightarrow> take pos l @ drop (Suc pos) l)
                   in (e2\<lparr>e_name_index := (e_name_index e2)(n := if l' = [] then None else Some l')\<rparr>,
                       True)))
         | _ \<Rightarrow> (e1, False))"

text \<open>\<open>while size + extra > max_size { if !evict_back() { break } }\<close>\<close>

lemma evict_back_length:
  "evict_back e = (e', True) \<Longrightarrow> length (e_dynamic e') < length (e_dynamic e)"
  by (cases "last (e_dynamic e)")
    (auto simp: evict_back_def pop_back_def Let_def split: if_splits option.splits)

function enc_evict :: "nat \<Rightarrow> hpack_encoder \<Rightarrow> hpack_encoder" where
  "enc_evict extra e =
     (if e_size e + extra > e_max_size e then
        (let (e', more) = evict_back e in if more then enc_evict extra e' else e')
      else e)"
  by pat_completeness auto
termination
  by (relation "measure (\<lambda>(extra, e). length (e_dynamic e))") (auto dest: evict_back_length [OF sym])

declare enc_evict.simps [simp del]

definition enc_insert :: "bytes \<Rightarrow> bytes \<Rightarrow> hpack_encoder \<Rightarrow> hpack_encoder" where
  "enc_insert name val e =
     (let entry_size = length name + length val + ENTRY_OVERHEAD;
          e = enc_evict entry_size e
      in if entry_size \<le> e_max_size e then
           (let seqno = e_ins_count e in
            e\<lparr>e_size := e_size e + entry_size,
              e_ins_count := e_ins_count e + 1,
              e_dynamic := (name, val) # e_dynamic e,
              e_seqnos := seqno # e_seqnos e,
              e_name_index :=
                (case e_name_index e name of
                   Some l \<Rightarrow> (e_name_index e)(name \<mapsto> l @ [seqno])
                 | None \<Rightarrow> (e_name_index e)(name \<mapsto> [seqno]))\<rparr>)
         else e)"

definition never_indexed_names :: "string list" where
  "never_indexed_names =
     ['':path'', ''age'', ''content-range'', ''date'', ''expires'', ''if-modified-since'',
      ''if-none-match'', ''set-cookie'', ''x-wf-shell-age'']"

definition indexable :: "bytes \<Rightarrow> bytes \<Rightarrow> bool" where
  "indexable name val \<longleftrightarrow> length val \<le> 256 \<and> name \<notin> set (map str_bytes never_indexed_names)"

text \<open>Step 0 of \<open>encode_header_inner\<close>: the pending size updates lead the block.\<close>

definition enc_resize :: "nat \<Rightarrow> hpack_encoder \<Rightarrow> hpack_encoder" where
  "enc_resize m e = enc_evict 0 (e\<lparr>e_max_size := m\<rparr>)"

definition emit_resize :: "nat \<Rightarrow> hpack_encoder \<times> bytes \<Rightarrow> hpack_encoder \<times> bytes" where
  "emit_resize m st =
     (let (e, out) = st in
      (enc_resize m e, int_encode out (of_nat m) 5 0x20))"

definition emit_size_update :: "hpack_encoder \<Rightarrow> bytes \<Rightarrow> hpack_encoder \<times> bytes" where
  "emit_size_update e out =
     (case e_pending_size_update e of
        Some new_max \<Rightarrow>
          (let min_size = (case e_pending_min_size e of None \<Rightarrow> new_max | Some m \<Rightarrow> m);
               e1 = e\<lparr>e_pending_size_update := None, e_pending_min_size := None\<rparr>
           in emit_resize new_max
                (if min_size < new_max then emit_resize min_size (e1, out) else (e1, out)))
      | None \<Rightarrow> (e\<lparr>e_pending_min_size := None\<rparr>, out))"

text \<open>The name of a literal: its index if one is known, else the string.\<close>

definition encode_name :: "hpack_encoder \<Rightarrow> bytes \<Rightarrow> bytes \<Rightarrow> nat \<Rightarrow> u8 \<Rightarrow> literal_memo \<Rightarrow> bytes \<times> literal_memo" where
  "encode_name e out name prefix_bits flag memo =
     (case (case find_name name of Some i \<Rightarrow> Some i | None \<Rightarrow> find_dynamic_name e name) of
        Some i \<Rightarrow> (int_encode out (of_nat i) prefix_bits flag, memo)
      | None \<Rightarrow> encode_string_bytes (out @ [flag]) name memo)"

text \<open>Steps 1 to 3: an indexed field, a literal that is added to the table, a literal that is not.\<close>

definition encode_field ::
  "hpack_encoder \<Rightarrow> bytes \<Rightarrow> bytes \<Rightarrow> bytes \<Rightarrow> literal_memo \<Rightarrow> hpack_encoder \<times> bytes \<times> literal_memo" where
  "encode_field e out name val memo =
     (case (case find_name_value name val of
              Some i \<Rightarrow> Some i
            | None \<Rightarrow> if indexable name val then find_dynamic e name val else None) of
        Some idx \<Rightarrow> (e, int_encode out (of_nat idx) 7 0x80, memo)
      | None \<Rightarrow>
          if indexable name val then
            (let (out1, memo1) = encode_name e out name 6 0x40 memo;
                 (out2, memo2) = encode_string_bytes out1 val memo1
             in (enc_insert name val e, out2, memo2))
          else
            (let (out1, memo1) = encode_name e out name 4 0x00 memo;
                 (out2, memo2) =
                   (if value_is_secret name then (encode_string_literal out1 val, memo1)
                    else encode_string_bytes out1 val memo1)
             in (e, out2, memo2)))"

definition encode_header ::
  "hpack_encoder \<Rightarrow> bytes \<Rightarrow> bytes \<Rightarrow> bytes \<Rightarrow> literal_memo \<Rightarrow> hpack_encoder \<times> bytes \<times> literal_memo" where
  "encode_header e out name val memo =
     (let (e, out) = emit_size_update e out in encode_field e out name val memo)"

section \<open>The table invariant\<close>

text \<open>
  Positions count from the front, sequence numbers from the first insertion; the entry at position
  \<open>i\<close> has the number \<open>ins_count - 1 - i\<close>, and the index maps each live name to the numbers of its
  entries, oldest first. \<open>enc_core\<close> is the part that also holds while entries are being evicted.
\<close>

definition name_positions :: "header list \<Rightarrow> bytes \<Rightarrow> nat list" where
  "name_positions es n = filter (\<lambda>i. fst (es ! i) = n) [0..<length es]"

definition index_of :: "nat \<Rightarrow> header list \<Rightarrow> bytes \<Rightarrow> nat list option" where
  "index_of c es n =
     (if name_positions es n = [] then None
      else Some (rev (map (\<lambda>i. c - 1 - i) (name_positions es n))))"

definition enc_core :: "hpack_encoder \<Rightarrow> bool" where
  "enc_core e \<longleftrightarrow>
     e_size e = total_size (e_dynamic e) \<and> length (e_dynamic e) \<le> e_ins_count e \<and>
     e_seqnos e = map (\<lambda>i. e_ins_count e - 1 - i) [0..<length (e_dynamic e)] \<and>
     e_name_index e = index_of (e_ins_count e) (e_dynamic e)"

definition enc_ok :: "hpack_encoder \<Rightarrow> bool" where
  "enc_ok e \<longleftrightarrow> enc_core e \<and> e_size e \<le> e_max_size e"

lemma name_positions_Cons:
  "name_positions (x # es) n = (if fst x = n then [0] else []) @ map Suc (name_positions es n)"
  by (simp add: name_positions_def upt_conv_Cons filter_map comp_def del: upt_Suc flip: map_Suc_upt)

lemma name_positions_snoc:
  "name_positions (es @ [x]) n = name_positions es n @ (if fst x = n then [length es] else [])"
  by (auto simp: name_positions_def nth_append intro!: filter_cong)

lemma name_positions_less: "i \<in> set (name_positions es n) \<Longrightarrow> i < length es"
  by (simp add: name_positions_def)

lemma index_of_Cons:
  "index_of (Suc c) ((n, v) # es) = (index_of c es)(n \<mapsto> (case index_of c es n of None \<Rightarrow> [c] | Some l \<Rightarrow> l @ [c]))"
  by (rule ext) (auto simp: index_of_def name_positions_Cons comp_def)

lemma index_of_snoc:
  assumes "length es < c"
  shows "index_of c (es @ [(n, v)]) n = Some ((c - 1 - length es) # (case index_of c es n of None \<Rightarrow> [] | Some l \<Rightarrow> l))"
    and "m \<noteq> n \<Longrightarrow> index_of c (es @ [(n, v)]) m = index_of c es m"
  using assms by (auto simp: index_of_def name_positions_snoc)

lemma index_of_nonempty: "index_of c es n \<noteq> Some []"
  by (simp add: index_of_def)

lemma evict_back_snoc:
  assumes "enc_core e" "e_dynamic e = es @ [(n, v)]"
  shows "\<exists>e'. evict_back e = (e', True) \<and> enc_core e' \<and> e_dynamic e' = es \<and>
    e_max_size e' = e_max_size e \<and> e_preferred_max e' = e_preferred_max e \<and>
    e_pending_size_update e' = e_pending_size_update e \<and> e_pending_min_size e' = e_pending_min_size e"
proof -
  let ?c = "e_ins_count e"
  have c: "length es < ?c" using assms by (simp add: enc_core_def)
  have sq: "e_seqnos e = map (\<lambda>i. ?c - 1 - i) [0..<length es] @ [?c - 1 - length es]"
    using assms by (simp add: enc_core_def)
  have idx: "e_name_index e = index_of ?c (es @ [(n, v)])" using assms by (simp add: enc_core_def)
  have upd: "(index_of ?c (es @ [(n, v)]))(n := index_of ?c es n) = index_of ?c es"
    using index_of_snoc(2) [OF c] by (auto simp: fun_eq_iff)
  show ?thesis
  proof (cases "index_of ?c es n")
    case None
    then show ?thesis
      using assms c upd index_of_snoc(1) [OF c, of n v]
      by (simp add: evict_back_def pop_back_def sq idx enc_core_def entry_size_def Let_def)
  next
    case (Some l)
    then have "l \<noteq> []" using index_of_nonempty by fastforce
    then show ?thesis
      using assms c upd Some index_of_snoc(1) [OF c, of n v]
      by (simp add: evict_back_def pop_back_def sq idx enc_core_def entry_size_def Let_def)
  qed
qed

lemma enc_evict_spec:
  assumes "enc_core e"
  shows "enc_core (enc_evict extra e) \<and>
    e_dynamic (enc_evict extra e) = (if extra \<le> e_max_size e then fit (e_max_size e - extra) (e_dynamic e) else []) \<and>
    e_max_size (enc_evict extra e) = e_max_size e \<and>
    e_preferred_max (enc_evict extra e) = e_preferred_max e \<and>
    e_pending_size_update (enc_evict extra e) = e_pending_size_update e \<and>
    e_pending_min_size (enc_evict extra e) = e_pending_min_size e"
  using assms
proof (induction "length (e_dynamic e)" arbitrary: e)
  case 0
  then have d: "e_dynamic e = []" "e_seqnos e = []" "e_size e = 0" by (auto simp: enc_core_def)
  then have "e\<lparr>e_dynamic := [], e_seqnos := []\<rparr> = e" by simp
  then have "enc_evict extra e = e"
    using d by (subst enc_evict.simps) (simp add: evict_back_def pop_back_def)
  then show ?case using 0 d by simp
next
  case (Suc k)
  then obtain es x where es: "e_dynamic e = es @ [x]" by (metis length_0_conv nat.distinct(1) rev_exhaust)
  obtain n v where x: "x = (n, v)" by fastforce
  obtain e' where e': "evict_back e = (e', True)" "enc_core e'" "e_dynamic e' = es"
    "e_max_size e' = e_max_size e" "e_preferred_max e' = e_preferred_max e"
    "e_pending_size_update e' = e_pending_size_update e" "e_pending_min_size e' = e_pending_min_size e"
    using evict_back_snoc [OF Suc.prems es [unfolded x]] by blast
  show ?case
  proof (cases "e_size e + extra > e_max_size e")
    case True
    then have step: "enc_evict extra e = enc_evict extra e'" using e'(1) by (subst enc_evict.simps) simp
    have size: "e_size e = total_size (es @ [x])" using Suc.prems es by (simp add: enc_core_def)
    have "fit (e_max_size e - extra) (es @ [x]) = fit (e_max_size e - extra) es" if "extra \<le> e_max_size e"
      using True size that by (intro fit_snoc) linarith
    then show ?thesis
      unfolding step using Suc.hyps(1) [of e'] Suc.hyps(2) e' es by auto
  next
    case False
    then have "enc_evict extra e = e" by (subst enc_evict.simps) simp
    moreover have "fit (e_max_size e - extra) (e_dynamic e) = e_dynamic e"
      using False Suc.prems by (intro fit_all) (simp add: enc_core_def)
    ultimately show ?thesis using Suc.prems False by simp
  qed
qed

lemma enc_core_limit: "enc_core (e\<lparr>e_max_size := m\<rparr>) = enc_core e"
  by (simp add: enc_core_def)

lemma enc_resize_spec:
  assumes "enc_core e"
  shows "enc_ok (enc_resize m e)" "e_dynamic (enc_resize m e) = fit m (e_dynamic e)"
    "e_max_size (enc_resize m e) = m" "e_preferred_max (enc_resize m e) = e_preferred_max e"
    "e_pending_size_update (enc_resize m e) = e_pending_size_update e"
    "e_pending_min_size (enc_resize m e) = e_pending_min_size e"
  using enc_evict_spec [of "e\<lparr>e_max_size := m\<rparr>" 0] assms fit_total [of m "e_dynamic e"]
  by (auto simp: enc_resize_def enc_core_limit enc_ok_def enc_core_def)

lemma enc_insert_spec:
  assumes "enc_ok e"
  shows "enc_ok (enc_insert n v e)"
    "e_dynamic (enc_insert n v e) =
       (if entry_size (n, v) \<le> e_max_size e
        then (n, v) # fit (e_max_size e - entry_size (n, v)) (e_dynamic e) else [])"
    "e_max_size (enc_insert n v e) = e_max_size e" "e_preferred_max (enc_insert n v e) = e_preferred_max e"
    "e_pending_size_update (enc_insert n v e) = e_pending_size_update e"
    "e_pending_min_size (enc_insert n v e) = e_pending_min_size e"
proof -
  let ?s = "entry_size (n, v)"
  let ?e = "enc_evict ?s e"
  have s: "length n + length v + ENTRY_OVERHEAD = ?s" by (simp add: entry_size_def)
  note ev = enc_evict_spec [of e ?s, OF assms [unfolded enc_ok_def, THEN conjunct1]]
  define e' where "e' = ?e\<lparr>e_size := e_size ?e + ?s, e_ins_count := e_ins_count ?e + 1,
      e_dynamic := (n, v) # e_dynamic ?e, e_seqnos := e_ins_count ?e # e_seqnos ?e,
      e_name_index := (case e_name_index ?e n of
         Some l \<Rightarrow> (e_name_index ?e)(n \<mapsto> l @ [e_ins_count ?e])
       | None \<Rightarrow> (e_name_index ?e)(n \<mapsto> [e_ins_count ?e]))\<rparr>"
  have ins: "enc_insert n v e = (if ?s \<le> e_max_size e then e' else ?e)"
    using ev by (simp add: enc_insert_def s e'_def Let_def)
  have "e_name_index e' = index_of (e_ins_count e') (e_dynamic e')"
    using ev [THEN conjunct1] index_of_Cons [of "e_ins_count ?e" n v "e_dynamic ?e"]
    by (auto simp: e'_def enc_core_def split: option.splits)
  moreover have "e_seqnos e' = map (\<lambda>i. e_ins_count e' - 1 - i) [0..<length (e_dynamic e')]"
    using ev [THEN conjunct1] by (simp add: e'_def enc_core_def upt_conv_Cons del: upt_Suc flip: map_Suc_upt)
  ultimately have core: "enc_core e'"
    using ev [THEN conjunct1] by (simp add: e'_def enc_core_def)
  have "e_size e' \<le> e_max_size e'" if "?s \<le> e_max_size e"
    using ev that fit_total [of "e_max_size e - ?s" "e_dynamic e"] by (simp add: e'_def enc_core_def)
  then show "enc_ok (enc_insert n v e)"
    using core ev unfolding ins by (auto simp: enc_ok_def enc_core_def)
  show "e_dynamic (enc_insert n v e) =
       (if ?s \<le> e_max_size e then (n, v) # fit (e_max_size e - ?s) (e_dynamic e) else [])"
    "e_max_size (enc_insert n v e) = e_max_size e" "e_preferred_max (enc_insert n v e) = e_preferred_max e"
    "e_pending_size_update (enc_insert n v e) = e_pending_size_update e"
    "e_pending_min_size (enc_insert n v e) = e_pending_min_size e"
    using ev unfolding ins by (simp_all add: e'_def)
qed

lemma enc_ok_core: "enc_ok e \<Longrightarrow> enc_core e"
  by (simp add: enc_ok_def)

lemma enc_ok_within: "enc_ok e \<Longrightarrow> total_size (e_dynamic e) \<le> e_max_size e"
  by (simp add: enc_ok_def enc_core_def)

interpretation enc_tbl: dyn_table e_dynamic e_max_size enc_ok enc_insert enc_resize
  by unfold_locales (simp_all add: enc_ok_within enc_ok_core enc_insert_spec enc_resize_spec)

lemma encoder_new_ok: "enc_ok encoder_new"
  by (auto simp: encoder_new_def enc_ok_def enc_core_def index_of_def name_positions_def fun_eq_iff)

section \<open>The index answers like a scan of the table\<close>

lemma find_map_if: "find_map (\<lambda>x. if P x then Some (g x) else None) xs = map_option g (find P xs)"
  by (induction xs) auto

lemma find_filter_conj: "find Q (filter R xs) = find (\<lambda>x. R x \<and> Q x) xs"
  by (induction xs) auto

lemma find_map_cong: "(\<And>x. x \<in> set xs \<Longrightarrow> f x = g x) \<Longrightarrow> find_map f xs = find_map g xs"
  by (induction xs) (auto split: option.splits)

lemma find_map_map: "find_map f (map g xs) = find_map (\<lambda>x. f (g x)) xs"
  by (induction xs) (auto split: option.splits)

lemma list_position_find: "list_position P xs = find (\<lambda>i. P (xs ! i)) [0..<length xs]"
proof (induction xs)
  case (Cons x xs)
  have "find (\<lambda>i. P ((x # xs) ! i)) [0..<length (x # xs)] =
      (if P x then Some 0 else find (\<lambda>i. P ((x # xs) ! i)) (map Suc [0..<length xs]))"
    by (simp add: upt_conv_Cons del: upt_Suc flip: map_Suc_upt)
  moreover have "find (\<lambda>i. P ((x # xs) ! i)) (map Suc is) = map_option Suc (find (\<lambda>i. P (xs ! i)) is)" for "is"
    by (induction "is") auto
  ultimately show ?case using Cons by simp
qed simp

lemma find_dynamic_scan:
  assumes "enc_core e"
  shows "find_dynamic e n v = map_option (\<lambda>i. STATIC_LEN + 1 + i) (list_position (\<lambda>x. x = (n, v)) (e_dynamic e))"
proof -
  let ?c = "e_ins_count e" and ?es = "e_dynamic e"
  let ?f = "\<lambda>seqno. let pos = ?c - 1 - seqno in
      case list_get ?es pos of None \<Rightarrow> None
      | Some (_, w) \<Rightarrow> if w = v then Some (hpack_index e seqno) else None"
  have f: "?f (?c - 1 - i) = (if snd (?es ! i) = v then Some (STATIC_LEN + 1 + i) else None)"
    if "i \<in> set (name_positions ?es n)" for i
    using name_positions_less [OF that] assms
    by (simp add: list_get_def hpack_index_def enc_core_def case_prod_beta)
  have "find_dynamic e n v = find_map ?f (map (\<lambda>i. ?c - 1 - i) (name_positions ?es n))"
    using assms by (simp add: find_dynamic_def enc_core_def index_of_def)
  also have "\<dots> = find_map (\<lambda>i. if snd (?es ! i) = v then Some (STATIC_LEN + 1 + i) else None) (name_positions ?es n)"
    unfolding find_map_map using f by (intro find_map_cong) blast
  also have "\<dots> = map_option (\<lambda>i. STATIC_LEN + 1 + i) (list_position (\<lambda>x. x = (n, v)) ?es)"
    unfolding find_map_if list_position_find name_positions_def find_filter_conj by (simp add: prod_eq_iff)
  finally show ?thesis .
qed

lemma find_dynamic_name_scan:
  assumes "enc_core e"
  shows "find_dynamic_name e n = map_option (\<lambda>i. STATIC_LEN + 1 + i) (list_position (\<lambda>x. fst x = n) (e_dynamic e))"
proof (cases "name_positions (e_dynamic e) n")
  case Nil
  then have "list_position (\<lambda>x. fst x = n) (e_dynamic e) = None"
    by (simp add: list_position_find name_positions_def filter_empty_conv find_None_iff)
  then show ?thesis using Nil assms by (simp add: find_dynamic_name_def enc_core_def index_of_def)
next
  case (Cons i ps)
  have "find (\<lambda>i. fst (e_dynamic e ! i) = n) [0..<length (e_dynamic e)] =
      find (\<lambda>i. True) (name_positions (e_dynamic e) n)"
    unfolding name_positions_def find_filter_conj by simp
  then have "list_position (\<lambda>x. fst x = n) (e_dynamic e) = Some i"
    using Cons by (simp add: list_position_find)
  moreover have "i < length (e_dynamic e)" using name_positions_less [of i "e_dynamic e" n] Cons by simp
  ultimately show ?thesis
    using Cons assms by (simp add: find_dynamic_name_def enc_core_def index_of_def hpack_index_def)
qed

section \<open>Properties\<close>

text \<open>
  C14. The lookups through the name index of the encoder return the HPACK index of the newest entry
  with the name and value (with the name, respectively), as a front-to-back scan of the dynamic table
  does, in every state that satisfies the table invariant.
\<close>

theorem encoder_index_exact:
  assumes "enc_ok e"
  shows "find_dynamic e n v =
      map_option (\<lambda>i. STATIC_LEN + 1 + i) (list_position (\<lambda>x. x = (n, v)) (e_dynamic e)) \<and>
    find_dynamic_name e n =
      map_option (\<lambda>i. STATIC_LEN + 1 + i) (list_position (\<lambda>x. fst x = n) (e_dynamic e))"
  using find_dynamic_scan find_dynamic_name_scan enc_ok_core [OF assms] by blast

theorem encoder_index_exact_witness:
  "find_dynamic (enc_insert [1] [2] (enc_insert [1] [3] encoder_new)) [1] [3] = Some 63 \<and>
   find_dynamic_name (enc_insert [1] [2] (enc_insert [1] [3] encoder_new)) [1] = Some 62"
proof -
  let ?e1 = "enc_insert [1] [3] encoder_new" and ?e2 = "enc_insert [1] [2] (enc_insert [1] [3] encoder_new)"
  have ok: "enc_ok ?e1" "enc_ok ?e2" using encoder_new_ok by (simp_all add: enc_insert_spec)
  have "e_dynamic ?e2 = [([1], [2]), ([1], [3])]"
    using encoder_new_ok ok
    by (simp add: enc_insert_spec encoder_new_def entry_size_def ENTRY_OVERHEAD_def)
  then show ?thesis
    using encoder_index_exact [OF ok(2), of "[1]" "[3]"] by (simp add: STATIC_LEN_def)
qed

end
