(* ===== verification/Hpack_Decoder.thy ===== *)
theory Hpack_Decoder
  imports Hpack_Table Hpack_Strings
begin

text \<open>
  The HPACK decoder of \<open>crates/hj-h2/src/hpack/mod.rs\<close>: its dynamic table, which implements the
  contract \<open>dyn_table\<close>, and the loop of \<open>decode_octets\<close>, a round per representation. The fields it
  passes to the caller's closure are returned as a list.
\<close>

section \<open>State\<close>

record hpack_decoder =
  d_dynamic :: "header list"
  d_size :: nat
  d_max_size :: nat
  d_hard_max :: nat
  d_max_list_size :: nat

definition decoder_new :: "nat \<Rightarrow> nat \<Rightarrow> hpack_decoder" where
  "decoder_new max_size max_list_size =
     \<lparr>d_dynamic = [], d_size = 0, d_max_size = max_size, d_hard_max = max_size,
      d_max_list_size = max_list_size\<rparr>"

section \<open>Operations\<close>

definition entry_ref :: "hpack_decoder \<Rightarrow> nat \<Rightarrow> header option" where
  "entry_ref d index =
     (case static_get index of
        Some (n, v) \<Rightarrow> Some (str_bytes n, str_bytes v)
      | None \<Rightarrow> if index < length STATIC_TABLE + 1 then None
                else list_get (d_dynamic d) (index - (length STATIC_TABLE + 1)))"

function evict_to :: "nat \<Rightarrow> hpack_decoder \<Rightarrow> hpack_decoder" where
  "evict_to target d =
     (if d_size d > target then
        (if d_dynamic d = [] then d
         else
           (let (n, v) = last (d_dynamic d) in
            evict_to target
              (d\<lparr>d_dynamic := butlast (d_dynamic d),
                 d_size := d_size d - (length n + length v + ENTRY_OVERHEAD)\<rparr>)))
      else d)"
  by pat_completeness auto
termination
  by (relation "measure (\<lambda>(target, d). length (d_dynamic d))") auto

declare evict_to.simps [simp del]

definition dec_insert :: "bytes \<Rightarrow> bytes \<Rightarrow> hpack_decoder \<Rightarrow> hpack_decoder" where
  "dec_insert name val d =
     (let entry_size = length name + length val + ENTRY_OVERHEAD;
          d = evict_to (d_max_size d - entry_size) d
      in if entry_size \<le> d_max_size d
         then d\<lparr>d_size := d_size d + entry_size, d_dynamic := (name, val) # d_dynamic d\<rparr>
         else d)"

definition dec_resize :: "nat \<Rightarrow> hpack_decoder \<Rightarrow> hpack_decoder" where
  "dec_resize new_max d = evict_to new_max (d\<lparr>d_max_size := new_max\<rparr>)"

definition set_max_size :: "nat \<Rightarrow> hpack_decoder \<Rightarrow> hpack_error + hpack_decoder" where
  "set_max_size new_max d =
     (if new_max > d_hard_max d then Inl InvalidSizeUpdate else Inr (dec_resize new_max d))"

definition read_literal :: "hpack_decoder \<Rightarrow> bytes \<Rightarrow> nat \<Rightarrow> nat \<Rightarrow> hpack_error + header \<times> nat" where
  "read_literal d buf pos prefix_bits =
     (case int_decode buf pos prefix_bits of
        None \<Rightarrow> Inl Truncated
      | Some (name_idx, pos) \<Rightarrow>
          (case (if unat name_idx = 0 then decode_string buf pos
                 else (case entry_ref d (unat name_idx) of
                         None \<Rightarrow> Inl BadIndex
                       | Some (n, _) \<Rightarrow> Inr (n, pos))) of
             Inl err \<Rightarrow> Inl err
           | Inr (name, pos) \<Rightarrow>
               (case decode_string buf pos of
                  Inl err \<Rightarrow> Inl err
                | Inr (val, pos) \<Rightarrow> Inr ((name, val), pos))))"

text \<open>
  One round of the loop of \<open>decode_octets\<close>: the decoder, the position and \<open>seen_field\<close> after it, and
  the field it emits. A round that fails leaves the decoder as it was. The literal that is not added
  to the table is read with 4 prefix bits by the same steps as \<open>read_literal\<close>.
\<close>

definition decode_round ::
  "hpack_decoder \<Rightarrow> bytes \<Rightarrow> nat \<Rightarrow> bool \<Rightarrow> hpack_error + hpack_decoder \<times> nat \<times> bool \<times> header option" where
  "decode_round d buf pos seen_field =
     (let b = buf ! pos in
      if b AND 0x80 \<noteq> 0 then
        (case int_decode buf pos 7 of
           None \<Rightarrow> Inl Truncated
         | Some (idx, pos) \<Rightarrow>
             (case entry_ref d (unat idx) of
                None \<Rightarrow> Inl BadIndex
              | Some (n, v) \<Rightarrow> Inr (d, pos, True, Some (n, v))))
      else if b AND 0x40 \<noteq> 0 then
        (case read_literal d buf pos 6 of
           Inl err \<Rightarrow> Inl err
         | Inr ((n, v), pos) \<Rightarrow> Inr (dec_insert n v d, pos, True, Some (n, v)))
      else if b AND 0x20 \<noteq> 0 then
        (if seen_field then Inl InvalidSizeUpdate
         else
           (case int_decode buf pos 5 of
              None \<Rightarrow> Inl Truncated
            | Some (new_max, pos) \<Rightarrow>
                (case set_max_size (unat new_max) d of
                   Inl err \<Rightarrow> Inl err
                 | Inr d' \<Rightarrow> Inr (d', pos, seen_field, None))))
      else
        (case read_literal d buf pos 4 of
           Inl err \<Rightarrow> Inl err
         | Inr ((n, v), pos) \<Rightarrow> Inr (d, pos, True, Some (n, v))))"

lemma read_literal_InrD:
  assumes "read_literal d buf pos k = Inr (h, p)"
  shows "\<exists>i q r v. int_decode buf pos k = Some (i, q) \<and> q \<le> r \<and> decode_string buf r = Inr (v, p)"
proof -
  obtain i q where i: "int_decode buf pos k = Some (i, q)"
    using assms by (auto simp: read_literal_def split: option.splits)
  obtain n r where n: "(if unat i = 0 then decode_string buf q
      else (case entry_ref d (unat i) of None \<Rightarrow> Inl BadIndex | Some (n, _) \<Rightarrow> Inr (n, q))) = Inr (n, r)"
    using assms i by (auto simp: read_literal_def split: sum.splits)
  then have "q \<le> r" by (auto dest: decode_string_bounds split: if_splits option.splits)
  moreover obtain v where "decode_string buf r = Inr (v, p)"
    using assms i n by (auto simp: read_literal_def split: sum.splits)
  ultimately show ?thesis using i by blast
qed

lemma read_literal_pos:
  assumes "read_literal d buf pos k = Inr (h, p)" "1 \<le> k" "k \<le> 8"
  shows "pos < p \<and> p \<le> length buf"
proof -
  obtain i q r v where "int_decode buf pos k = Some (i, q)" "q \<le> r" "decode_string buf r = Inr (v, p)"
    using read_literal_InrD [OF assms(1)] by blast
  then show ?thesis using int_decode_bounds [OF _ assms(2,3)] decode_string_bounds by fastforce
qed

lemma decode_round_InrE:
  assumes "decode_round d buf pos seen = Inr (d', p, seen', f)"
  obtains (indexed) i h where "int_decode buf pos 7 = Some (i, p)" "entry_ref d (unat i) = Some h"
      "d' = d" "f = Some h"
  | (added) n v where "read_literal d buf pos 6 = Inr ((n, v), p)" "d' = dec_insert n v d" "f = Some (n, v)"
  | (resized) m where "\<not> seen" "int_decode buf pos 5 = Some (m, p)" "unat m \<le> d_hard_max d"
      "d' = dec_resize (unat m) d" "f = None"
  | (literal) n v where "read_literal d buf pos 4 = Inr ((n, v), p)" "d' = d" "f = Some (n, v)"
proof -
  let ?b = "buf ! pos"
  consider "?b AND 0x80 \<noteq> 0" | "?b AND 0x80 = 0" "?b AND 0x40 \<noteq> 0"
    | "?b AND 0x80 = 0" "?b AND 0x40 = 0" "?b AND 0x20 \<noteq> 0"
    | "?b AND 0x80 = 0" "?b AND 0x40 = 0" "?b AND 0x20 = 0" by blast
  then show thesis
  proof cases
    case 1
    then show thesis using assms indexed by (auto simp: decode_round_def split: option.splits)
  next
    case 2
    then show thesis using assms added by (auto simp: decode_round_def split: sum.splits)
  next
    case 3
    then show thesis
      using assms resized
      by (auto simp: decode_round_def set_max_size_def split: option.splits sum.splits if_splits)
  next
    case 4
    then show thesis using assms literal by (auto simp: decode_round_def split: sum.splits)
  qed
qed

lemma decode_round_pos:
  assumes "decode_round d buf pos seen = Inr (d', p, seen', f)"
  shows "pos < p \<and> p \<le> length buf"
  using assms
proof (cases rule: decode_round_InrE)
  case (indexed i h)
  then show ?thesis using int_decode_bounds by fastforce
next
  case (added n v)
  then show ?thesis using read_literal_pos by fastforce
next
  case (resized m)
  then show ?thesis using int_decode_bounds by fastforce
next
  case (literal n v)
  then show ?thesis using read_literal_pos by fastforce
qed

definition emit_checked :: "nat \<Rightarrow> header \<Rightarrow> nat \<times> header list \<Rightarrow> nat \<times> header list" where
  "emit_checked list_limit h st =
     (let (listed, emitted) = st; (n, v) = h;
          total = usize_sat_add listed (length n + length v + ENTRY_OVERHEAD)
      in (total, if total \<le> list_limit then emitted @ [(n, v)] else emitted))"

function decode_rounds ::
  "hpack_decoder \<Rightarrow> bytes \<Rightarrow> nat \<Rightarrow> bool \<Rightarrow> nat \<times> header list
   \<Rightarrow> (hpack_error + unit) \<times> hpack_decoder \<times> header list" where
  "decode_rounds d buf pos seen_field st =
     (if pos < length buf then
        (case decode_round d buf pos seen_field of
           Inl err \<Rightarrow> (Inl err, d, snd st)
         | Inr (d', pos', seen', f) \<Rightarrow>
             decode_rounds d' buf pos' seen'
               (case f of None \<Rightarrow> st | Some h \<Rightarrow> emit_checked (d_max_list_size d) h st))
      else if fst st > d_max_list_size d then (Inl HeaderListTooLarge, d, snd st)
      else (Inr (), d, snd st))"
  by pat_completeness auto
termination
  by (relation "measure (\<lambda>(d, buf, pos, seen, st). length buf - pos)")
    (auto dest!: decode_round_pos)

declare decode_rounds.simps [simp del]

definition decode_octets :: "hpack_decoder \<Rightarrow> bytes \<Rightarrow> (hpack_error + unit) \<times> hpack_decoder \<times> header list" where
  "decode_octets d buf = decode_rounds d buf 0 False (0, [])"

section \<open>The table invariant\<close>

definition dec_ok :: "hpack_decoder \<Rightarrow> bool" where
  "dec_ok d \<longleftrightarrow> d_size d = total_size (d_dynamic d) \<and> d_size d \<le> d_max_size d"

lemma evict_to_spec:
  assumes "d_size d = total_size (d_dynamic d)"
  shows "d_dynamic (evict_to m d) = fit m (d_dynamic d) \<and>
    d_size (evict_to m d) = total_size (fit m (d_dynamic d)) \<and>
    d_max_size (evict_to m d) = d_max_size d \<and> d_hard_max (evict_to m d) = d_hard_max d \<and>
    d_max_list_size (evict_to m d) = d_max_list_size d"
  using assms
proof (induction "length (d_dynamic d)" arbitrary: d)
  case 0
  then show ?case by (subst (1 2 3 4 5) evict_to.simps) simp
next
  case (Suc k)
  then obtain es x where es: "d_dynamic d = es @ [x]" by (metis length_0_conv nat.distinct(1) rev_exhaust)
  obtain n v where x: "x = (n, v)" by fastforce
  show ?case
  proof (cases "d_size d > m")
    case True
    let ?d = "d\<lparr>d_dynamic := es, d_size := d_size d - (length n + length v + ENTRY_OVERHEAD)\<rparr>"
    have step: "evict_to m d = evict_to m ?d" using True es x by (subst evict_to.simps) simp
    have "d_size ?d = total_size (d_dynamic ?d)" using Suc.prems es x by (simp add: entry_size_def)
    moreover have "fit m (es @ [x]) = fit m es" using True Suc.prems es by (intro fit_snoc) simp
    ultimately show ?thesis unfolding step using Suc.hyps(1) [of ?d] Suc.hyps(2) es by simp
  next
    case False
    then have "evict_to m d = d" by (subst evict_to.simps) simp
    moreover have "fit m (d_dynamic d) = d_dynamic d" using False Suc.prems by (intro fit_all) simp
    ultimately show ?thesis using Suc.prems by simp
  qed
qed

lemma dec_insert_spec:
  assumes "dec_ok d"
  shows "dec_ok (dec_insert n v d)"
    "d_dynamic (dec_insert n v d) =
       (if entry_size (n, v) \<le> d_max_size d
        then (n, v) # fit (d_max_size d - entry_size (n, v)) (d_dynamic d) else [])"
    "d_max_size (dec_insert n v d) = d_max_size d" "d_hard_max (dec_insert n v d) = d_hard_max d"
    "d_max_list_size (dec_insert n v d) = d_max_list_size d"
proof -
  let ?s = "entry_size (n, v)"
  have s: "length n + length v + ENTRY_OVERHEAD = ?s" by (simp add: entry_size_def)
  note ev = evict_to_spec [of d "d_max_size d - ?s"]
  have empty: "fit 0 es = []" for es using entry_size_ge [of "hd es"] by (cases es) auto
  show "dec_ok (dec_insert n v d)"
    using assms ev fit_total [of "d_max_size d - ?s" "d_dynamic d"] empty
    by (auto simp: dec_ok_def dec_insert_def s Let_def)
  show "d_dynamic (dec_insert n v d) =
       (if ?s \<le> d_max_size d then (n, v) # fit (d_max_size d - ?s) (d_dynamic d) else [])"
    "d_max_size (dec_insert n v d) = d_max_size d" "d_hard_max (dec_insert n v d) = d_hard_max d"
    "d_max_list_size (dec_insert n v d) = d_max_list_size d"
    using assms ev empty by (auto simp: dec_ok_def dec_insert_def s Let_def)
qed

lemma dec_resize_spec:
  assumes "dec_ok d"
  shows "dec_ok (dec_resize m d)" "d_dynamic (dec_resize m d) = fit m (d_dynamic d)"
    "d_max_size (dec_resize m d) = m" "d_hard_max (dec_resize m d) = d_hard_max d"
    "d_max_list_size (dec_resize m d) = d_max_list_size d"
  using evict_to_spec [of "d\<lparr>d_max_size := m\<rparr>" m] assms fit_total [of m "d_dynamic d"]
  by (auto simp: dec_resize_def dec_ok_def)

lemma dec_ok_within: "dec_ok d \<Longrightarrow> total_size (d_dynamic d) \<le> d_max_size d"
  by (simp add: dec_ok_def)

interpretation dec_tbl: dyn_table d_dynamic d_max_size dec_ok dec_insert dec_resize
  by unfold_locales (simp_all add: dec_ok_within dec_insert_spec dec_resize_spec)

lemma decoder_new_ok: "dec_ok (decoder_new m l)"
  by (simp add: dec_ok_def decoder_new_def)

section \<open>Every block keeps the invariant\<close>

text \<open>The settings of a decoder never change, and its size limit stays within the advertised one.\<close>

definition dec_inv :: "hpack_decoder \<Rightarrow> bool" where
  "dec_inv d \<longleftrightarrow> dec_ok d \<and> d_max_size d \<le> d_hard_max d"

lemma decode_round_inv:
  assumes "decode_round d buf pos seen = Inr (d', p, seen', f)" "dec_inv d"
  shows "dec_inv d' \<and> d_hard_max d' = d_hard_max d \<and> d_max_list_size d' = d_max_list_size d"
  using assms(1)
  by (cases rule: decode_round_InrE) (use assms(2) in \<open>auto simp: dec_inv_def dec_insert_spec dec_resize_spec\<close>)

lemma emit_checked_bound:
  assumes "total_size (snd st) \<le> min (fst st) l" "l < usize_max"
  shows "total_size (snd (emit_checked l h st)) \<le> min (fst (emit_checked l h st)) l"
proof -
  obtain listed es where st: "st = (listed, es)" by fastforce
  let ?t = "min (listed + entry_size h) usize_max"
  have "emit_checked l h st = (?t, if ?t \<le> l then es @ [h] else es)"
    by (cases h) (simp add: emit_checked_def st usize_sat_add_def entry_size_def)
  then show ?thesis using assms st by auto
qed

lemma decode_rounds_inv:
  assumes "decode_rounds d buf pos seen st = (r, d', es)" "dec_inv d"
    and "total_size (snd st) \<le> min (fst st) (d_max_list_size d)" "d_max_list_size d < usize_max"
  shows "dec_inv d' \<and> d_hard_max d' = d_hard_max d \<and> d_max_list_size d' = d_max_list_size d \<and>
    total_size es \<le> d_max_list_size d"
  using assms
proof (induction d buf pos seen st rule: decode_rounds.induct)
  case (1 d buf pos seen st)
  show ?case
  proof (cases "pos < length buf")
    case True
    show ?thesis
    proof (cases "decode_round d buf pos seen")
      case (Inl err)
      then show ?thesis using "1.prems" True by (simp add: decode_rounds.simps [of d])
    next
      case (Inr q)
      obtain d1 p1 s1 f where q: "q = (d1, p1, s1, f)" by (metis prod_cases4)
      let ?st = "case f of None \<Rightarrow> st | Some h \<Rightarrow> emit_checked (d_max_list_size d) h st"
      have rec: "decode_rounds d1 buf p1 s1 ?st = (r, d', es)"
        using "1.prems"(1) True Inr q by (simp add: decode_rounds.simps [of d])
      have inv: "dec_inv d1" "d_hard_max d1 = d_hard_max d" "d_max_list_size d1 = d_max_list_size d"
        using decode_round_inv [of d buf pos seen d1 p1 s1 f] Inr q "1.prems"(2) by auto
      have "total_size (snd ?st) \<le> min (fst ?st) (d_max_list_size d)"
        using "1.prems"(3,4) emit_checked_bound by (auto split: option.splits simp del: min.bounded_iff)
      then show ?thesis
        using "1.IH" [OF True Inr q [symmetric] refl refl rec inv(1)] inv "1.prems"(4) by (simp del: min.bounded_iff)
    qed
  next
    case False
    then show ?thesis using "1.prems" by (auto simp: decode_rounds.simps [of d] split: if_splits)
  qed
qed

section \<open>The text wrapper\<close>

text \<open>
  \<open>Decoder::decode\<close>: the fields that are text are passed on; a field that is not makes the block
  fail once it has been consumed. UTF-8 validation is the standard library's: \<open>utf8\<close> is a parameter.
\<close>

definition decode_text ::
  "(bytes \<Rightarrow> bool) \<Rightarrow> hpack_decoder \<Rightarrow> bytes \<Rightarrow> (hpack_error + unit) \<times> hpack_decoder \<times> header list" where
  "decode_text utf8 d buf =
     (let (r, d', es) = decode_octets d buf;
          texts = filter (\<lambda>(n, v). utf8 n \<and> utf8 v) es
      in (case r of
            Inl err \<Rightarrow> (Inl err, d', texts)
          | Inr _ \<Rightarrow> if texts \<noteq> es then (Inl BadString, d', texts) else (Inr (), d', texts)))"

section \<open>Properties\<close>

text \<open>
  C13. Decoding any block, well-formed or not, keeps the decoder's table invariant: the accounted size
  is the size of the entries, within the current limit, within the advertised limit; and the fields
  passed on, accounted with 32 octets each, never exceed the advertised header-list size, whatever
  the block amplifies to.
\<close>

theorem decode_octets_bounded:
  assumes "dec_inv d" "d_max_list_size d < usize_max" "decode_octets d buf = (r, d', es)"
  shows "dec_inv d' \<and> d_hard_max d' = d_hard_max d \<and> d_max_list_size d' = d_max_list_size d \<and>
    total_size es \<le> d_max_list_size d"
  using decode_rounds_inv [of d buf 0 False "(0, [])" r d' es] assms by (simp add: decode_octets_def)

theorem decode_octets_bounded_witness:
  "decode_octets (decoder_new 4096 64) [0x82, 0x82] =
     (Inl HeaderListTooLarge, decoder_new 4096 64, [(str_bytes '':method'', str_bytes ''GET'')]) \<and>
   total_size [(str_bytes '':method'', str_bytes ''GET'')] \<le> 64"
proof -
  let ?d = "decoder_new 4096 64" and ?h = "(str_bytes '':method'', str_bytes ''GET'')"
  have i: "int_decode [0x82, 0x82] 0 7 = Some (2, 1)" "int_decode [0x82, 0x82] 1 7 = Some (2, 2)"
    by (simp_all add: int_decode_mask list_get_def mask_eq_exp_minus_1)
  have e: "entry_ref ?d 2 = Some ?h" by (simp add: entry_ref_def static_get_entry STATIC_TABLE_def)
  have "decode_round ?d [0x82, 0x82] 0 s = Inr (?d, 1, True, Some ?h)"
    "decode_round ?d [0x82, 0x82] 1 s = Inr (?d, 2, True, Some ?h)" for s
    using i e by (simp_all add: decode_round_def)
  then have r: "decode_octets ?d [0x82, 0x82] = (Inl HeaderListTooLarge, ?d, [?h])"
    by (simp add: decode_octets_def decode_rounds.simps emit_checked_def usize_sat_add_def usize_max_def
        ENTRY_OVERHEAD_def decoder_new_def)
  have "dec_inv ?d" by (simp add: dec_inv_def decoder_new_ok) (simp add: decoder_new_def)
  from decode_octets_bounded [OF this _ r] r show ?thesis by (simp add: decoder_new_def usize_max_def)
qed

end
