(* ===== verification/Hpack_Sync.thy ===== *)
theory Hpack_Sync
  imports Hpack_Encoder Hpack_Decoder
begin

text \<open>
  The two ends of an HPACK connection together. The relation \<open>in_sync\<close> between an encoder and the
  peer's decoder (equal tables, equal limits, pending updates within the decoder's limit) is kept by
  every block and every announced table size; from it follows that blocks decode to what was encoded.
\<close>

section \<open>Tables in step\<close>

interpretation codec: table_pair e_dynamic e_max_size enc_ok enc_insert enc_resize
  d_dynamic d_max_size dec_ok dec_insert dec_resize ..

definition in_sync :: "hpack_encoder \<Rightarrow> hpack_decoder \<Rightarrow> bool" where
  "in_sync e d \<longleftrightarrow>
     enc_ok e \<and> dec_ok d \<and> e_dynamic e = d_dynamic d \<and> e_max_size e = d_max_size d \<and>
     e_max_size e \<le> e_preferred_max e \<and> e_preferred_max e \<le> d_hard_max d \<and> e_preferred_max e < 2 ^ 62 \<and>
     (\<forall>m. e_pending_size_update e = Some m \<longrightarrow> m \<le> e_preferred_max e) \<and>
     (\<forall>m. e_pending_min_size e = Some m \<longrightarrow> m \<le> e_preferred_max e)"

lemma in_sync_step: "in_sync e d \<Longrightarrow> codec.in_step e d"
  by (simp add: in_sync_def codec.in_step_def)

lemma in_sync_core: "in_sync e d \<Longrightarrow> enc_core e"
  by (simp add: in_sync_def enc_ok_def)

lemma in_sync_insert: "in_sync e d \<Longrightarrow> in_sync (enc_insert n v e) (dec_insert n v d)"
  using codec.add_in_step [OF in_sync_step, of e d n v]
  by (auto simp: in_sync_def codec.in_step_def enc_insert_spec dec_insert_spec)

lemma in_sync_resize:
  assumes "in_sync e d" "m \<le> e_preferred_max e"
  shows "in_sync (enc_resize m e) (dec_resize m d)"
  using codec.set_in_step [OF in_sync_step [OF assms(1)], of m] assms enc_resize_spec [of e m]
  by (auto simp: in_sync_def codec.in_step_def enc_ok_core dec_resize_spec)

lemma in_sync_settings:
  assumes "in_sync e d"
  shows "in_sync (set_peer_max_size peer_max e) d"
  using assms by (auto simp: in_sync_def set_peer_max_size_def Let_def enc_ok_def enc_core_def split: option.splits)

lemma in_sync_new: "in_sync encoder_new (decoder_new 4096 l)"
  using encoder_new_ok decoder_new_ok [of 4096 l] by (auto simp: in_sync_def encoder_new_def decoder_new_def)

section \<open>Indices mean the same on both sides\<close>

lemma entry_ref_static: "0 < i \<Longrightarrow> i \<le> 61 \<Longrightarrow> entry_ref d i = Some (static_entry (i - 1))"
  by (simp add: entry_ref_def static_get_entry static_entry_def case_prod_beta)

lemma entry_ref_dynamic: "k < length (d_dynamic d) \<Longrightarrow> entry_ref d (STATIC_LEN + 1 + k) = Some (d_dynamic d ! k)"
  by (simp add: entry_ref_def static_get_entry STATIC_LEN_def length_STATIC_TABLE list_get_def)

lemma in_sync_position:
  assumes "in_sync e d" "k < length (e_dynamic e)"
  shows "STATIC_LEN + 1 + k < 2 ^ 62"
proof -
  have "32 * length (e_dynamic e) \<le> e_max_size e" "e_max_size e < 2 ^ 62"
    using assms(1) enc_tbl.entry_count [of e] by (auto simp: in_sync_def)
  then show ?thesis using assms(2) by (simp add: STATIC_LEN_def)
qed

lemma index_of_field:
  assumes "in_sync e d"
    and "(case find_name_value n v of Some i \<Rightarrow> Some i
          | None \<Rightarrow> if indexable n v then find_dynamic e n v else None) = Some i"
  shows "entry_ref d i = Some (n, v) \<and> 0 < i \<and> i < 2 ^ 62"
proof (cases "find_name_value n v")
  case None
  then obtain k where k: "list_position (\<lambda>x. x = (n, v)) (e_dynamic e) = Some k" "i = STATIC_LEN + 1 + k"
    using assms(2) find_dynamic_scan [OF in_sync_core [OF assms(1)], of n v]
    by (cases "list_position (\<lambda>x. x = (n, v)) (e_dynamic e)") (auto split: if_splits)
  then show ?thesis
    using list_position_SomeD [OF k(1)] in_sync_position [OF assms(1), of k] assms(1) entry_ref_dynamic [of k d]
    by (simp add: in_sync_def)
next
  case (Some j)
  then have "j = i" using assms(2) by simp
  then show ?thesis using find_name_value_SomeD [OF Some] entry_ref_static [of i d] by simp
qed

lemma index_of_name:
  assumes "in_sync e d"
    and "(case find_name n of Some i \<Rightarrow> Some i | None \<Rightarrow> find_dynamic_name e n) = Some i"
  shows "\<exists>v. entry_ref d i = Some (n, v) \<and> 0 < i \<and> i < 2 ^ 62"
proof (cases "find_name n")
  case None
  then obtain k where k: "list_position (\<lambda>x. fst x = n) (e_dynamic e) = Some k" "i = STATIC_LEN + 1 + k"
    using assms(2) find_dynamic_name_scan [OF in_sync_core [OF assms(1)], of n] by auto
  then show ?thesis
    using list_position_SomeD [OF k(1)] in_sync_position [OF assms(1), of k] assms(1) entry_ref_dynamic [of k d]
    by (auto simp: in_sync_def intro: exI [of _ "snd (d_dynamic d ! k)"])
next
  case (Some j)
  then have "j = i" using assms(2) by simp
  then show ?thesis
    using find_name_SomeD [OF Some] entry_ref_static [of i d] by (cases "static_entry (i - 1)") simp
qed

section \<open>One field\<close>

lemma flag_octet: "1 \<le> k \<Longrightarrow> int_encode [] 0 k flag = [flag]"
proof -
  assume "1 \<le> k"
  then have "(0 :: u64) < mask k" by (auto simp: word_gt_0 bit_eq_iff bit_simps intro: exI [of _ 0])
  then show ?thesis by (simp add: int_encode_mask)
qed

text \<open>A name is written as an integer, 0 for a literal name, followed by the literal if so.\<close>

lemma encode_name_spec:
  assumes "in_sync e d" "memo_ok memo" "1 \<le> k" "encode_name e pre n k flag memo = (out, memo')"
  shows "\<exists>i lit. out = pre @ int_encode [] (of_nat i) k flag @ lit \<and> i < 2 ^ 62 \<and> memo_ok memo' \<and>
    (i = 0 \<and> lit = encode_string_literal [] n \<or> 0 < i \<and> lit = [] \<and> (\<exists>v. entry_ref d i = Some (n, v)))"
proof (cases "case find_name n of Some i \<Rightarrow> Some i | None \<Rightarrow> find_dynamic_name e n")
  case None
  then have "encode_string_bytes (pre @ [flag]) n memo = (out, memo')"
    using assms(4) by (simp add: encode_name_def)
  from encode_string_bytes_spec(1,2) [OF assms(2) this]
  have "out = pre @ int_encode [] (of_nat 0) k flag @ encode_string_literal [] n" "memo_ok memo'"
    using flag_octet [OF assms(3), of flag] by simp_all
  then show ?thesis by (intro exI [of _ 0] exI [of _ "encode_string_literal [] n"]) simp
next
  case (Some i)
  then show ?thesis
    using index_of_name [OF assms(1) Some] assms(2,4) int_encode_append [of pre]
    by (intro exI [of _ i] exI [of _ "[]"]) (auto simp: encode_name_def)
qed

lemma read_literal_encoded:
  assumes "in_sync e d" "memo_ok memo" "encode_name e pre n k flag memo = (out1, memo1)"
    and "1 \<le> k" "k \<le> 8" "take_bit k flag = 0" "length n < 2 ^ 63" "length v < 2 ^ 63"
    and "out2 = out1 @ encode_string_literal [] v" "length (out2 @ rest) \<le> usize_max"
  shows "read_literal d (out2 @ rest) (length pre) k = Inr ((n, v), length out2)"
    and "\<exists>b bs. out2 = pre @ b # bs \<and> (\<forall>i \<ge> k. bit b i = bit flag i)"
proof -
  obtain i lit where il: "out1 = pre @ int_encode [] (of_nat i) k flag @ lit" "i < 2 ^ 62"
    "i = 0 \<and> lit = encode_string_literal [] n \<or> 0 < i \<and> lit = [] \<and> (\<exists>v. entry_ref d i = Some (n, v))"
    using encode_name_spec [OF assms(1,2,4,3)] by blast
  let ?i = "int_encode [] (of_nat i) k flag" and ?v = "encode_string_literal [] v"
  have u: "unat (of_nat i :: u64) = i" using il(2) by (simp add: unat_of_nat)
  have buf: "out2 @ rest = pre @ ?i @ (lit @ ?v @ rest)" using assms(9) il(1) by simp
  have int: "int_decode (out2 @ rest) (length pre) k = Some (of_nat i, length (pre @ ?i))"
    unfolding buf using int_decode_encode [OF assms(4,5,6), of pre "of_nat i" "lit @ ?v @ rest"] u il(2) by simp
  have val: "decode_string (out2 @ rest) (length out1) = Inr (v, length out2)"
    using decode_string_literal [OF assms(8), of out1 rest] assms(9,10) by simp
  have name: "decode_string (out2 @ rest) (length (pre @ ?i)) = Inr (n, length out1)" if "i = 0"
    using decode_string_literal [OF assms(7), of "pre @ ?i" "?v @ rest"] assms(10) il(1,3) that
    unfolding buf by simp
  show "read_literal d (out2 @ rest) (length pre) k = Inr ((n, v), length out2)"
    using il(1,3) int val name u by (auto simp: read_literal_def)
  show "\<exists>b bs. out2 = pre @ b # bs \<and> (\<forall>i \<ge> k. bit b i = bit flag i)"
    using int_encode_hd [OF assms(4,5), of "of_nat i" flag] assms(9) il(1) by fastforce
qed

lemma encode_field_round:
  assumes "in_sync e d" "memo_ok memo" "encode_field e pre n v memo = (e', out, memo')"
    and "length n < 2 ^ 63" "length v < 2 ^ 63" "length (out @ rest) \<le> usize_max"
  shows "\<exists>d'. decode_round d (out @ rest) (length pre) seen = Inr (d', length out, True, Some (n, v)) \<and>
    in_sync e' d' \<and> memo_ok memo' \<and> length pre < length out \<and>
    e_pending_size_update e' = e_pending_size_update e \<and> d_max_list_size d' = d_max_list_size d \<and>
    (\<exists>w. out = pre @ w)"
proof (cases "case find_name_value n v of Some i \<Rightarrow> Some i
    | None \<Rightarrow> if indexable n v then find_dynamic e n v else None")
  case (Some i)
  note idx = index_of_field [OF assms(1) Some]
  have out: "out = pre @ int_encode [] (of_nat i) 7 0x80" "e' = e" "memo' = memo"
    using assms(3) Some by (auto simp: encode_field_def int_encode_append [of pre])
  have u: "unat (of_nat i :: u64) = i" using idx by (simp add: unat_of_nat)
  obtain b bs where b: "int_encode [] (of_nat i) 7 0x80 = b # bs" "bit b 7"
    using int_encode_hd [of 7 "of_nat i" "0x80"] by (auto simp: bit_simps)
  have "int_decode (out @ rest) (length pre) 7 = Some (of_nat i, length out)"
    using int_decode_encode [of 7 "0x80" pre "of_nat i" rest] idx u out by simp
  then show ?thesis
    using assms(1,2) idx u b out by (auto simp: decode_round_def octet_flag_bits nth_append)
next
  case None
  show ?thesis
  proof (cases "indexable n v")
    case True
    obtain out1 memo1 where o1: "encode_name e pre n 6 0x40 memo = (out1, memo1)" by (metis surj_pair)
    have m1: "memo_ok memo1" using encode_name_spec [OF assms(1,2) _ o1] by auto
    obtain out2 memo2 where o2: "encode_string_bytes out1 v memo1 = (out2, memo2)" by (metis surj_pair)
    note r = encode_string_bytes_spec(1,2) [OF m1 o2]
    have e: "e' = enc_insert n v e" "out = out2" "memo' = memo2"
      using assms(3) None True o1 o2 by (auto simp: encode_field_def)
    note lit = read_literal_encoded [OF assms(1,2) o1 _ _ _ assms(4,5) r(1), of rest]
    obtain b bs where b: "out2 = pre @ b # bs" "\<forall>i \<ge> 6. bit b i = bit (0x40 :: u8) i"
      using lit(2) assms(6) e(2) by (auto simp: take_bit_eq_0_iff)
    have bits: "\<not> bit b 7" "bit b 6" using b(2) by (simp_all add: bit_simps)
    have "read_literal d (out @ rest) (length pre) 6 = Inr ((n, v), length out)"
      using lit(1) assms(6) e(2) by (simp add: take_bit_eq_0_iff)
    then show ?thesis
      using b(1) bits e in_sync_insert [OF assms(1)] r(2) assms(1)
      by (auto simp: decode_round_def octet_flag_bits nth_append in_sync_def enc_insert_spec dec_insert_spec)
  next
    case False
    obtain out1 memo1 where o1: "encode_name e pre n 4 0x00 memo = (out1, memo1)" by (metis surj_pair)
    have m1: "memo_ok memo1" using encode_name_spec [OF assms(1,2) _ o1] by auto
    obtain out2 memo2 where o2: "(if value_is_secret n then (encode_string_literal out1 v, memo1)
        else encode_string_bytes out1 v memo1) = (out2, memo2)" by (metis surj_pair)
    have r: "out2 = out1 @ encode_string_literal [] v" "memo_ok memo2"
      using encode_string_bytes_spec(1,2) [OF m1] o2 m1 encode_string_literal_append [of out1 v]
      by (auto split: if_splits)
    have e: "e' = e" "out = out2" "memo' = memo2"
      using assms(3) None False o1 o2 by (auto simp: encode_field_def)
    note lit = read_literal_encoded [OF assms(1,2) o1 _ _ _ assms(4,5) r(1), of rest]
    obtain b bs where b: "out2 = pre @ b # bs" "\<forall>i \<ge> 4. bit b i = bit (0 :: u8) i"
      using lit(2) assms(6) e(2) by auto
    have bits: "\<not> bit b 7" "\<not> bit b 6" "\<not> bit b 5" using b(2) by simp_all
    have "read_literal d (out @ rest) (length pre) 4 = Inr ((n, v), length out)"
      using lit(1) assms(6) e(2) by simp
    then show ?thesis
      using b(1) bits e assms(1) r(2) by (auto simp: decode_round_def octet_flag_bits nth_append)
  qed
qed

section \<open>Size updates\<close>

lemma resize_round:
  assumes "in_sync e d" "m \<le> e_preferred_max e"
  shows "decode_round d (int_encode pre (of_nat m) 5 0x20 @ rest) (length pre) False =
    Inr (dec_resize m d, length (int_encode pre (of_nat m) 5 0x20), False, None)"
proof -
  let ?i = "int_encode [] (of_nat m) 5 0x20"
  have m: "m < 2 ^ 62" "m \<le> d_hard_max d" using assms by (auto simp: in_sync_def)
  then have u: "unat (of_nat m :: u64) = m" by (simp add: unat_of_nat)
  obtain b bs where b: "?i = b # bs" "\<forall>i \<ge> 5. bit b i = bit (0x20 :: u8) i"
    using int_encode_hd [of 5 "of_nat m" "0x20"] by auto
  have bits: "\<not> bit b 7" "\<not> bit b 6" "bit b 5" using b(2) by (simp_all add: bit_simps)
  have "int_decode (pre @ ?i @ rest) (length pre) 5 = Some (of_nat m, length (pre @ ?i))"
    using int_decode_encode [of 5 "0x20" pre "of_nat m" rest] u m by (simp add: take_bit_eq_0_iff)
  then show ?thesis
    using b(1) bits u m
    by (simp add: int_encode_append [of pre] decode_round_def octet_flag_bits nth_append set_max_size_def)
qed

lemma resize_rounds:
  assumes "in_sync e d" "m \<le> e_preferred_max e" "emit_resize m (e, pre) = (e', out)"
  shows "in_sync e' (dec_resize m d)" "e_preferred_max e' = e_preferred_max e"
    "e_pending_size_update e' = e_pending_size_update e" "e_pending_min_size e' = e_pending_min_size e"
    "\<exists>w. out = pre @ w"
    "decode_rounds d (out @ rest) (length pre) False st = decode_rounds (dec_resize m d) (out @ rest) (length out) False st"
proof -
  have e: "e' = enc_resize m e" "out = int_encode pre (of_nat m) 5 0x20"
    using assms(3) by (simp_all add: emit_resize_def)
  show "in_sync e' (dec_resize m d)" using in_sync_resize [OF assms(1,2)] e by simp
  show "e_preferred_max e' = e_preferred_max e" "e_pending_size_update e' = e_pending_size_update e"
    "e_pending_min_size e' = e_pending_min_size e"
    using enc_resize_spec [OF in_sync_core [OF assms(1)]] e by simp_all
  have w: "out = pre @ int_encode [] (of_nat m) 5 0x20" by (simp add: e int_encode_append [of pre])
  then show "\<exists>w. out = pre @ w" by blast
  have "length pre < length (out @ rest)"
    using w int_encode_nonempty [of "of_nat m" 5 "0x20"] by (cases "int_encode [] (of_nat m) 5 0x20") auto
  then show "decode_rounds d (out @ rest) (length pre) False st = decode_rounds (dec_resize m d) (out @ rest) (length out) False st"
    using resize_round [OF assms(1,2), of pre rest] e by (simp add: decode_rounds.simps [of d])
qed

lemma in_sync_pending: "in_sync e d \<Longrightarrow> in_sync (e\<lparr>e_pending_size_update := None, e_pending_min_size := None\<rparr>) d"
  by (auto simp: in_sync_def enc_ok_def enc_core_def)

lemma emit_size_update_rounds:
  assumes "in_sync e d" "emit_size_update e pre = (e', out)" "e_pending_size_update e = None \<or> \<not> seen"
  shows "\<exists>d'. in_sync e' d' \<and> e_pending_size_update e' = None \<and> d_max_list_size d' = d_max_list_size d \<and>
    (\<exists>w. out = pre @ w) \<and>
    decode_rounds d (out @ rest) (length pre) seen st = decode_rounds d' (out @ rest) (length out) seen st"
proof (cases "e_pending_size_update e")
  case None
  then have "e' = e\<lparr>e_pending_min_size := None\<rparr>" "out = pre" using assms(2) by (auto simp: emit_size_update_def)
  then show ?thesis using assms(1) None by (auto simp: in_sync_def enc_ok_def enc_core_def)
next
  case (Some m)
  then have seen: "\<not> seen" using assms(3) by simp
  let ?e = "e\<lparr>e_pending_size_update := None, e_pending_min_size := None\<rparr>"
  define mn where "mn = (case e_pending_min_size e of None \<Rightarrow> m | Some x \<Rightarrow> x)"
  have le: "m \<le> e_preferred_max e" "mn \<le> e_preferred_max e"
    using assms(1) Some by (auto simp: in_sync_def mn_def split: option.splits)
  note sync = in_sync_pending [OF assms(1)]
  have dl: "d_max_list_size (dec_resize k x) = d_max_list_size x" if "dec_ok x" for k x
    using that by (simp add: dec_resize_spec)
  show ?thesis
  proof (cases "mn < m")
    case True
    obtain e1 out1 where o1: "emit_resize mn (?e, pre) = (e1, out1)" by (metis surj_pair)
    have le1: "mn \<le> e_preferred_max ?e" using le by simp
    note r1 = resize_rounds [OF sync le1 o1]
    have o2: "emit_resize m (e1, out1) = (e', out)"
      using assms(2) Some True o1 by (simp add: emit_size_update_def mn_def Let_def)
    have le2: "m \<le> e_preferred_max e1" using r1(2) le by simp
    note r2 = resize_rounds [OF r1(1) le2 o2]
    obtain w1 w2 where w: "out1 = pre @ w1" "out = out1 @ w2" using r1(5) r2(5) by auto
    have "decode_rounds d (out @ rest) (length pre) False st =
        decode_rounds (dec_resize m (dec_resize mn d)) (out @ rest) (length out) False st"
      using r1(6) [of "w2 @ rest" st] r2(6) [of rest st] w by simp
    then show ?thesis
      using r1 r2 w seen dl assms(1)
      by (intro exI [of _ "dec_resize m (dec_resize mn d)"]) (auto simp: in_sync_def)
  next
    case False
    then have o: "emit_resize m (?e, pre) = (e', out)"
      using assms(2) Some by (simp add: emit_size_update_def mn_def Let_def)
    have le1: "m \<le> e_preferred_max ?e" using le by simp
    note r = resize_rounds [OF sync le1 o]
    then show ?thesis using seen dl assms(1) by (intro exI [of _ "dec_resize m d"]) (auto simp: in_sync_def)
  qed
qed

section \<open>One header, one block\<close>

lemma encode_header_rounds:
  assumes "in_sync e d" "memo_ok memo" "encode_header e pre n v memo = (e', out, memo')"
    and "length n < 2 ^ 63" "length v < 2 ^ 63" "length (out @ rest) \<le> usize_max"
    and "e_pending_size_update e = None \<or> \<not> seen"
  shows "\<exists>d'. in_sync e' d' \<and> memo_ok memo' \<and> e_pending_size_update e' = None \<and>
    d_max_list_size d' = d_max_list_size d \<and> (\<exists>w. out = pre @ w) \<and>
    decode_rounds d (out @ rest) (length pre) seen st =
      decode_rounds d' (out @ rest) (length out) True (emit_checked (d_max_list_size d) (n, v) st)"
proof -
  obtain e1 out1 where o1: "emit_size_update e pre = (e1, out1)" by (metis surj_pair)
  have f: "encode_field e1 out1 n v memo = (e', out, memo')" using assms(3) o1 by (simp add: encode_header_def)
  obtain d0 where d0: "in_sync e1 d0"
    using emit_size_update_rounds [OF assms(1) o1 assms(7), of "[]" st] by blast
  obtain w where w: "out = out1 @ w" using encode_field_round [OF d0 assms(2) f assms(4-6)] by blast
  obtain d1 where d1: "in_sync e1 d1" "e_pending_size_update e1 = None" "d_max_list_size d1 = d_max_list_size d"
    "\<exists>w. out1 = pre @ w"
    "decode_rounds d (out1 @ w @ rest) (length pre) seen st = decode_rounds d1 (out1 @ w @ rest) (length out1) seen st"
    using emit_size_update_rounds [OF assms(1) o1 assms(7), of "w @ rest" st] by blast
  obtain d' where d': "decode_round d1 (out @ rest) (length out1) seen = Inr (d', length out, True, Some (n, v))"
    "in_sync e' d'" "memo_ok memo'" "length out1 < length out"
    "e_pending_size_update e' = e_pending_size_update e1" "d_max_list_size d' = d_max_list_size d1"
    using encode_field_round [OF d1(1) assms(2) f assms(4-6)] by blast
  have "decode_rounds d1 (out @ rest) (length out1) seen st =
      decode_rounds d' (out @ rest) (length out) True (emit_checked (d_max_list_size d1) (n, v) st)"
    using d'(1,4) by (simp add: decode_rounds.simps [of d1])
  then show ?thesis using d1 d' w by (intro exI [of _ d']) auto
qed

primrec encode_headers ::
  "header list \<Rightarrow> hpack_encoder \<times> bytes \<times> literal_memo \<Rightarrow> hpack_encoder \<times> bytes \<times> literal_memo" where
  "encode_headers [] st = st"
| "encode_headers (h # hs) st =
     (let (e, out, memo) = st in encode_headers hs (encode_header e out (fst h) (snd h) memo))"


lemma encode_string_bytes_appends: "\<exists>w. fst (encode_string_bytes out raw memo) = out @ w"
  using encode_string_literal_append [of out raw]
  by (auto simp: encode_string_bytes_def Let_def split: prod.splits option.splits)

lemma emit_size_update_appends: "\<exists>w. snd (emit_size_update e out) = out @ w"
proof -
  have r: "\<exists>w. snd (emit_resize m st) = snd st @ w" for m st
    using int_encode_append [of "snd st"] by (cases st) (auto simp: emit_resize_def)
  show ?thesis
  proof (cases "e_pending_size_update e")
    case (Some m)
    define mn where "mn = (case e_pending_min_size e of None \<Rightarrow> m | Some x \<Rightarrow> x)"
    define st where "st = (let e1 = e\<lparr>e_pending_size_update := None, e_pending_min_size := None\<rparr> in
      if mn < m then emit_resize mn (e1, out) else (e1, out))"
    have "\<exists>w. snd st = out @ w" using r [of mn "(_, out)"] by (auto simp: st_def Let_def)
    then have "\<exists>w. snd (emit_resize m st) = out @ w" using r [of m st] by auto
    moreover have "emit_size_update e out = emit_resize m st"
      unfolding st_def mn_def by (simp only: emit_size_update_def Some option.case Let_def)
    ultimately show ?thesis by simp
  qed (simp add: emit_size_update_def)
qed

lemma encode_field_appends: "\<exists>w. fst (snd (encode_field e out n v memo)) = out @ w"
proof -
  have name: "\<exists>w. fst (encode_name e out n k flag memo) = out @ w" for k flag
    using encode_string_bytes_appends [of "out @ [flag]" n memo] int_encode_append [of out]
    by (auto simp: encode_name_def split: option.splits)
  have str: "\<exists>w. fst (encode_string_bytes o1 v m1) = out @ w"
    "\<exists>w. encode_string_literal o1 v = out @ w" if "\<exists>w. o1 = out @ w" for o1 m1
    using that encode_string_bytes_appends [of o1 v m1] encode_string_literal_append [of o1 v] by auto
  obtain o6 m6 o4 m4 where o: "encode_name e out n 6 0x40 memo = (o6, m6)" "encode_name e out n 4 0x00 memo = (o4, m4)"
    by (metis surj_pair)
  obtain w6 w4 where w: "o6 = out @ w6" "o4 = out @ w4" using name [of 6 "0x40"] name [of 4 0] o by auto
  show ?thesis
    using str(1) [of o6 m6] str(1) [of o4 m4] str(2) [of o4] w int_encode_append [of out]
    by (auto simp: encode_field_def o Let_def split: option.splits prod.splits)
qed

lemma encode_header_appends: "\<exists>w. fst (snd (encode_header e out n v memo)) = out @ w"
proof -
  obtain e1 o1 where o: "emit_size_update e out = (e1, o1)" by (metis surj_pair)
  show ?thesis
    using emit_size_update_appends [of e out] encode_field_appends [of e1 o1 n v memo] o
    by (auto simp: encode_header_def)
qed

lemma encode_headers_appends: "\<exists>w. fst (snd (encode_headers hs st)) = fst (snd st) @ w"
proof (induction hs arbitrary: st)
  case (Cons h hs)
  obtain e out memo where st: "st = (e, out, memo)" by (metis prod_cases3)
  show ?case
    using encode_header_appends [of e out "fst h" "snd h" memo]
      Cons [of "encode_header e out (fst h) (snd h) memo"] by (auto simp: st)
qed simp

lemma encode_headers_rounds:
  assumes "in_sync e d" "memo_ok memo" "encode_headers hs (e, pre, memo) = (e', out, memo')"
    and "\<forall>(n, v) \<in> set hs. length n < 2 ^ 63 \<and> length v < 2 ^ 63" "length out \<le> usize_max"
    and "e_pending_size_update e = None \<or> \<not> seen"
  shows "\<exists>d' seen'. in_sync e' d' \<and> memo_ok memo' \<and> (hs \<noteq> [] \<longrightarrow> e_pending_size_update e' = None) \<and>
    d_max_list_size d' = d_max_list_size d \<and>
    decode_rounds d out (length pre) seen st =
      decode_rounds d' out (length out) seen' (fold (emit_checked (d_max_list_size d)) hs st)"
  using assms
proof (induction hs arbitrary: e d pre memo seen st)
  case Nil
  then show ?case by auto
next
  case (Cons h hs)
  obtain n v where h: "h = (n, v)" by fastforce
  obtain e1 out1 memo1 where o1: "encode_header e pre n v memo = (e1, out1, memo1)" by (metis prod_cases3)
  have tail: "encode_headers hs (e1, out1, memo1) = (e', out, memo')" using Cons.prems(3) o1 h by simp
  obtain w where w: "out = out1 @ w" using encode_headers_appends [of hs "(e1, out1, memo1)"] tail by auto
  obtain d1 where d1: "in_sync e1 d1" "memo_ok memo1" "e_pending_size_update e1 = None"
    "d_max_list_size d1 = d_max_list_size d"
    "decode_rounds d (out1 @ w) (length pre) seen st =
      decode_rounds d1 (out1 @ w) (length out1) True (emit_checked (d_max_list_size d) (n, v) st)"
    using encode_header_rounds [OF Cons.prems(1,2) o1 _ _ _ Cons.prems(6), of w st] Cons.prems(4,5) w h by auto
  have "\<forall>(n, v) \<in> set hs. length n < 2 ^ 63 \<and> length v < 2 ^ 63" using Cons.prems(4) by simp
  from Cons.IH [OF d1(1,2) tail this Cons.prems(5), of True "emit_checked (d_max_list_size d) (n, v) st"]
  show ?case using d1 w h by (cases "hs = []") (use tail in auto)
qed

lemma emit_checked_listed:
  "fst (fold (emit_checked l) hs (listed, es)) = (if hs = [] then listed else min (listed + total_size hs) usize_max)"
proof (induction hs arbitrary: listed es)
  case (Cons h hs)
  obtain listed1 es1 where s: "emit_checked l h (listed, es) = (listed1, es1)" by (metis surj_pair)
  then have "listed1 = min (listed + entry_size h) usize_max"
    by (cases h) (auto simp: emit_checked_def usize_sat_add_def entry_size_def Let_def)
  then show ?case using Cons [of listed1 es1] s by (auto simp: min_def)
qed simp

lemma emit_checked_all:
  assumes "listed + total_size hs \<le> l" "l < usize_max"
  shows "fold (emit_checked l) hs (listed, es) = (listed + total_size hs, es @ hs)"
  using assms(1)
proof (induction hs arbitrary: listed es)
  case (Cons h hs)
  have "emit_checked l h (listed, es) = (listed + entry_size h, es @ [h])"
    using Cons.prems assms(2) by (cases h) (simp add: emit_checked_def usize_sat_add_def entry_size_def)
  then show ?case using Cons by simp
qed simp

lemma block_roundtrip:
  assumes "in_sync e d" "memo_ok memo" "encode_headers hs (e, [], memo) = (e', out, memo')"
    and "\<forall>(n, v) \<in> set hs. length n < 2 ^ 63 \<and> length v < 2 ^ 63" "length out \<le> usize_max"
    and "d_max_list_size d < usize_max"
  shows "\<exists>d' es. decode_octets d out =
      (if total_size hs \<le> d_max_list_size d then (Inr (), d', hs) else (Inl HeaderListTooLarge, d', es)) \<and>
    in_sync e' d' \<and> memo_ok memo' \<and> d_max_list_size d' = d_max_list_size d"
proof -
  let ?st = "fold (emit_checked (d_max_list_size d)) hs (0, [])"
  obtain d' seen' where d': "in_sync e' d'" "memo_ok memo'" "d_max_list_size d' = d_max_list_size d"
    "decode_rounds d out 0 False (0, []) = decode_rounds d' out (length out) seen' ?st"
    using encode_headers_rounds [OF assms(1-5), of False "(0, [])"] by auto
  have "fst ?st > d_max_list_size d \<longleftrightarrow> total_size hs > d_max_list_size d"
    using assms(6) emit_checked_listed [of "d_max_list_size d" hs 0 "[]"] by auto
  moreover have "snd ?st = hs" if "total_size hs \<le> d_max_list_size d"
    using emit_checked_all [of 0 hs "d_max_list_size d" "[]"] that assms(6) by simp
  ultimately show ?thesis
    using d' by (auto simp: decode_octets_def decode_rounds.simps [of d'] intro!: exI [of _ d'])
qed

section \<open>A connection\<close>

text \<open>
  The two ends of a connection: the encoder with its thread's memo, and the peer's decoder. Between
  blocks the peer may announce a new table size any number of times; every block is sent and
  decoded whole.
\<close>

inductive hpack_step ::
  "hpack_encoder \<times> literal_memo \<times> hpack_decoder \<Rightarrow> hpack_encoder \<times> literal_memo \<times> hpack_decoder \<Rightarrow> bool" where
  settings: "hpack_step (e, memo, d) (set_peer_max_size peer_max e, memo, d)"
| block: "encode_headers hs (e, [], memo) = (e', out, memo') \<Longrightarrow>
    \<forall>(n, v) \<in> set hs. length n < 2 ^ 63 \<and> length v < 2 ^ 63 \<Longrightarrow> length out \<le> usize_max \<Longrightarrow>
    decode_octets d out = (r, d', es) \<Longrightarrow> hpack_step (e, memo, d) (e', memo', d')"
| other_thread_use: "encode_string_bytes pre raw memo = (out, memo') \<Longrightarrow> hpack_step (e, memo, d) (e, memo', d)"

inductive hpack_reach :: "nat \<Rightarrow> hpack_encoder \<times> literal_memo \<times> hpack_decoder \<Rightarrow> bool" for list_limit where
  init: "hpack_reach list_limit (encoder_new, memo_empty, decoder_new 4096 list_limit)"
| step: "hpack_reach list_limit s \<Longrightarrow> hpack_step s t \<Longrightarrow> hpack_reach list_limit t"

lemma hpack_reach_sync:
  assumes "hpack_reach l s" "l < usize_max"
  shows "case s of (e, memo, d) \<Rightarrow> in_sync e d \<and> memo_ok memo \<and> d_max_list_size d = l"
  using assms(1)
proof induction
  case init
  show ?case using in_sync_new [of l] memo_ok_empty by (simp add: decoder_new_def)
next
  case (step s t)
  from step.hyps(2) step.IH show ?case
  proof cases
    case (block hs e memo e' out memo' d r d' es)
    have sync: "in_sync e d" "memo_ok memo" "d_max_list_size d = l" using step.IH block by auto
    obtain d1 es1 where "decode_octets d out =
        (if total_size hs \<le> d_max_list_size d then (Inr (), d1, hs) else (Inl HeaderListTooLarge, d1, es1))"
      "in_sync e' d1" "memo_ok memo'" "d_max_list_size d1 = l"
      using block_roundtrip [OF sync(1,2) block(3-5)] sync(3) assms(2) by auto
    then show ?thesis using block by (auto split: if_splits)
  qed (auto simp: in_sync_settings dest: encode_string_bytes_spec(2))
qed

section \<open>Properties\<close>

text \<open>
  C1. HPACK round trip over a whole connection. In every state that the two ends of a connection
  can reach, by any blocks sent and any table sizes announced between them, a block of headers decodes
  to exactly the headers that were encoded, in order; a header list over the advertised size is
  refused as such. In both cases the tables of the two ends agree afterwards.
\<close>

theorem hpack_connection_roundtrip:
  assumes "hpack_reach l (e, memo, d)" "l < usize_max" "encode_headers hs (e, [], memo) = (e', out, memo')"
    and "\<forall>(n, v) \<in> set hs. length n < 2 ^ 63 \<and> length v < 2 ^ 63" "length out \<le> usize_max"
  shows "\<exists>d' es. decode_octets d out =
      (if total_size hs \<le> l then (Inr (), d', hs) else (Inl HeaderListTooLarge, d', es)) \<and>
    e_dynamic e' = d_dynamic d' \<and> e_max_size e' = d_max_size d'"
proof -
  have s: "in_sync e d" "memo_ok memo" "d_max_list_size d = l" using hpack_reach_sync [OF assms(1,2)] by auto
  from block_roundtrip [OF s(1,2) assms(3-5)] show ?thesis using assms(2) s(3) by (auto simp: in_sync_def)
qed

theorem hpack_connection_roundtrip_witness:
  "\<exists>d'. decode_octets (decoder_new 4096 64) [0x82] =
     (Inr (), d', [(str_bytes '':method'', str_bytes ''GET'')]) \<and> d_dynamic d' = []"
proof -
  let ?h = "(str_bytes '':method'', str_bytes ''GET'')"
  have "find_name_value (fst ?h) (snd ?h) = Some 2" by code_simp
  then have enc: "encode_headers [?h] (encoder_new, [], memo_empty) = (encoder_new, [0x82], memo_empty)"
    by (simp add: encode_header_def emit_size_update_def encode_field_def encoder_new_def int_encode_mask
        mask_eq_exp_minus_1)
  show ?thesis
    using hpack_connection_roundtrip [OF hpack_reach.init _ enc, of 64]
    by (auto simp: usize_max_def entry_size_def ENTRY_OVERHEAD_def encoder_new_def)
qed

text \<open>
  C15. The memo of long literals never holds a secret: encoding a credential or cookie header, in
  any encoder state and with a value of any length, leaves the memo exactly as it was.
\<close>

theorem secret_values_not_remembered:
  assumes "value_is_secret n" "encode_header e out n v memo = (e', out', memo')"
  shows "memo' = memo"
proof -
  have short: "length raw < 257 \<Longrightarrow> snd (encode_string_bytes o1 raw m) = m" for o1 raw m
    by (simp add: encode_string_bytes_def LONG_LITERAL_MIN_def)
  have n: "length n < 257" using assms(1) by (auto simp: value_is_secret_def)
  have name: "snd (encode_name f o1 n k flag m) = m" for f o1 k flag m
    using short [OF n] by (auto simp: encode_name_def split: option.splits)
  have val: "snd (encode_string_bytes o1 v m) = m" if "indexable n v" for o1 m
    using that by (intro short) (simp add: indexable_def)
  obtain e1 o1 where "emit_size_update e out = (e1, o1)" by (metis surj_pair)
  then have f: "encode_field e1 o1 n v memo = (e', out', memo')" using assms(2) by (simp add: encode_header_def)
  obtain o6 m6 o4 m4 where o: "encode_name e1 o1 n 6 0x40 memo = (o6, m6)" "encode_name e1 o1 n 4 0x00 memo = (o4, m4)"
    by (metis surj_pair)
  have m: "m6 = memo" "m4 = memo" using name [of e1 o1 6 "0x40" memo] name [of e1 o1 4 0 memo] o by simp_all
  then show ?thesis
    using f assms(1) val [of o6 memo]
    by (auto simp: encode_field_def o split: option.splits if_splits)
qed

theorem secret_values_not_remembered_witness:
  "value_is_secret (str_bytes ''cookie'') \<and>
   snd (snd (encode_header encoder_new [] (str_bytes ''cookie'') (replicate 300 65) memo_empty)) = memo_empty"
proof -
  obtain e' out' memo' where e: "encode_header encoder_new [] (str_bytes ''cookie'') (replicate 300 65) memo_empty =
      (e', out', memo')" by (metis prod_cases3)
  have s: "value_is_secret (str_bytes ''cookie'')" by (simp add: value_is_secret_def)
  show ?thesis using secret_values_not_remembered [OF s e] e s by simp
qed

end
