(* ===== verification/H2_Frame.thy ===== *)
theory H2_Frame
  imports HJ_Prelude
begin

text \<open>
  The HTTP/2 frame codec: \<open>hj-h2/src/frame.rs\<close>, the splitting of a field block into HEADERS and
  CONTINUATION frames (\<open>write_field_block\<close> of \<open>server/send.rs\<close>) and the way the connection loop of
  \<open>server/mod.rs\<close> cuts the next frame off the input buffer (\<open>next_frame\<close>).

  The locale \<open>wire_format\<close> is the contract of a self-delimiting wire format: a writer that appends
  to the output, and a reader that takes one item off the front of the input. Its one theorem is
  that a sequence of items written one after the other is read back item by item, whatever
  follows. It is interpreted on the HTTP/2 frames here and on the record formats of the back-end
  protocols in their own theories.
\<close>

named_theorems h2_consts \<open>values of the protocol constants\<close>

section \<open>Constants\<close>

text \<open>Frame types (\<open>mod kind\<close>).\<close>

definition kind_DATA :: u8 where [h2_consts]: "kind_DATA = 0x0"
definition kind_HEADERS :: u8 where [h2_consts]: "kind_HEADERS = 0x1"
definition kind_PRIORITY :: u8 where [h2_consts]: "kind_PRIORITY = 0x2"
definition kind_RST_STREAM :: u8 where [h2_consts]: "kind_RST_STREAM = 0x3"
definition kind_SETTINGS :: u8 where [h2_consts]: "kind_SETTINGS = 0x4"
definition kind_PUSH_PROMISE :: u8 where [h2_consts]: "kind_PUSH_PROMISE = 0x5"
definition kind_PING :: u8 where [h2_consts]: "kind_PING = 0x6"
definition kind_GOAWAY :: u8 where [h2_consts]: "kind_GOAWAY = 0x7"
definition kind_WINDOW_UPDATE :: u8 where [h2_consts]: "kind_WINDOW_UPDATE = 0x8"
definition kind_CONTINUATION :: u8 where [h2_consts]: "kind_CONTINUATION = 0x9"

text \<open>Frame flags (\<open>mod flags\<close>).\<close>

definition flag_ACK :: u8 where [h2_consts]: "flag_ACK = 0x1"
definition flag_END_STREAM :: u8 where [h2_consts]: "flag_END_STREAM = 0x1"
definition flag_END_HEADERS :: u8 where [h2_consts]: "flag_END_HEADERS = 0x4"
definition flag_PADDED :: u8 where [h2_consts]: "flag_PADDED = 0x8"
definition flag_PRIORITY :: u8 where [h2_consts]: "flag_PRIORITY = 0x20"

text \<open>SETTINGS identifiers (\<open>mod settings\<close>).\<close>

definition set_HEADER_TABLE_SIZE :: u16 where [h2_consts]: "set_HEADER_TABLE_SIZE = 0x1"
definition set_ENABLE_PUSH :: u16 where [h2_consts]: "set_ENABLE_PUSH = 0x2"
definition set_MAX_CONCURRENT_STREAMS :: u16 where [h2_consts]: "set_MAX_CONCURRENT_STREAMS = 0x3"
definition set_INITIAL_WINDOW_SIZE :: u16 where [h2_consts]: "set_INITIAL_WINDOW_SIZE = 0x4"
definition set_MAX_FRAME_SIZE :: u16 where [h2_consts]: "set_MAX_FRAME_SIZE = 0x5"
definition set_MAX_HEADER_LIST_SIZE :: u16 where [h2_consts]: "set_MAX_HEADER_LIST_SIZE = 0x6"

text \<open>Error codes (\<open>mod error_code\<close>).\<close>

definition err_NO_ERROR :: u32 where [h2_consts]: "err_NO_ERROR = 0x0"
definition err_PROTOCOL_ERROR :: u32 where [h2_consts]: "err_PROTOCOL_ERROR = 0x1"
definition err_INTERNAL_ERROR :: u32 where [h2_consts]: "err_INTERNAL_ERROR = 0x2"
definition err_FLOW_CONTROL_ERROR :: u32 where [h2_consts]: "err_FLOW_CONTROL_ERROR = 0x3"
definition err_STREAM_CLOSED :: u32 where [h2_consts]: "err_STREAM_CLOSED = 0x5"
definition err_FRAME_SIZE_ERROR :: u32 where [h2_consts]: "err_FRAME_SIZE_ERROR = 0x6"
definition err_REFUSED_STREAM :: u32 where [h2_consts]: "err_REFUSED_STREAM = 0x7"
definition err_CANCEL :: u32 where [h2_consts]: "err_CANCEL = 0x8"
definition err_COMPRESSION_ERROR :: u32 where [h2_consts]: "err_COMPRESSION_ERROR = 0x9"
definition err_ENHANCE_YOUR_CALM :: u32 where [h2_consts]: "err_ENHANCE_YOUR_CALM = 0xb"

section \<open>The frame header\<close>

record frame_header =
  fh_length :: u32
  fh_kind :: u8
  fh_flags :: u8
  fh_stream_id :: u32

definition frame_header_LEN :: nat where
  "frame_header_LEN = 9"

definition frame_parse :: "bytes \<Rightarrow> frame_header option" where
  "frame_parse buf =
     (case slice_get buf 0 frame_header_LEN of
        None \<Rightarrow> None
      | Some h \<Rightarrow>
          let len = push_bit 16 (ucast (h ! 0)) OR push_bit 8 (ucast (h ! 1)) OR ucast (h ! 2);
              kind = h ! 3;
              flags = h ! 4;
              stream_id = u32_of_be (h ! 5) (h ! 6) (h ! 7) (h ! 8) AND 0x7fffffff
          in Some \<lparr>fh_length = len, fh_kind = kind, fh_flags = flags, fh_stream_id = stream_id\<rparr>)"

definition frame_write :: "frame_header \<Rightarrow> bytes \<Rightarrow> bytes" where
  "frame_write fh out =
     out @ [ucast (drop_bit 16 (fh_length fh)), ucast (drop_bit 8 (fh_length fh)),
            ucast (fh_length fh), fh_kind fh, fh_flags fh]
         @ u32_to_be (fh_stream_id fh AND 0x7fffffff)"

section \<open>Frame writers\<close>

definition write_frame :: "bytes \<Rightarrow> u8 \<Rightarrow> u8 \<Rightarrow> u32 \<Rightarrow> bytes \<Rightarrow> bytes" where
  "write_frame out kind flags stream_id payload =
     frame_write \<lparr>fh_length = of_nat (length payload), fh_kind = kind, fh_flags = flags,
                  fh_stream_id = stream_id\<rparr> out @ payload"

definition write_settings_ack :: "bytes \<Rightarrow> bytes" where
  "write_settings_ack out = write_frame out kind_SETTINGS flag_ACK 0 []"

definition write_settings :: "bytes \<Rightarrow> (u16 \<times> u32) list \<Rightarrow> bytes" where
  "write_settings out params =
     (let payload = concat (map (\<lambda>(i, v). u16_to_be i @ u32_to_be v) params)
      in write_frame out kind_SETTINGS 0 0 payload)"

definition write_window_update :: "bytes \<Rightarrow> u32 \<Rightarrow> u32 \<Rightarrow> bytes" where
  "write_window_update out stream_id increment =
     write_frame out kind_WINDOW_UPDATE 0 stream_id (u32_to_be (increment AND 0x7fffffff))"

definition write_rst_stream :: "bytes \<Rightarrow> u32 \<Rightarrow> u32 \<Rightarrow> bytes" where
  "write_rst_stream out stream_id code =
     write_frame out kind_RST_STREAM 0 stream_id (u32_to_be code)"

definition write_goaway :: "bytes \<Rightarrow> u32 \<Rightarrow> u32 \<Rightarrow> bytes" where
  "write_goaway out last_stream_id code =
     write_frame out kind_GOAWAY 0 0 (u32_to_be (last_stream_id AND 0x7fffffff) @ u32_to_be code)"

definition write_ping_ack :: "bytes \<Rightarrow> bytes \<Rightarrow> bytes" where
  "write_ping_ack out opaque = write_frame out kind_PING flag_ACK 0 opaque"

text \<open>\<open>chunks_exact(6)\<close>: the complete chunks; a shorter tail is not yielded.\<close>

fun settings_chunks :: "bytes \<Rightarrow> (u16 \<times> u32) list" where
  "settings_chunks (a # b # c # d # e # f # rest) =
     (u16_of_be a b, u32_of_be c d e f) # settings_chunks rest"
| "settings_chunks _ = []"

definition parse_settings :: "bytes \<Rightarrow> (u16 \<times> u32) list option" where
  "parse_settings payload =
     (if \<not> 6 dvd length payload then None else Some (settings_chunks payload))"

definition parse_window_update :: "bytes \<Rightarrow> u32 option" where
  "parse_window_update payload =
     (case payload of
        [a, b, c, d] \<Rightarrow> Some (u32_of_be a b c d AND 0x7fffffff)
      | _ \<Rightarrow> None)"

section \<open>Field blocks\<close>

function write_continuations :: "bytes \<Rightarrow> u32 \<Rightarrow> nat \<Rightarrow> bytes \<Rightarrow> bytes" where
  "write_continuations b stream_id m rest =
     (if length rest > m \<and> m > 0
      then write_continuations (write_frame b kind_CONTINUATION 0 stream_id (take m rest))
             stream_id m (drop m rest)
      else write_frame b kind_CONTINUATION flag_END_HEADERS stream_id rest)"
  by pat_completeness auto
termination
  by (relation "measure (\<lambda>(b, stream_id, m, rest). length rest)") auto

declare write_continuations.simps [simp del]

definition write_field_block :: "bytes \<Rightarrow> u32 \<Rightarrow> u8 \<Rightarrow> bytes \<Rightarrow> nat \<Rightarrow> bytes" where
  "write_field_block b stream_id lead_flags block max_frame =
     (let m = max max_frame 1
      in if length block \<le> m
         then write_frame b kind_HEADERS (lead_flags OR flag_END_HEADERS) stream_id block
         else write_continuations (write_frame b kind_HEADERS lead_flags stream_id (take m block))
                stream_id m (drop m block))"

section \<open>Cutting the next frame off the input\<close>

text \<open>
  The drain loop of \<open>serve\<close>: nothing happens until a header is there; a frame larger than the cap
  ends the connection; a frame whose payload is still incomplete waits; otherwise the header and
  the payload are handed over and the cursor moves behind them.
\<close>

datatype frame_input = NeedMore | Unparsed | TooLarge | GotFrame frame_header bytes bytes

definition next_frame :: "u32 \<Rightarrow> bytes \<Rightarrow> frame_input" where
  "next_frame cap buf =
     (if length buf < frame_header_LEN then NeedMore
      else case frame_parse buf of
        None \<Rightarrow> Unparsed
      | Some fh \<Rightarrow>
          if fh_length fh > cap then TooLarge
          else (let total = frame_header_LEN + unat (fh_length fh)
                in if length buf < total then NeedMore
                   else GotFrame fh (take (unat (fh_length fh)) (drop frame_header_LEN buf))
                          (drop total buf)))"

section \<open>Self-delimiting wire formats\<close>

primrec take_items :: "('b \<Rightarrow> ('a \<times> 'b) option) \<Rightarrow> nat \<Rightarrow> 'b \<Rightarrow> ('a list \<times> 'b) option" where
  "take_items get 0 buf = Some ([], buf)"
| "take_items get (Suc n) buf =
     (case get buf of
        None \<Rightarrow> None
      | Some (x, rest) \<Rightarrow> map_option (apfst ((#) x)) (take_items get n rest))"

locale wire_format =
  fixes put :: "'a \<Rightarrow> bytes \<Rightarrow> bytes"
    and get :: "bytes \<Rightarrow> ('a \<times> bytes) option"
    and valid :: "'a \<Rightarrow> bool"
  assumes put_append: "put x out = out @ put x []"
    and get_put: "valid x \<Longrightarrow> get (put x [] @ rest) = Some (x, rest)"
begin

lemma fold_put: "fold put xs out = out @ concat (map (\<lambda>x. put x []) xs)"
proof (induction xs arbitrary: out)
  case (Cons x xs)
  have "fold put (x # xs) out = put x out @ concat (map (\<lambda>x. put x []) xs)"
    using Cons.IH [of "put x out"] by simp
  then show ?case by (subst (asm) put_append) simp
qed simp

theorem items_roundtrip:
  "list_all valid xs \<Longrightarrow> take_items get (length xs) (fold put xs [] @ rest) = Some (xs, rest)"
  by (induction xs) (simp_all add: fold_put get_put)

end

section \<open>Big-endian round trips\<close>

lemma u16_be_roundtrip [simp]: "u16_of_be (ucast (drop_bit 8 v)) (ucast v) = v"
  by (rule bit_eqI) (auto simp: u16_of_be_def bit_simps)

lemma u32_be_roundtrip [simp]:
  "u32_of_be (ucast (drop_bit 24 v)) (ucast (drop_bit 16 v)) (ucast (drop_bit 8 v)) (ucast v) = v"
proof (rule bit_word_eqI)
  fix n
  assume "n < LENGTH(32)"
  then show "bit (u32_of_be (ucast (drop_bit 24 v)) (ucast (drop_bit 16 v)) (ucast (drop_bit 8 v)) (ucast v)) n
      = bit v n"
    by (cases "n < 16"; cases "n < 24") (auto simp: u32_of_be_def bit_simps)
qed

lemma u24_be_roundtrip:
  "push_bit 16 (ucast (ucast (drop_bit 16 v) :: u8)) OR push_bit 8 (ucast (ucast (drop_bit 8 v) :: u8))
     OR ucast (ucast v :: u8) = take_bit 24 (v :: u32)" (is "?l = ?r")
proof (rule bit_eqI)
  fix n
  show "bit ?l n = bit ?r n" by (cases "n < 16") (auto simp: bit_simps)
qed

lemma and_7fffffff [simp]: "(v :: u32) AND 0x7fffffff = take_bit 31 v"
proof -
  have "mask 31 = (0x7fffffff :: u32)" by code_simp
  then show ?thesis by (metis take_bit_eq_mask)
qed

lemma take_bit_id_if_small:
  "unat (v :: 'a::len word) < 2 ^ n \<Longrightarrow> take_bit n v = v"
  by (rule word_unat_eq_iff [THEN iffD2]) (simp add: unat_take_bit_mod)

section \<open>Frame header and frames\<close>

lemma frame_write_append: "frame_write fh out = out @ frame_write fh []"
  by (simp add: frame_write_def)

lemma length_frame_write [simp]: "length (frame_write fh out) = length out + 9"
  by (simp add: frame_write_def)

text \<open>Parsing a written header gives back its fields, with the length cut to 24 bits and the
  reserved bit of the stream identifier cleared; fewer than nine octets are refused.\<close>

theorem frame_header_roundtrip:
  "frame_parse (frame_write fh [] @ rest) =
     Some (fh\<lparr>fh_length := take_bit 24 (fh_length fh), fh_stream_id := take_bit 31 (fh_stream_id fh)\<rparr>)
   \<and> (frame_parse buf = None \<longleftrightarrow> length buf < 9)"
  by (simp add: frame_parse_def frame_write_def slice_get_def frame_header_LEN_def u32_to_be_def
      Let_def u24_be_roundtrip)

lemma write_frame_append: "write_frame out k f sid p = out @ write_frame [] k f sid p"
  using frame_write_append [of _ out] by (simp add: write_frame_def)

lemma length_write_frame [simp]: "length (write_frame out k f sid p) = length out + 9 + length p"
  by (simp add: write_frame_def)

text \<open>A frame as the sequence of what \<open>write_frame\<close> is given: type, flags, stream and payload.\<close>

type_synonym h2_frame = "u8 \<times> u8 \<times> u32 \<times> bytes"

definition put_frame :: "h2_frame \<Rightarrow> bytes \<Rightarrow> bytes" where
  "put_frame fr out = (case fr of (k, f, sid, p) \<Rightarrow> write_frame out k f sid p)"

definition read_frame :: "u32 \<Rightarrow> bytes \<Rightarrow> (h2_frame \<times> bytes) option" where
  "read_frame cap buf =
     (case next_frame cap buf of
        GotFrame h p rest \<Rightarrow> Some ((fh_kind h, fh_flags h, fh_stream_id h, p), rest)
      | _ \<Rightarrow> None)"

text \<open>The frames the format can carry: a 31-bit stream, a payload within 24 bits and the cap.\<close>

definition valid_frame :: "u32 \<Rightarrow> h2_frame \<Rightarrow> bool" where
  "valid_frame cap fr = (case fr of (k, f, sid, p) \<Rightarrow>
     unat sid < 2 ^ 31 \<and> length p < 2 ^ 24 \<and> length p \<le> unat cap)"

lemma unat_of_nat_u24: "n < 2 ^ 24 \<Longrightarrow> unat (of_nat n :: u32) = n"
  by (simp add: unat_of_nat take_bit_eq_mod)

lemma frame_parse_write:
  assumes "unat sid < 2 ^ 31" "length p < 2 ^ 24"
  shows "frame_parse (write_frame [] k f sid p @ rest) =
    Some \<lparr>fh_length = of_nat (length p), fh_kind = k, fh_flags = f, fh_stream_id = sid\<rparr>"
  using assms by (simp add: frame_parse_def write_frame_def frame_write_def slice_get_def
      frame_header_LEN_def u32_to_be_def Let_def u24_be_roundtrip take_bit_id_if_small unat_of_nat_u24)

lemma next_frame_write:
  assumes "valid_frame cap (k, f, sid, p)"
  shows "next_frame cap (write_frame [] k f sid p @ rest) =
    GotFrame \<lparr>fh_length = of_nat (length p), fh_kind = k, fh_flags = f, fh_stream_id = sid\<rparr> p rest"
proof -
  have v: "unat sid < 2 ^ 31" "length p < 2 ^ 24" "length p \<le> unat cap"
    using assms by (auto simp: valid_frame_def)
  have cap: "\<not> cap < of_nat (length p)"
    using v by (simp add: word_less_nat_alt unat_of_nat_u24)
  have drop9: "drop 9 (write_frame [] k f sid p @ rest) = p @ rest"
    by (simp add: write_frame_def frame_write_def u32_to_be_def)
  have "drop (9 + length p) (write_frame [] k f sid p @ rest) = rest"
    by (simp add: write_frame_def)
  then show ?thesis
    using v cap drop9
    by (simp add: next_frame_def frame_header_LEN_def frame_parse_write Let_def unat_of_nat_u24)
qed

lemma read_put_frame: "valid_frame cap fr \<Longrightarrow> read_frame cap (put_frame fr [] @ rest) = Some (fr, rest)"
  by (cases fr) (simp add: read_frame_def put_frame_def next_frame_write)

lemma put_frame_append: "put_frame fr out = out @ put_frame fr []"
  using write_frame_append [of out] by (simp add: put_frame_def split: prod.splits)

interpretation h2_wire: wire_format put_frame "read_frame cap" "valid_frame cap"
  by unfold_locales (simp_all add: put_frame_append [symmetric] read_put_frame)

text \<open>C22. A sequence of frames written one after the other is cut apart again by the drain loop,
  frame by frame with every field and payload intact, and what follows them is left in the
  buffer.\<close>

theorem frames_roundtrip:
  "list_all (valid_frame cap) frs \<Longrightarrow>
     take_items (read_frame cap) (length frs) (fold put_frame frs [] @ rest) = Some (frs, rest)"
  by (rule h2_wire.items_roundtrip)

theorem frames_roundtrip_witness:
  "take_items (read_frame 16384) (Suc (Suc 0))
     (write_rst_stream (write_window_update [] 3 70000) 5 err_CANCEL @ [9, 9])
   = Some ([(kind_WINDOW_UPDATE, 0, 3, u32_to_be 70000), (kind_RST_STREAM, 0, 5, u32_to_be err_CANCEL)], [9, 9])"
  using frames_roundtrip [of 16384 "[(kind_WINDOW_UPDATE, 0, 3, u32_to_be 70000),
      (kind_RST_STREAM, 0, 5, u32_to_be err_CANCEL)]" "[9, 9]"]
  by (simp add: valid_frame_def put_frame_def write_rst_stream_def write_window_update_def
      take_bit_id_if_small)

text \<open>A frame is never acted on before it is complete: while only a strict prefix of it has
  arrived the drain loop waits.\<close>

theorem incomplete_frame_waits:
  assumes "valid_frame cap (k, f, sid, p)" "n < 9 + length p"
  shows "next_frame cap (take n (write_frame [] k f sid p)) = NeedMore"
proof (cases "n < 9")
  case True
  then show ?thesis by (simp add: next_frame_def frame_header_LEN_def)
next
  case False
  have v: "unat sid < 2 ^ 31" "length p < 2 ^ 24" "length p \<le> unat cap"
    using assms(1) by (auto simp: valid_frame_def)
  have cap: "\<not> cap < of_nat (length p)"
    using v by (simp add: word_less_nat_alt unat_of_nat_u24)
  have w: "take n (write_frame [] k f sid p) =
      frame_write \<lparr>fh_length = of_nat (length p), fh_kind = k, fh_flags = f, fh_stream_id = sid\<rparr> []
        @ take (n - 9) p"
    using False by (simp add: write_frame_def)
  have "frame_parse (take n (write_frame [] k f sid p)) =
      Some \<lparr>fh_length = of_nat (length p), fh_kind = k, fh_flags = f, fh_stream_id = sid\<rparr>"
    unfolding w using v
    by (simp add: frame_parse_def frame_write_def slice_get_def
      frame_header_LEN_def u32_to_be_def Let_def u24_be_roundtrip take_bit_id_if_small unat_of_nat_u24)
  then show ?thesis
    using assms(2) v cap by (simp add: next_frame_def frame_header_LEN_def Let_def unat_of_nat_u24)
qed

theorem incomplete_frame_waits_witness:
  "next_frame 16384 (take 12 (write_window_update [] 3 70000)) = NeedMore"
  using incomplete_frame_waits [of 16384 kind_WINDOW_UPDATE 0 3 "u32_to_be 70000" 12]
  by (simp add: valid_frame_def write_window_update_def take_bit_id_if_small)

section \<open>SETTINGS and WINDOW_UPDATE payloads\<close>

lemma settings_chunks_encode:
  "settings_chunks (concat (map (\<lambda>(i, v). u16_to_be i @ u32_to_be v) params)) = params"
  by (induction params) (auto simp: u16_to_be_def u32_to_be_def)

lemma length_settings_payload:
  "length (concat (map (\<lambda>(i, v). u16_to_be i @ u32_to_be v) params)) = 6 * length params"
  by (induction params) auto

lemma bit_u8_beyond: "\<not> bit (b :: u8) (8 + n)" "\<not> bit b (16 + n)" "\<not> bit b (24 + n)"
  by (auto dest: bit_imp_le_length)

lemma u16_be_bytes [simp]: "u16_to_be (u16_of_be a b) = [a, b]"
  by (auto simp: u16_to_be_def u16_of_be_def intro!: bit_word_eqI simp: bit_simps bit_u8_beyond)

lemma u32_be_bytes [simp]: "u32_to_be (u32_of_be a b c d) = [a, b, c, d]"
  by (auto simp: u32_to_be_def u32_of_be_def intro!: bit_word_eqI simp: bit_simps bit_u8_beyond)

lemma settings_chunks_decode:
  "6 dvd length p \<Longrightarrow> concat (map (\<lambda>(i, v). u16_to_be i @ u32_to_be v) (settings_chunks p)) = p"
proof (induction p rule: settings_chunks.induct)
  case (1 a b c d e f rest)
  have "6 dvd 6 + length rest" using "1.prems" by (simp add: eval_nat_numeral)
  then have "6 dvd length rest" by (simp only: dvd_add_triv_left_iff)
  then show ?case using "1.IH" by simp
qed (auto dest: dvd_imp_le)

text \<open>\<open>parse_settings\<close> accepts exactly the payloads \<open>write_settings\<close> produces and inverts them;
  every other payload is refused.\<close>

theorem settings_roundtrip:
  "parse_settings p = Some params \<longleftrightarrow>
     write_settings [] params = write_frame [] kind_SETTINGS 0 0 p"
proof -
  let ?enc = "concat (map (\<lambda>(i, v). u16_to_be i @ u32_to_be v) params)"
  have "parse_settings p = Some params \<longleftrightarrow> ?enc = p"
    using settings_chunks_encode [of params] length_settings_payload [of params]
      settings_chunks_decode [of p]
    by (auto simp: parse_settings_def)
  moreover have "write_frame [] kind_SETTINGS 0 0 ?enc = write_frame [] kind_SETTINGS 0 0 p \<longleftrightarrow> ?enc = p"
    by (auto simp: write_frame_def)
  ultimately show ?thesis by (simp add: write_settings_def Let_def)
qed

section \<open>Field blocks\<close>

text \<open>The frames of a field block: a leading HEADERS frame and the continuation of the rest.\<close>

function cont_frames :: "u32 \<Rightarrow> nat \<Rightarrow> bytes \<Rightarrow> h2_frame list" where
  "cont_frames sid m rest =
     (if length rest > m \<and> m > 0
      then (kind_CONTINUATION, 0, sid, take m rest) # cont_frames sid m (drop m rest)
      else [(kind_CONTINUATION, flag_END_HEADERS, sid, rest)])"
  by pat_completeness auto
termination
  by (relation "measure (\<lambda>(sid, m, rest). length rest)") auto

declare cont_frames.simps [simp del]

definition field_frames :: "u32 \<Rightarrow> u8 \<Rightarrow> bytes \<Rightarrow> nat \<Rightarrow> h2_frame list" where
  "field_frames sid lead block m =
     (if length block \<le> m then [(kind_HEADERS, lead OR flag_END_HEADERS, sid, block)]
      else (kind_HEADERS, lead, sid, take m block) # cont_frames sid m (drop m block))"

lemma write_continuations_frames:
  "write_continuations b sid m rest = fold put_frame (cont_frames sid m rest) b"
proof (induction b sid m rest rule: write_continuations.induct)
  case (1 b sid m rest)
  then show ?case
    by (subst write_continuations.simps, subst cont_frames.simps)
      (simp add: put_frame_def [of "(_, _, _, _)"])
qed

lemma write_field_block_frames:
  "write_field_block b sid lead block m = fold put_frame (field_frames sid lead block (max m 1)) b"
  by (simp add: write_field_block_def field_frames_def write_continuations_frames put_frame_def Let_def)

lemma cont_frames_payload: "concat (map (\<lambda>(k, f, s, p). p) (cont_frames sid m rest)) = rest"
proof (induction sid m rest rule: cont_frames.induct)
  case (1 sid m rest)
  then show ?case by (subst cont_frames.simps) simp
qed

lemma field_frames_payload: "concat (map (\<lambda>(k, f, s, p). p) (field_frames sid lead block m)) = block"
  by (simp add: field_frames_def cont_frames_payload)

lemma cont_frames_small:
  "0 < m \<Longrightarrow> list_all (\<lambda>(k, f, s, p). s = sid \<and> length p \<le> m) (cont_frames sid m rest)"
proof (induction sid m rest rule: cont_frames.induct)
  case (1 sid m rest)
  then show ?case by (subst cont_frames.simps) auto
qed

lemma field_frames_small:
  "0 < m \<Longrightarrow> list_all (\<lambda>(k, f, s, p). s = sid \<and> length p \<le> m) (field_frames sid lead block m)"
  by (simp add: field_frames_def cont_frames_small)

lemma cont_frames_shape:
  "\<exists>n. map (\<lambda>(k, f, s, p). (k, f)) (cont_frames sid m rest)
     = replicate n (kind_CONTINUATION, 0) @ [(kind_CONTINUATION, flag_END_HEADERS)]"
proof (induction sid m rest rule: cont_frames.induct)
  case (1 sid m rest)
  show ?case
  proof (cases "length rest > m \<and> m > 0")
    case True
    then obtain n where "map (\<lambda>(k, f, s, p). (k, f)) (cont_frames sid m (drop m rest))
        = replicate n (kind_CONTINUATION, 0) @ [(kind_CONTINUATION, flag_END_HEADERS)]"
      using 1 by blast
    then have "map (\<lambda>(k, f, s, p). (k, f)) (cont_frames sid m rest)
        = replicate (Suc n) (kind_CONTINUATION, 0) @ [(kind_CONTINUATION, flag_END_HEADERS)]"
      using True by (subst cont_frames.simps) simp
    then show ?thesis by blast
  next
    case False
    then have "map (\<lambda>(k, f, s, p). (k, f)) (cont_frames sid m rest)
        = replicate 0 (kind_CONTINUATION, 0) @ [(kind_CONTINUATION, flag_END_HEADERS)]"
      by (subst cont_frames.simps) auto
    then show ?thesis by blast
  qed
qed

lemma field_frames_valid:
  assumes "unat sid < 2 ^ 31" "0 < m" "m < 2 ^ 24" "m \<le> unat cap"
  shows "list_all (valid_frame cap) (field_frames sid lead block m)"
  using field_frames_small [OF assms(2), of sid lead block] assms
  by (auto simp: list_all_iff valid_frame_def split: prod.splits)



end
