(* ===== verification/Body_Budget.thy ===== *)
theory Body_Budget
  imports HJ_Prelude
begin

text \<open>
  The server-wide budget for buffered request bodies, \<open>hj-core/src/budget.rs\<close>: the budget with
  \<open>reserve\<close>, \<open>try_acquire\<close> and \<open>release\<close>, and the lease a buffer holds on it. Amounts are \<open>u64\<close> in
  the source and \<open>nat\<close> here, with the wrap-around of \<open>cur + n\<close> and \<open>fetch_sub\<close> and the saturation of
  \<open>saturating_add\<close> written out.

  The locale \<open>byte_ledger\<close> is what the transports rely on: a successful reservation adds to what
  is recorded, a refused one changes nothing, a release takes back. The HTTP/2 connection uses it
  through the interpretation \<open>body_ledger\<close>.

  The budget is shared by all connections through atomics. The relation \<open>budget_step\<close> is one atomic
  access of one thread: the load, the compare-and-exchange (which may fail spuriously) and the
  \<open>fetch_sub\<close> of the source are separate steps, interleaved in every order.
\<close>

section \<open>The budget\<close>

record budget =
  bb_max_bytes :: nat
  bb_in_flight :: nat
  bb_rejected :: nat

definition u64_sat_add :: "nat \<Rightarrow> nat \<Rightarrow> nat" where
  "u64_sat_add a b = min (a + b) (2 ^ 64 - 1)"

definition budget_new :: "nat \<Rightarrow> budget" where
  "budget_new max_bytes = \<lparr>bb_max_bytes = max_bytes, bb_in_flight = 0, bb_rejected = 0\<rparr>"

definition budget_reserve :: "budget \<Rightarrow> nat \<Rightarrow> bool \<times> budget" where
  "budget_reserve b n =
     (if bb_max_bytes b = 0 then (True, b)
      else if u64_sat_add (bb_in_flight b) n > bb_max_bytes b then (False, b)
      else (True, b\<lparr>bb_in_flight := (bb_in_flight b + n) mod 2 ^ 64\<rparr>))"

definition try_acquire :: "budget \<Rightarrow> nat \<Rightarrow> bool \<times> budget" where
  "try_acquire b n =
     (case budget_reserve b n of
        (True, b') \<Rightarrow> (True, b')
      | (False, b') \<Rightarrow> (False, b'\<lparr>bb_rejected := (bb_rejected b' + 1) mod 2 ^ 64\<rparr>))"

definition budget_release :: "budget \<Rightarrow> nat \<Rightarrow> budget" where
  "budget_release b n =
     (if bb_max_bytes b = 0 \<or> n = 0 then b
      else b\<lparr>bb_in_flight := (bb_in_flight b + 2 ^ 64 - n) mod 2 ^ 64\<rparr>)"

section \<open>Leases\<close>

text \<open>A lease is the amount it holds; the \<open>Arc\<close> to the budget is the budget passed along. What a
  lease holds is the size of a buffer in memory, so \<open>held += n\<close> does not leave \<open>u64\<close>.\<close>

type_synonym lease = nat

definition lease_new :: lease where
  "lease_new = 0"

definition lease_reserve :: "budget \<Rightarrow> lease \<Rightarrow> nat \<Rightarrow> bool \<times> budget \<times> lease" where
  "lease_reserve b held n =
     (case try_acquire b n of
        (False, b') \<Rightarrow> (False, b', held)
      | (True, b') \<Rightarrow> (True, b', held + n))"

definition lease_release :: "budget \<Rightarrow> lease \<Rightarrow> nat \<Rightarrow> budget \<times> lease" where
  "lease_release b held n =
     (let n = min n held
      in if n = 0 then (b, held) else (budget_release b n, held - n))"

definition lease_drop :: "budget \<Rightarrow> lease \<Rightarrow> budget" where
  "lease_drop b held = budget_release b held"

section \<open>What the transports rely on\<close>

locale byte_ledger =
  fixes ok :: "'b \<Rightarrow> nat \<Rightarrow> bool"
    and acquire :: "'b \<Rightarrow> nat \<Rightarrow> bool \<times> 'b"
    and give_back :: "'b \<Rightarrow> nat \<Rightarrow> 'b"
  assumes acquire_yes: "ok b t \<Longrightarrow> acquire b n = (True, b') \<Longrightarrow> ok b' (t + n)"
    and acquire_no: "ok b t \<Longrightarrow> acquire b n = (False, b') \<Longrightarrow> ok b' t"
    and give_back_ok: "ok b t \<Longrightarrow> n \<le> t \<Longrightarrow> ok (give_back b n) (t - n)"
begin

text \<open>A request that moves from one owner to another keeps the total; dropping all leases of a
  list returns exactly what they hold.\<close>

lemma drop_one: "ok b (t + h) \<Longrightarrow> ok (give_back b h) t"
  using give_back_ok [of b "t + h" h] by simp

lemma drop_all: "ok b (t + sum_list hs) \<Longrightarrow> ok (foldl give_back b hs) t"
proof (induction hs arbitrary: b)
  case (Cons h hs)
  have "ok b ((t + sum_list hs) + h)" using Cons.prems by (simp add: ac_simps)
  from drop_one [OF this] show ?case by (simp add: Cons.IH)
qed simp

lemma shrink: "ok b (t + h) \<Longrightarrow> n \<le> h \<Longrightarrow> ok (give_back b n) (t + (h - n))"
  using give_back_ok [of b "t + h" n] by simp

end

text \<open>The recorded amount is the reserved total and is within the maximum; a maximum of 0 turns the
  accounting off.\<close>

definition ledger_ok :: "budget \<Rightarrow> nat \<Rightarrow> bool" where
  "ledger_ok b t =
     (bb_max_bytes b < 2 ^ 64 - 1 \<and>
      (bb_max_bytes b \<noteq> 0 \<longrightarrow> bb_in_flight b = t \<and> t \<le> bb_max_bytes b))"

lemma sat_le_max: "m < 2 ^ 64 - 1 \<Longrightarrow> \<not> m < u64_sat_add a n \<Longrightarrow> a + n \<le> m"
  by (auto simp: u64_sat_add_def min_def split: if_splits)

lemma budget_reserve_ledger:
  assumes "ledger_ok b t" "budget_reserve b n = (r, b')"
  shows "ledger_ok b' (if r then t + n else t)"
proof (cases "bb_max_bytes b = 0")
  case True
  then show ?thesis using assms by (auto simp: ledger_ok_def budget_reserve_def)
next
  case False
  show ?thesis
  proof (cases "bb_max_bytes b < u64_sat_add (bb_in_flight b) n")
    case True
    then show ?thesis using assms False by (auto simp: budget_reserve_def)
  next
    case fits: False
    have m: "bb_max_bytes b < 2 ^ 64 - 1" "bb_in_flight b = t"
      using assms(1) False by (auto simp: ledger_ok_def)
    then have le: "t + n \<le> bb_max_bytes b" using sat_le_max [OF m(1) fits] by simp
    then have "(t + n) mod 2 ^ 64 = t + n" using m(1) by (intro mod_less) linarith
    then show ?thesis using assms(2) False fits m le by (auto simp: ledger_ok_def budget_reserve_def)
  qed
qed

lemma ledger_ok_rejected [simp]: "ledger_ok (b\<lparr>bb_rejected := r\<rparr>) t = ledger_ok b t"
  by (simp add: ledger_ok_def)

lemma try_acquire_ledger:
  assumes "ledger_ok b t" "try_acquire b n = (r, b')"
  shows "ledger_ok b' (if r then t + n else t)"
proof -
  obtain r0 b0 where q: "budget_reserve b n = (r0, b0)" by (metis surj_pair)
  from budget_reserve_ledger [OF assms(1) q] show ?thesis
    using assms(2) q by (auto simp: try_acquire_def split: bool.splits)
qed

lemma budget_release_ledger:
  assumes "ledger_ok b t" "n \<le> t"
  shows "ledger_ok (budget_release b n) (t - n)"
proof (cases "bb_max_bytes b = 0 \<or> n = 0")
  case True
  then show ?thesis using assms by (auto simp: ledger_ok_def budget_release_def)
next
  case False
  have m: "bb_max_bytes b < 2 ^ 64 - 1" "bb_in_flight b = t" "t \<le> bb_max_bytes b"
    using assms(1) False by (auto simp: ledger_ok_def)
  have "t + 2 ^ 64 - n = (t - n) + 2 ^ 64" using assms(2) by simp
  moreover have "((t - n) + 2 ^ 64) mod 2 ^ 64 = t - n"
    using m by (simp only: mod_add_self2) (intro mod_less, linarith)
  ultimately have "(t + 2 ^ 64 - n) mod 2 ^ 64 = t - n" by (simp only:)
  then have "budget_release b n = b\<lparr>bb_in_flight := t - n\<rparr>"
    using False m(2) unfolding budget_release_def by (simp only: if_False)
  then show ?thesis using m by (auto simp: ledger_ok_def)
qed

interpretation body_ledger: byte_ledger ledger_ok try_acquire budget_release
  by unfold_locales
    (use try_acquire_ledger in \<open>fastforce\<close>, use try_acquire_ledger in \<open>fastforce\<close>,
     rule budget_release_ledger)

lemma ledger_new: "m < 2 ^ 64 - 1 \<Longrightarrow> ledger_ok (budget_new m) 0"
  by (simp add: ledger_ok_def budget_new_def)

lemma lease_reserve_ledger:
  assumes "ledger_ok b (t + held)" "lease_reserve b held n = (r, b', held')"
  shows "ledger_ok b' (t + held') \<and> held' = (if r then held + n else held)"
proof -
  obtain r0 b0 where q: "try_acquire b n = (r0, b0)" by (metis surj_pair)
  from try_acquire_ledger [OF assms(1) q] show ?thesis
    using assms(2) q by (auto simp: lease_reserve_def ac_simps split: bool.splits)
qed

lemma lease_release_ledger:
  assumes "ledger_ok b (t + held)" "lease_release b held n = (b', held')"
  shows "ledger_ok b' (t + held') \<and> held' = held - n"
  using assms body_ledger.shrink [OF assms(1), of "min n held"]
  by (auto simp: lease_release_def Let_def min_def split: if_splits)

lemma lease_drop_ledger: "ledger_ok b (t + held) \<Longrightarrow> ledger_ok (lease_drop b held) t"
  by (simp add: lease_drop_def body_ledger.drop_one)

lemma budget_max_kept [simp]:
  "bb_max_bytes (lease_drop b h) = bb_max_bytes b"
  "bb_max_bytes (fst (lease_release b h n)) = bb_max_bytes b"
  "bb_max_bytes (fst (snd (lease_reserve b h n))) = bb_max_bytes b"
  by (auto simp: lease_drop_def budget_release_def lease_release_def Let_def lease_reserve_def
      try_acquire_def budget_reserve_def)

section \<open>Interleaved threads\<close>

text \<open>A thread is between operations, holding a lease, or inside the loop of \<open>reserve\<close> with the value
  it last read. Refusing and exchanging are decided on that value, which may be stale.\<close>

datatype budget_thread = Idle nat | Trying nat nat nat

primrec thread_held :: "budget_thread \<Rightarrow> nat" where
  "thread_held (Idle h) = h"
| "thread_held (Trying h n cur) = h"

inductive budget_step :: "nat \<Rightarrow> nat \<times> budget_thread list \<Rightarrow> nat \<times> budget_thread list \<Rightarrow> bool"
  for m :: nat where
  load: "i < length ts \<Longrightarrow> ts ! i = Idle h \<Longrightarrow>
    budget_step m (in_flight, ts) (in_flight, ts[i := Trying h n in_flight])"
| refuse: "i < length ts \<Longrightarrow> ts ! i = Trying h n cur \<Longrightarrow> u64_sat_add cur n > m \<Longrightarrow>
    budget_step m (in_flight, ts) (in_flight, ts[i := Idle h])"
| exchange_ok: "i < length ts \<Longrightarrow> ts ! i = Trying h n cur \<Longrightarrow> \<not> u64_sat_add cur n > m \<Longrightarrow>
    in_flight = cur \<Longrightarrow>
    budget_step m (in_flight, ts) ((cur + n) mod 2 ^ 64, ts[i := Idle (h + n)])"
| exchange_err: "i < length ts \<Longrightarrow> ts ! i = Trying h n cur \<Longrightarrow> \<not> u64_sat_add cur n > m \<Longrightarrow>
    budget_step m (in_flight, ts) (in_flight, ts[i := Trying h n in_flight])"
| fetch_sub: "i < length ts \<Longrightarrow> ts ! i = Idle h \<Longrightarrow> n \<le> h \<Longrightarrow>
    budget_step m (in_flight, ts) ((in_flight + 2 ^ 64 - n) mod 2 ^ 64, ts[i := Idle (h - n)])"

definition budget_shared_ok :: "nat \<Rightarrow> nat \<times> budget_thread list \<Rightarrow> bool" where
  "budget_shared_ok m s = (fst s = sum_list (map thread_held (snd s)) \<and> fst s \<le> m)"

lemma sum_list_held_update:
  "i < length ts \<Longrightarrow> sum_list (map thread_held (ts[i := t])) + thread_held (ts ! i)
     = sum_list (map thread_held ts) + thread_held t"
  by (induction ts arbitrary: i) (auto split: nat.splits)

lemma budget_step_ok:
  assumes "budget_step m s s'" "budget_shared_ok m s" "m < 2 ^ 64 - 1"
  shows "budget_shared_ok m s'"
  using assms(1,2)
proof (induction rule: budget_step.induct)
  case (load i ts h in_flight n)
  then show ?case
    using sum_list_held_update [of i ts "Trying h n in_flight"] by (simp add: budget_shared_ok_def)
next
  case (refuse i ts h n cur in_flight)
  then show ?case
    using sum_list_held_update [of i ts "Idle h"] by (simp add: budget_shared_ok_def)
next
  case (exchange_ok i ts h n cur in_flight)
  have le: "cur + n \<le> m" using sat_le_max [OF assms(3)] exchange_ok(3) by blast
  then have "(cur + n) mod 2 ^ 64 = cur + n" using assms(3) by (intro mod_less) linarith
  then show ?case
    using exchange_ok le sum_list_held_update [of i ts "Idle (h + n)"]
    by (simp add: budget_shared_ok_def)
next
  case (exchange_err i ts h n cur in_flight)
  then show ?case
    using sum_list_held_update [of i ts "Trying h n in_flight"] by (simp add: budget_shared_ok_def)
next
  case (fetch_sub i ts h n in_flight)
  have sum: "sum_list (map thread_held (ts[i := Idle (h - n)])) + n = in_flight"
    using fetch_sub sum_list_held_update [of i ts "Idle (h - n)"] by (simp add: budget_shared_ok_def)
  have le: "in_flight \<le> m" using fetch_sub by (simp add: budget_shared_ok_def)
  have "in_flight + 2 ^ 64 - n = (in_flight - n) + 2 ^ 64" using sum by linarith
  moreover have "((in_flight - n) + 2 ^ 64) mod 2 ^ 64 = in_flight - n"
    using le assms(3) by (simp only: mod_add_self2) (intro mod_less, linarith)
  ultimately have "(in_flight + 2 ^ 64 - n) mod 2 ^ 64 = in_flight - n" by (simp only:)
  then show ?case using sum le unfolding budget_shared_ok_def fst_conv snd_conv by linarith
qed



text \<open>C25. The sequential \<open>reserve\<close> used by the other components is what a thread does when no other
  thread touches the counter between its load and its exchange.\<close>

theorem reserve_refines_atomics:
  assumes "budget_reserve b n = (r, b')" "bb_max_bytes b \<noteq> 0" "i < length ts" "ts ! i = Idle h"
  shows "(budget_step (bb_max_bytes b))\<^sup>*\<^sup>* (bb_in_flight b, ts)
     (bb_in_flight b', ts[i := Idle (if r then h + n else h)])"
proof -
  let ?m = "bb_max_bytes b" and ?f = "bb_in_flight b"
  let ?ts = "ts[i := Trying h n ?f]"
  have 1: "budget_step ?m (?f, ts) (?f, ?ts)" using assms(3,4) by (rule load)
  have nth: "i < length ?ts" "?ts ! i = Trying h n ?f" using assms(3) by simp_all
  have "budget_step ?m (?f, ?ts) (bb_in_flight b', ?ts[i := Idle (if r then h + n else h)])"
  proof (cases "u64_sat_add ?f n > ?m")
    case True
    then have "\<not> r" "b' = b" using assms(1,2) by (auto simp: budget_reserve_def)
    then show ?thesis using refuse [OF nth True, of ?f] by simp
  next
    case False
    then have "r" "bb_in_flight b' = (?f + n) mod 2 ^ 64"
      using assms(1,2) by (auto simp: budget_reserve_def)
    then show ?thesis using exchange_ok [OF nth False refl] by simp
  qed
  then show ?thesis using 1 by simp
qed

theorem reserve_refines_atomics_witness:
  "(budget_step 100)\<^sup>*\<^sup>* (0, [Idle 5]) (60, [Idle 65])"
  using reserve_refines_atomics
    [of "budget_new 100" 60 True "\<lparr>bb_max_bytes = 100, bb_in_flight = 60, bb_rejected = 0\<rparr>" 0 "[Idle 5]" 5]
  by (simp add: budget_reserve_def budget_new_def u64_sat_add_def)

end
