(* ===== verification/H2_State.thy ===== *)
theory H2_State
  imports Hpack_Encoder Hpack_Decoder H2_Frame Body_Budget "HOL-Library.AList"
begin

text \<open>
  Per-connection and per-stream state of the HTTP/2 server, \<open>hj-h2/src/server/state.rs\<close>: the peer's
  settings, the receive-side bookkeeping \<open>Recv\<close>, the bounded set \<open>RecentIds\<close> of reset streams, the
  stream being assembled, and the methods of \<open>Recv\<close> that tear streams down. The arguments that
  \<open>process_frame\<close> passes around (\<open>streams\<close>, \<open>dec\<close>, \<open>enc\<close>, \<open>out\<close>, \<open>peer\<close>, \<open>recv\<close>, \<open>inflight\<close>, \<open>cancelled\<close>,
  \<open>inflight_sids\<close>) are the fields of one record \<open>conn\<close>.

  Types of the \<open>http\<close> crate: a method, a URI and a header value are the octets they were parsed from;
  a header map is of the abstract type \<open>'h\<close>. Instants are natural numbers of nanoseconds. The
  maps keyed by stream are association lists with distinct keys.

  Dropping a \<open>StreamState\<close> drops its lease, which returns the reserved octets to the server-wide
  budget; this is the function \<open>drop_state\<close>, applied wherever the source lets a stream go.
\<close>

section \<open>Records\<close>

record peer_settings =
  p_max_frame_size :: u32
  p_initial_window :: int
  p_first_settings_recorded :: bool

definition peer_default :: peer_settings where
  "peer_default =
     \<lparr>p_max_frame_size = 16384, p_initial_window = 65535, p_first_settings_recorded = False\<rparr>"

record recent_ids =
  ri_ids :: "u32 set"
  ri_order :: "u32 list"

record recv =
  r_seen_settings :: bool
  r_last_client_stream :: u32
  r_goaway_last :: "u32 option"
  r_open_header_block :: "u32 option"
  r_discarding_header_block :: bool
  r_discard_header_block :: bytes
  r_discard_rst_code :: u32
  r_reset_ids :: recent_ids
  r_sent_reset_ids :: recent_ids
  r_max_concurrent :: nat
  r_conn_recv_window :: int
  r_our_initial_window :: int
  r_header_count_hint :: nat
  r_reset_debt_until :: "nat option"
  r_total_buffered :: nat
  r_max_request_body :: nat
  r_per_conn_request_body :: nat
  r_pending_header_bytes :: nat
  r_pending_header_mem :: nat
  r_no_progress_frames :: nat

record 'h stream_state =
  st_header_block :: bytes
  st_method :: "bytes option"
  st_path :: "bytes option"
  st_authority :: "bytes option"
  st_headers :: 'h
  st_headers_done :: bool
  st_end_stream :: bool
  st_refused :: bool
  st_header_charge :: nat
  st_body :: bytes
  st_body_lease :: "lease option"
  st_content_length :: "nat option"
  st_body_deadline :: "nat option"
  st_recv_window :: int

text \<open>A dispatched request; the lease is owned by its body (\<open>BodyBufferLease::into_bytes\<close>).\<close>

record 'h request =
  rq_method :: bytes
  rq_uri :: bytes
  rq_headers :: 'h
  rq_body :: bytes
  rq_body_lease :: "lease option"

record 'h conn =
  c_streams :: "(u32 \<times> 'h stream_state) list"
  c_dec :: hpack_decoder
  c_enc :: hpack_encoder
  c_memo :: literal_memo
  c_out :: bytes
  c_peer :: peer_settings
  c_recv :: recv
  c_inflight :: "(u32 \<times> bool \<times> 'h request) list"
  c_inflight_sids :: "u32 set"
  c_cancelled :: "u32 set"
  c_body_budget :: "budget option"
  c_rapid_reset_goaways :: nat
  c_peer_settings_seen :: "(nat \<times> nat \<times> nat) list"

text \<open>\<open>StreamState::default()\<close> with the fields its creation site sets.\<close>

definition stream_new :: "'h \<Rightarrow> int \<Rightarrow> 'h stream_state" where
  "stream_new hm iw =
     \<lparr>st_header_block = [], st_method = None, st_path = None, st_authority = None, st_headers = hm,
      st_headers_done = False, st_end_stream = False, st_refused = False, st_header_charge = 0,
      st_body = [], st_body_lease = None, st_content_length = None, st_body_deadline = None,
      st_recv_window = iw\<rparr>"

section \<open>Recently reset streams\<close>

definition recent_contains :: "recent_ids \<Rightarrow> u32 \<Rightarrow> bool" where
  "recent_contains r sid = (sid \<in> ri_ids r)"

function recent_evict :: "nat \<Rightarrow> recent_ids \<Rightarrow> recent_ids" where
  "recent_evict cap r =
     (if length (ri_order r) \<ge> cap then
        (case ri_order r of
           [] \<Rightarrow> r
         | oldest # rest \<Rightarrow> recent_evict cap (r\<lparr>ri_ids := ri_ids r - {oldest}, ri_order := rest\<rparr>))
      else r)"
  by pat_completeness auto
termination
  by (relation "measure (\<lambda>(cap, r). length (ri_order r))") auto

declare recent_evict.simps [simp del]

definition recent_insert :: "u32 \<Rightarrow> nat \<Rightarrow> recent_ids \<Rightarrow> recent_ids" where
  "recent_insert sid cap r =
     (if cap = 0 \<or> sid \<in> ri_ids r then r
      else let r' = recent_evict cap r
           in r'\<lparr>ri_ids := insert sid (ri_ids r'), ri_order := ri_order r' @ [sid]\<rparr>)"

definition recent_empty :: recent_ids where
  "recent_empty = \<lparr>ri_ids = {}, ri_order = []\<rparr>"

section \<open>Methods of Recv\<close>

definition map_recv :: "(recv \<Rightarrow> recv) \<Rightarrow> 'h conn \<Rightarrow> 'h conn" where
  "map_recv f c = c\<lparr>c_recv := f (c_recv c)\<rparr>"

definition goaway_last_stream_id :: "recv \<Rightarrow> u32 \<times> recv" where
  "goaway_last_stream_id r =
     (let i = (case r_goaway_last r of
                 None \<Rightarrow> r_last_client_stream r
               | Some prev \<Rightarrow> min prev (r_last_client_stream r))
      in (i, r\<lparr>r_goaway_last := Some i\<rparr>))"

definition note_reset :: "u32 \<Rightarrow> recv \<Rightarrow> recv" where
  "note_reset sid r =
     r\<lparr>r_reset_ids := recent_insert sid (usize_sat_mul (r_max_concurrent r) 2) (r_reset_ids r)\<rparr>"

definition release_stream :: "'h stream_state \<Rightarrow> recv \<Rightarrow> recv" where
  "release_stream st r =
     r\<lparr>r_total_buffered := r_total_buffered r - length (st_body st),
       r_pending_header_bytes := r_pending_header_bytes r - st_header_charge st\<rparr>"

definition drop_state :: "'h stream_state \<Rightarrow> 'h conn \<Rightarrow> 'h conn" where
  "drop_state st c =
     (case (c_body_budget c, st_body_lease st) of
        (Some b, Some held) \<Rightarrow> c\<lparr>c_body_budget := Some (lease_drop b held)\<rparr>
      | _ \<Rightarrow> c)"

definition get_stream :: "'h conn \<Rightarrow> u32 \<Rightarrow> 'h stream_state option" where
  "get_stream c sid = map_of (c_streams c) sid"

definition put_stream :: "u32 \<Rightarrow> 'h stream_state \<Rightarrow> 'h conn \<Rightarrow> 'h conn" where
  "put_stream sid st c = c\<lparr>c_streams := AList.update sid st (c_streams c)\<rparr>"

definition remove_stream :: "u32 \<Rightarrow> 'h conn \<Rightarrow> 'h conn" where
  "remove_stream sid c = c\<lparr>c_streams := AList.delete sid (c_streams c)\<rparr>"

definition drop_receiving :: "u32 \<Rightarrow> 'h conn \<Rightarrow> 'h conn" where
  "drop_receiving sid c =
     (case get_stream c sid of
        None \<Rightarrow> c
      | Some s \<Rightarrow> drop_state s (map_recv (release_stream s) (remove_stream sid c)))"

definition admit_pending_headers ::
  "'h stream_state \<Rightarrow> nat \<Rightarrow> 'h conn \<Rightarrow> bool \<times> 'h stream_state \<times> 'h conn" where
  "admit_pending_headers st charge c =
     (let r = c_recv c;
          total = usize_sat_add (r_pending_header_bytes r) charge
      in if r_pending_header_bytes r \<noteq> 0 \<and> total > r_pending_header_mem r then (False, st, c)
         else case c_body_budget c of
           None \<Rightarrow>
             (True, st\<lparr>st_header_charge := charge\<rparr>,
              map_recv (\<lambda>r. r\<lparr>r_pending_header_bytes := total\<rparr>) c)
         | Some b \<Rightarrow>
             (let held = (case st_body_lease st of Some h \<Rightarrow> h | None \<Rightarrow> lease_new)
              in case lease_reserve b held charge of
                (False, b', held') \<Rightarrow>
                  (False, st\<lparr>st_body_lease := Some held'\<rparr>, c\<lparr>c_body_budget := Some b'\<rparr>)
              | (True, b', held') \<Rightarrow>
                  (True, st\<lparr>st_body_lease := Some held', st_header_charge := charge\<rparr>,
                   map_recv (\<lambda>r. r\<lparr>r_pending_header_bytes := total\<rparr>)
                     (c\<lparr>c_body_budget := Some b'\<rparr>))))"

definition teardown_receiving :: "u32 \<Rightarrow> 'h conn \<Rightarrow> 'h conn" where
  "teardown_receiving sid c =
     (let c1 = map_recv (note_reset sid) (drop_receiving sid c)
      in map_recv (\<lambda>r. r\<lparr>r_sent_reset_ids :=
             recent_insert sid (usize_sat_mul (r_max_concurrent r) 2) (r_sent_reset_ids r)\<rparr>) c1)"

definition expire_receiving :: "u32 \<Rightarrow> 'h conn \<Rightarrow> bool \<times> 'h conn" where
  "expire_receiving sid c =
     (let open_block = (r_open_header_block (c_recv c) = Some sid
                        \<and> \<not> r_discarding_header_block (c_recv c));
          c1 = (if open_block then
                  (case get_stream c sid of
                     None \<Rightarrow> c
                   | Some st \<Rightarrow>
                       map_recv (\<lambda>r. r\<lparr>r_discard_header_block := st_header_block st,
                                       r_discarding_header_block := True,
                                       r_discard_rst_code := err_CANCEL\<rparr>)
                         (put_stream sid (st\<lparr>st_header_block := []\<rparr>) c))
                else c)
      in (\<not> open_block, teardown_receiving sid c1))"

text \<open>\<open>OutQueue::frames\<close> on the control frames: the octets are appended to what is queued.\<close>

definition out_frames :: "(bytes \<Rightarrow> bytes) \<Rightarrow> 'h conn \<Rightarrow> 'h conn" where
  "out_frames f c = c\<lparr>c_out := f (c_out c)\<rparr>"

section \<open>The rapid-reset budget\<close>

definition RAPID_RESET_BURST :: nat where "RAPID_RESET_BURST = 200"
definition RAPID_RESET_REFILL :: nat where "RAPID_RESET_REFILL = 100 * 1000000"

definition charge_inflight_reset_at :: "nat \<Rightarrow> recv \<Rightarrow> bool \<times> recv" where
  "charge_inflight_reset_at now r =
     (let from = (case r_reset_debt_until r of Some t \<Rightarrow> if t > now then t else now | None \<Rightarrow> now);
          until = from + RAPID_RESET_REFILL
      in (until - now > RAPID_RESET_REFILL * RAPID_RESET_BURST, r\<lparr>r_reset_debt_until := Some until\<rparr>))"

definition charge_inflight_reset :: "nat \<Rightarrow> 'h conn \<Rightarrow> bool \<times> 'h conn" where
  "charge_inflight_reset now c =
     (case charge_inflight_reset_at now (c_recv c) of (exhausted, r) \<Rightarrow>
        let c1 = c\<lparr>c_recv := r\<rparr>
        in (exhausted,
            if exhausted then c1\<lparr>c_rapid_reset_goaways := c_rapid_reset_goaways c1 + 1\<rparr> else c1))"

section \<open>Projections of the state operations\<close>

named_theorems conn_simps \<open>fields of the connection after a state operation\<close>

lemma map_recv_simps [simp]:
  "c_recv (map_recv f c) = f (c_recv c)"
  "c_streams (map_recv f c) = c_streams c"
  "c_dec (map_recv f c) = c_dec c" "c_enc (map_recv f c) = c_enc c"
  "c_memo (map_recv f c) = c_memo c" "c_out (map_recv f c) = c_out c"
  "c_peer (map_recv f c) = c_peer c" "c_inflight (map_recv f c) = c_inflight c"
  "c_inflight_sids (map_recv f c) = c_inflight_sids c" "c_cancelled (map_recv f c) = c_cancelled c"
  "c_body_budget (map_recv f c) = c_body_budget c"
  by (simp_all add: map_recv_def)

lemma out_frames_simps [simp]:
  "c_recv (out_frames f c) = c_recv c" "c_streams (out_frames f c) = c_streams c"
  "c_dec (out_frames f c) = c_dec c" "c_enc (out_frames f c) = c_enc c"
  "c_memo (out_frames f c) = c_memo c" "c_out (out_frames f c) = f (c_out c)"
  "c_peer (out_frames f c) = c_peer c" "c_inflight (out_frames f c) = c_inflight c"
  "c_inflight_sids (out_frames f c) = c_inflight_sids c"
  "c_cancelled (out_frames f c) = c_cancelled c"
  "c_body_budget (out_frames f c) = c_body_budget c"
  by (simp_all add: out_frames_def)

lemma drop_state_simps [simp]:
  "c_recv (drop_state st c) = c_recv c" "c_streams (drop_state st c) = c_streams c"
  "c_dec (drop_state st c) = c_dec c" "c_enc (drop_state st c) = c_enc c"
  "c_memo (drop_state st c) = c_memo c" "c_out (drop_state st c) = c_out c"
  "c_peer (drop_state st c) = c_peer c" "c_inflight (drop_state st c) = c_inflight c"
  "c_inflight_sids (drop_state st c) = c_inflight_sids c"
  "c_cancelled (drop_state st c) = c_cancelled c"
  by (simp_all add: drop_state_def split: option.splits)

lemma put_stream_simps [simp]:
  "c_recv (put_stream sid st c) = c_recv c"
  "c_streams (put_stream sid st c) = AList.update sid st (c_streams c)"
  "c_dec (put_stream sid st c) = c_dec c" "c_enc (put_stream sid st c) = c_enc c"
  "c_memo (put_stream sid st c) = c_memo c" "c_out (put_stream sid st c) = c_out c"
  "c_peer (put_stream sid st c) = c_peer c" "c_inflight (put_stream sid st c) = c_inflight c"
  "c_inflight_sids (put_stream sid st c) = c_inflight_sids c"
  "c_cancelled (put_stream sid st c) = c_cancelled c"
  "c_body_budget (put_stream sid st c) = c_body_budget c"
  by (simp_all add: put_stream_def)

lemma remove_stream_simps [simp]:
  "c_recv (remove_stream sid c) = c_recv c"
  "c_streams (remove_stream sid c) = AList.delete sid (c_streams c)"
  "c_dec (remove_stream sid c) = c_dec c" "c_enc (remove_stream sid c) = c_enc c"
  "c_memo (remove_stream sid c) = c_memo c" "c_out (remove_stream sid c) = c_out c"
  "c_peer (remove_stream sid c) = c_peer c" "c_inflight (remove_stream sid c) = c_inflight c"
  "c_inflight_sids (remove_stream sid c) = c_inflight_sids c"
  "c_cancelled (remove_stream sid c) = c_cancelled c"
  "c_body_budget (remove_stream sid c) = c_body_budget c"
  by (simp_all add: remove_stream_def)

lemma get_stream_simps [simp]:
  "get_stream (map_recv f c) s = get_stream c s"
  "get_stream (out_frames g c) s = get_stream c s"
  "get_stream (drop_state st c) s = get_stream c s"
  "get_stream (put_stream sid st c) s = (if s = sid then Some st else get_stream c s)"
  "get_stream (remove_stream sid c) s = (if s = sid then None else get_stream c s)"
  by (simp_all add: get_stream_def update_conv delete_conv)

lemma release_stream_simps [simp]:
  "r_open_header_block (release_stream st r) = r_open_header_block r"
  "r_discarding_header_block (release_stream st r) = r_discarding_header_block r"
  "r_last_client_stream (release_stream st r) = r_last_client_stream r"
  by (simp_all add: release_stream_def)

section \<open>RecentIds keeps the most recent resets\<close>

definition recent_ok :: "nat \<Rightarrow> recent_ids \<Rightarrow> bool" where
  "recent_ok cap r =
     (ri_ids r = set (ri_order r) \<and> distinct (ri_order r) \<and> length (ri_order r) \<le> cap)"

lemma recent_evict_order:
  "0 < cap \<Longrightarrow> ri_order (recent_evict cap r) = drop (Suc (length (ri_order r)) - cap) (ri_order r)"
proof (induction cap r rule: recent_evict.induct)
  case (1 cap r)
  show ?case
  proof (cases "ri_order r")
    case Nil
    then show ?thesis using "1.prems" by (subst recent_evict.simps) simp
  next
    case (Cons x xs)
    show ?thesis
    proof (cases "length (ri_order r) \<ge> cap")
      case True
      then have "Suc (length (ri_order r)) - cap = Suc (Suc (length xs) - cap)" using Cons by simp
      then show ?thesis using 1 True Cons by (subst recent_evict.simps) simp
    next
      case False
      then show ?thesis by (subst recent_evict.simps) simp
    qed
  qed
qed

lemma recent_evict_ids:
  "ri_ids r = set (ri_order r) \<Longrightarrow> distinct (ri_order r) \<Longrightarrow>
     ri_ids (recent_evict cap r) = set (ri_order (recent_evict cap r))"
proof (induction cap r rule: recent_evict.induct)
  case (1 cap r)
  show ?case
  proof (cases "ri_order r")
    case Nil
    then show ?thesis using "1.prems" by (subst (1 2) recent_evict.simps) simp
  next
    case (Cons x xs)
    have "set (x # xs) - {x} = set xs" using "1.prems"(2) Cons by auto
    then show ?thesis using 1 Cons by (subst (1 2) recent_evict.simps) simp
  qed
qed

lemma recent_insert_order:
  assumes "recent_ok cap r"
  shows "ri_order (recent_insert sid cap r) =
      (if cap = 0 \<or> sid \<in> set (ri_order r) then ri_order r
       else drop (Suc (length (ri_order r)) - cap) (ri_order r @ [sid]))"
  using assms by (auto simp: recent_insert_def recent_ok_def recent_evict_order Let_def)

lemma recent_insert_ok:
  assumes "recent_ok cap r"
  shows "recent_ok cap (recent_insert sid cap r)"
proof (cases "cap = 0 \<or> sid \<in> set (ri_order r)")
  case True
  then show ?thesis using assms by (auto simp: recent_insert_def recent_ok_def)
next
  case False
  let ?n = "Suc (length (ri_order r)) - cap"
  have o: "ri_order (recent_insert sid cap r) = drop ?n (ri_order r @ [sid])"
    using recent_insert_order [OF assms] False by simp
  have "distinct (ri_order r @ [sid])" using assms False by (simp add: recent_ok_def)
  then have d: "distinct (drop ?n (ri_order r @ [sid]))" by (rule distinct_drop)
  have "ri_ids (recent_evict cap r) = set (ri_order (recent_evict cap r))"
    using assms by (intro recent_evict_ids) (simp_all add: recent_ok_def)
  then have "ri_ids (recent_insert sid cap r) = set (ri_order (recent_insert sid cap r))"
    using False assms by (simp add: recent_insert_def recent_ok_def Let_def)
  then show ?thesis using o d by (simp add: recent_ok_def)
qed

lemma recent_ok_empty: "recent_ok cap recent_empty"
  by (simp add: recent_ok_def recent_empty_def)

lemma recent_insert_contains: "0 < cap \<Longrightarrow> recent_contains (recent_insert sid cap r) sid"
  by (simp add: recent_contains_def recent_insert_def Let_def)

text \<open>C28. After a sequence of resets of different streams the bounded set holds exactly the most
  recent ones, up to its capacity: a long-lived connection never stops tracking new resets.\<close>

theorem recent_keeps_latest:
  assumes "0 < cap" "distinct sids"
  shows "ri_order (fold (\<lambda>s. recent_insert s cap) sids recent_empty) = drop (length sids - cap) sids \<and>
     (\<forall>s. recent_contains (fold (\<lambda>s. recent_insert s cap) sids recent_empty) s \<longleftrightarrow>
        s \<in> set (drop (length sids - cap) sids))"
proof -
  let ?f = "\<lambda>sids. fold (\<lambda>s. recent_insert s cap) sids recent_empty"
  have "recent_ok cap (?f sids) \<and> ri_order (?f sids) = drop (length sids - cap) sids"
    using assms(2)
  proof (induction sids rule: rev_induct)
    case Nil
    show ?case by (simp add: recent_ok_empty) (simp add: recent_empty_def)
  next
    case (snoc x xs)
    then have ok: "recent_ok cap (?f xs)" and o: "ri_order (?f xs) = drop (length xs - cap) xs" by auto
    have "x \<notin> set (ri_order (?f xs))" using snoc.prems o by (auto dest: in_set_dropD)
    then have "ri_order (?f (xs @ [x])) =
        drop (Suc (length (ri_order (?f xs))) - cap) (ri_order (?f xs) @ [x])"
      using assms(1) recent_insert_order [OF ok, of x] by simp
    also have "\<dots> = drop (Suc (length xs) - cap) (xs @ [x])"
    proof (cases "length xs \<le> cap")
      case True
      then show ?thesis using o by simp
    next
      case False
      then have "length (ri_order (?f xs)) = cap" using o by simp
      moreover have "Suc (length xs) - cap = Suc (length xs - cap)" using False by simp
      ultimately show ?thesis using o assms(1) False by (simp add: drop_Suc tl_drop)
    qed
    finally show ?case using recent_insert_ok [OF ok, of x] by simp
  qed
  then show ?thesis by (simp add: recent_ok_def recent_contains_def)
qed

theorem recent_keeps_latest_witness:
  "ri_order (fold (\<lambda>s. recent_insert s 2) [1, 3, 5] recent_empty) = [3, 5]"
  using recent_keeps_latest [of 2 "[1, 3, 5]"] by simp

section \<open>The rapid-reset budget\<close>

text \<open>All the resets of a sequence of instants are admitted.\<close>

primrec resets_admitted :: "nat list \<Rightarrow> recv \<Rightarrow> bool" where
  "resets_admitted [] r = True"
| "resets_admitted (t # ts) r =
     (case charge_inflight_reset_at t r of (exhausted, r') \<Rightarrow> \<not> exhausted \<and> resets_admitted ts r')"

definition debt :: "recv \<Rightarrow> nat" where
  "debt r = (case r_reset_debt_until r of None \<Rightarrow> 0 | Some t \<Rightarrow> t)"

lemma charge_debt:
  "charge_inflight_reset_at t r = (e, r') \<Longrightarrow>
     debt r' = max t (debt r) + RAPID_RESET_REFILL \<and>
     (\<not> e \<longleftrightarrow> debt r' \<le> t + RAPID_RESET_REFILL * RAPID_RESET_BURST)"
  by (auto simp: charge_inflight_reset_at_def debt_def Let_def split: option.splits)

lemma resets_admitted_debt:
  assumes "resets_admitted ts r" "ts \<noteq> []"
  shows "max (hd ts) (debt r) + length ts * RAPID_RESET_REFILL
     \<le> last ts + RAPID_RESET_REFILL * RAPID_RESET_BURST"
  using assms
proof (induction ts arbitrary: r)
  case (Cons t ts)
  obtain e r' where ch: "charge_inflight_reset_at t r = (e, r')" by (metis surj_pair)
  then have adm: "\<not> e" "resets_admitted ts r'" using Cons.prems by auto
  have d: "debt r' = max t (debt r) + RAPID_RESET_REFILL"
    and le: "debt r' \<le> t + RAPID_RESET_REFILL * RAPID_RESET_BURST"
    using charge_debt [OF ch] adm by auto
  show ?case
  proof (cases "ts = []")
    case True
    then show ?thesis using d le by simp
  next
    case False
    then have "debt r' + length ts * RAPID_RESET_REFILL \<le> last ts + RAPID_RESET_REFILL * RAPID_RESET_BURST"
      using Cons.IH [OF adm(2) False] by linarith
    then show ?thesis using d False by simp
  qed
qed simp

lemma burst_admitted:
  "debt r \<le> t \<or> n = 0 \<Longrightarrow> resets_admitted (replicate n t) r \<longleftrightarrow> n \<le> RAPID_RESET_BURST"
proof -
  assume "debt r \<le> t \<or> n = 0"
  have gen: "t \<le> debt r \<Longrightarrow> resets_admitted (replicate n t) r \<longleftrightarrow>
      n = 0 \<or> debt r + n * RAPID_RESET_REFILL \<le> t + RAPID_RESET_REFILL * RAPID_RESET_BURST" for r
  proof (induction n arbitrary: r)
    case (Suc n)
    obtain e r' where ch: "charge_inflight_reset_at t r = (e, r')" by (metis surj_pair)
    have d: "debt r' = debt r + RAPID_RESET_REFILL"
      and e: "\<not> e \<longleftrightarrow> debt r' \<le> t + RAPID_RESET_REFILL * RAPID_RESET_BURST"
      using charge_debt [OF ch] Suc.prems by auto
    have "resets_admitted (replicate n t) r' \<longleftrightarrow>
        n = 0 \<or> debt r' + n * RAPID_RESET_REFILL \<le> t + RAPID_RESET_REFILL * RAPID_RESET_BURST"
      using Suc.IH [of r'] d Suc.prems by simp
    then show ?case using ch d e by auto
  qed simp
  show ?thesis
  proof (cases n)
    case (Suc m)
    then have le: "debt r \<le> t" using \<open>debt r \<le> t \<or> n = 0\<close> by simp
    obtain e r' where ch: "charge_inflight_reset_at t r = (e, r')" by (metis surj_pair)
    have d: "debt r' = t + RAPID_RESET_REFILL"
      and e: "\<not> e \<longleftrightarrow> debt r' \<le> t + RAPID_RESET_REFILL * RAPID_RESET_BURST"
      using charge_debt [OF ch] le by auto
    have same: "t \<le> debt (r\<lparr>r_reset_debt_until := Some t\<rparr>)"
        "debt (r\<lparr>r_reset_debt_until := Some t\<rparr>) = t" by (simp_all add: debt_def)
    have "charge_inflight_reset_at t (r\<lparr>r_reset_debt_until := Some t\<rparr>) = (e, r')"
      using ch le by (auto simp: charge_inflight_reset_at_def debt_def Let_def split: option.splits if_splits)
    then have "resets_admitted (replicate n t) r \<longleftrightarrow>
        resets_admitted (replicate n t) (r\<lparr>r_reset_debt_until := Some t\<rparr>)"
      using ch Suc by simp
    also have "\<dots> \<longleftrightarrow> n * RAPID_RESET_REFILL \<le> RAPID_RESET_REFILL * RAPID_RESET_BURST"
      using gen [OF same(1), of ] same(2) Suc by simp
    finally show ?thesis by (simp add: RAPID_RESET_REFILL_def RAPID_RESET_BURST_def)
  qed simp
qed

text \<open>C29. The rapid-reset budget: between the first and the last of any resets of running handlers
  that a connection survives, at most a burst plus one per refill interval fit, whatever else the
  peer does in between; and from a full budget a burst at one instant is admitted exactly up to
  its size.\<close>

theorem rapid_reset_bound:
  "(resets_admitted ts r \<longrightarrow> ts \<noteq> [] \<longrightarrow>
      length ts * RAPID_RESET_REFILL \<le> RAPID_RESET_BURST * RAPID_RESET_REFILL + (last ts - hd ts)) \<and>
   (debt r \<le> t \<longrightarrow> (resets_admitted (replicate n t) r \<longleftrightarrow> n \<le> RAPID_RESET_BURST))"
  using resets_admitted_debt [of ts r] burst_admitted [of r t n] by (auto simp: ac_simps)

theorem rapid_reset_bound_witness:
  "\<exists>r. resets_admitted (replicate 200 5) r \<and> \<not> resets_admitted (replicate 201 5) r \<and>
     length (replicate 200 (5::nat)) * RAPID_RESET_REFILL
       \<le> RAPID_RESET_BURST * RAPID_RESET_REFILL + (last (replicate 200 5) - hd (replicate 200 5))"
proof -
  define r0 where "r0 = (undefined :: recv)\<lparr>r_reset_debt_until := None\<rparr>"
  have d: "debt r0 \<le> 5" by (simp add: r0_def debt_def)
  have a: "resets_admitted (replicate 200 5) r0" and b: "\<not> resets_admitted (replicate 201 5) r0"
    using rapid_reset_bound [of "[]" r0 5 200] rapid_reset_bound [of "[]" r0 5 201] d
    by (simp_all add: RAPID_RESET_BURST_def)
  have "replicate 200 (5::nat) \<noteq> []" by simp
  with a b show ?thesis
    using rapid_reset_bound [of "replicate 200 5" r0 5 0] by blast
qed

section \<open>Sums over the stream table\<close>

definition sum_streams :: "('v \<Rightarrow> nat) \<Rightarrow> ('k \<times> 'v) list \<Rightarrow> nat" where
  "sum_streams f al = sum_list (map (\<lambda>(k, v). f v) al)"

lemma sum_streams_simps [simp]:
  "sum_streams f [] = 0" "sum_streams f ((k, v) # al) = f v + sum_streams f al"
  by (simp_all add: sum_streams_def)

lemma delete_absent: "k \<notin> fst ` set al \<Longrightarrow> AList.delete k al = al"
  by (induction al) auto

lemma sum_delete:
  assumes "distinct (map fst al)" "map_of al k = Some v"
  shows "sum_streams f al = sum_streams f (AList.delete k al) + f v"
  using assms
proof (induction al)
  case (Cons a al)
  obtain k' v' where a: "a = (k', v')" by (cases a)
  show ?case
  proof (cases "k = k'")
    case True
    then have "k \<notin> fst ` set al" using Cons.prems(1) a by auto
    then show ?thesis using Cons.prems(2) a True by (simp add: delete_absent)
  next
    case False
    then show ?thesis using Cons a by simp
  qed
qed simp

lemma update_absent: "map_of al k = None \<Longrightarrow> AList.update k v al = al @ [(k, v)]"
  by (induction al) (auto split: if_splits)

lemma sum_streams_append [simp]: "sum_streams f (al @ bl) = sum_streams f al + sum_streams f bl"
  by (simp add: sum_streams_def)

lemma sum_update_new: "map_of al k = None \<Longrightarrow> sum_streams f (AList.update k v al) = sum_streams f al + f v"
  by (simp add: update_absent)

lemma sum_update_old:
  "map_of al k = Some v \<Longrightarrow>
     sum_streams f (AList.update k w al) + f v = sum_streams f al + f w"
proof (induction al)
  case (Cons a al)
  then show ?case by (cases a) (auto split: if_splits)
qed simp

lemma sum_update_same:
  "map_of al k = Some v \<Longrightarrow> f w = f v \<Longrightarrow> sum_streams f (AList.update k w al) = sum_streams f al"
  using sum_update_old [of al k v f w] by simp

lemma set_update_cases: "(s, x) \<in> set (AList.update k w al) \<Longrightarrow> (s, x) \<in> set al \<or> (s = k \<and> x = w)"
  by (induction al) (auto split: if_splits)

lemma set_delete: "(s, x) \<in> set (AList.delete k al) \<longleftrightarrow> (s, x) \<in> set al \<and> s \<noteq> k"
  by (auto simp: AList.delete_eq)

lemma keys_delete: "fst ` set (AList.delete k al) = fst ` set al - {k}"
  by (auto simp: AList.delete_eq)

lemma update_same: "map_of al k = Some v \<Longrightarrow> AList.update k v al = al"
  by (induction al) auto

lemma delete_update: "AList.delete k (AList.update k v al) = AList.delete k al"
  by (induction al) (auto simp: AList.delete_eq)

section \<open>Accounting\<close>

definition lease_of :: "lease option \<Rightarrow> nat" where
  "lease_of l = (case l of None \<Rightarrow> 0 | Some h \<Rightarrow> h)"

lemma lease_of_simps [simp]: "lease_of None = 0" "lease_of (Some h) = h"
  by (simp_all add: lease_of_def)

text \<open>What a stream holds of the server-wide budget is its body and the charge for its headers.\<close>

definition lease_exact :: "budget option \<Rightarrow> 'h stream_state \<Rightarrow> bool" where
  "lease_exact bo st =
     (case bo of
        None \<Rightarrow> st_body_lease st = None
      | Some _ \<Rightarrow> lease_of (st_body_lease st) = st_header_charge st + length (st_body st))"

definition inflight_held :: "(u32 \<times> bool \<times> 'h request) list \<Rightarrow> nat" where
  "inflight_held fs = sum_list (map (\<lambda>(sid, is_head, rq). lease_of (rq_body_lease rq)) fs)"

definition limits_ok :: "recv \<Rightarrow> bool" where
  "limits_ok r = (r_per_conn_request_body r < usize_max \<and> r_pending_header_mem r < usize_max)"

text \<open>
  The accounting invariant of a connection. The counters of \<open>Recv\<close> are the sums over the streams
  being received and respect their limits, every lease is exact, and the server-wide ledger
  records what this connection's streams and dispatched requests hold besides \<open>others\<close>, the share
  of the other connections.
\<close>

definition acct_inv :: "nat \<Rightarrow> 'h conn \<Rightarrow> bool" where
  "acct_inv others c =
     (distinct (map fst (c_streams c)) \<and>
      r_total_buffered (c_recv c) = sum_streams (\<lambda>st. length (st_body st)) (c_streams c) \<and>
      r_pending_header_bytes (c_recv c) = sum_streams st_header_charge (c_streams c) \<and>
      r_total_buffered (c_recv c) \<le> r_per_conn_request_body (c_recv c) \<and>
      r_pending_header_bytes (c_recv c) \<le> max (r_pending_header_mem (c_recv c)) (2 ^ 32 - 1) \<and>
      limits_ok (c_recv c) \<and>
      (\<forall>(sid, st) \<in> set (c_streams c). lease_exact (c_body_budget c) st) \<and>
      (\<forall>b. c_body_budget c = Some b \<longrightarrow>
         ledger_ok b (others + sum_streams (\<lambda>st. lease_of (st_body_lease st)) (c_streams c)
                      + inflight_held (c_inflight c))))"

text \<open>The fields the invariant reads.\<close>

definition same_acct :: "'h conn \<Rightarrow> 'h conn \<Rightarrow> bool" where
  "same_acct c d =
     (c_streams d = c_streams c \<and> c_inflight d = c_inflight c \<and> c_body_budget d = c_body_budget c \<and>
      r_total_buffered (c_recv d) = r_total_buffered (c_recv c) \<and>
      r_pending_header_bytes (c_recv d) = r_pending_header_bytes (c_recv c) \<and>
      r_per_conn_request_body (c_recv d) = r_per_conn_request_body (c_recv c) \<and>
      r_pending_header_mem (c_recv d) = r_pending_header_mem (c_recv c))"

lemma acct_inv_same: "same_acct c d \<Longrightarrow> acct_inv others d = acct_inv others c"
  by (simp add: same_acct_def acct_inv_def limits_ok_def)

lemma same_acct_out [simp]: "same_acct c (out_frames f c)"
  by (simp add: same_acct_def)

lemma acct_inv_out [simp]: "acct_inv others (out_frames f c) = acct_inv others c"
  by (rule acct_inv_same) simp

lemma stream_in_table: "get_stream c sid = Some st \<Longrightarrow> (sid, st) \<in> set (c_streams c)"
  by (simp add: get_stream_def map_of_SomeD)

lemma lease_exact_cong:
  "st_body_lease st' = st_body_lease st \<Longrightarrow> st_header_charge st' = st_header_charge st \<Longrightarrow>
   length (st_body st') = length (st_body st) \<Longrightarrow> lease_exact bo st' = lease_exact bo st"
  by (simp add: lease_exact_def split: option.splits)

lemma lease_exact_budget: "lease_exact (Some b) st = lease_exact (Some b') st"
  by (simp add: lease_exact_def)

text \<open>Replacing a stream by one of the same body, charge and lease.\<close>

lemma acct_inv_put_same:
  assumes "acct_inv others c" "get_stream c sid = Some st"
    and "st_body st' = st_body st" "st_header_charge st' = st_header_charge st"
      "st_body_lease st' = st_body_lease st"
  shows "acct_inv others (put_stream sid st' c)"
proof -
  have old: "map_of (c_streams c) sid = Some st" using assms(2) by (simp add: get_stream_def)
  have sums: "sum_streams f (AList.update sid st' (c_streams c)) = sum_streams f (c_streams c)"
    if "f st' = f st" for f using sum_update_same [of _ sid st f st'] old that by blast
  have "lease_exact (c_body_budget c) st'"
    using assms stream_in_table [OF assms(2)] lease_exact_cong [of st' st]
    by (fastforce simp: acct_inv_def)
  then have "\<forall>(s, x) \<in> set (AList.update sid st' (c_streams c)). lease_exact (c_body_budget c) x"
    using assms(1) by (auto simp: acct_inv_def dest!: set_update_cases)
  then show ?thesis
    using assms sums [of "\<lambda>st. length (st_body st)"] sums [of st_header_charge]
      sums [of "\<lambda>st. lease_of (st_body_lease st)"]
    by (simp add: acct_inv_def distinct_update)
qed

text \<open>A new stream holds nothing.\<close>

lemma acct_inv_put_new:
  assumes "acct_inv others c" "get_stream c sid = None"
    and "st_body st = []" "st_header_charge st = 0" "st_body_lease st = None"
  shows "acct_inv others (put_stream sid st c)"
proof -
  have new: "map_of (c_streams c) sid = None" using assms(2) by (simp add: get_stream_def)
  have "lease_exact (c_body_budget c) st" using assms by (simp add: lease_exact_def split: option.splits)
  then have "\<forall>(s, x) \<in> set (AList.update sid st (c_streams c)). lease_exact (c_body_budget c) x"
    using assms(1) by (auto simp: acct_inv_def dest!: set_update_cases)
  then show ?thesis
    using assms sum_update_new [OF new] by (simp add: acct_inv_def distinct_update)
qed

text \<open>Taking a stream out of the table and its counters leaves its lease to be accounted for.\<close>

lemma acct_remove:
  assumes "acct_inv others c" "get_stream c sid = Some st"
  shows "acct_inv others (drop_state st (map_recv (release_stream st) (remove_stream sid c)))" (is ?A)
    and "acct_inv (others + lease_of (st_body_lease st)) (map_recv (release_stream st) (remove_stream sid c))"
      (is ?B)
proof -
  let ?al = "c_streams c" and ?bl = "AList.delete sid (c_streams c)"
  have old: "map_of ?al sid = Some st" using assms(2) by (simp add: get_stream_def)
  have d: "distinct (map fst ?al)" using assms(1) by (simp add: acct_inv_def)
  have sums: "sum_streams f ?al = sum_streams f ?bl + f st" for f using sum_delete [OF d old] by blast
  have ex: "\<forall>(s, x) \<in> set ?bl. lease_exact (c_body_budget c) x"
    using assms(1) by (auto simp: acct_inv_def set_delete)
  have ledger: "ledger_ok b (others + lease_of (st_body_lease st)
      + sum_streams (\<lambda>st. lease_of (st_body_lease st)) ?bl + inflight_held (c_inflight c))"
    if "c_body_budget c = Some b" for b
    using assms(1) that sums [of "\<lambda>st. lease_of (st_body_lease st)"] by (simp add: acct_inv_def ac_simps)
  show B: ?B
    using assms(1) sums [of "\<lambda>st. length (st_body st)"] sums [of st_header_charge] ex ledger d
    by (auto simp: acct_inv_def release_stream_def limits_ok_def distinct_delete)
  show ?A
  proof (cases "c_body_budget c")
    case None
    then show ?thesis using B by (auto simp: acct_inv_def drop_state_def)
  next
    case (Some b)
    show ?thesis
    proof (cases "st_body_lease st")
      case None
      then show ?thesis using B Some by (simp add: drop_state_def)
    next
      case held: (Some h)
      have "ledger_ok b (others + sum_streams (\<lambda>st. lease_of (st_body_lease st)) ?bl
          + inflight_held (c_inflight c) + h)"
        using ledger [OF Some] held by (simp add: ac_simps)
      then have "ledger_ok (lease_drop b h) (others + sum_streams (\<lambda>st. lease_of (st_body_lease st)) ?bl
          + inflight_held (c_inflight c))"
        by (rule lease_drop_ledger)
      then show ?thesis
        using B Some held ex by (auto simp: acct_inv_def drop_state_def lease_exact_def limits_ok_def)
    qed
  qed
qed

lemma acct_drop_receiving: "acct_inv others c \<Longrightarrow> acct_inv others (drop_receiving sid c)"
  by (auto simp: drop_receiving_def acct_remove split: option.splits)

lemma same_acct_note:
  "same_acct c (map_recv (note_reset sid) c)"
  "same_acct c (map_recv (\<lambda>r. r\<lparr>r_sent_reset_ids := f r\<rparr>) c)"
  by (simp_all add: same_acct_def note_reset_def)

lemma acct_teardown: "acct_inv others c \<Longrightarrow> acct_inv others (teardown_receiving sid c)"
  by (simp add: teardown_receiving_def Let_def acct_inv_same [OF same_acct_note(1)]
      acct_inv_same [OF same_acct_note(2)] acct_drop_receiving)

lemma acct_expire:
  assumes "acct_inv others c"
  shows "acct_inv others (snd (expire_receiving sid c))"
proof -
  have "acct_inv others (map_recv (\<lambda>r. r\<lparr>r_discard_header_block := x, r_discarding_header_block := True,
      r_discard_rst_code := err_CANCEL\<rparr>) (put_stream sid (st\<lparr>st_header_block := []\<rparr>) c))"
    if "get_stream c sid = Some st" for st x
  proof -
    have "acct_inv others (put_stream sid (st\<lparr>st_header_block := []\<rparr>) c)"
      using acct_inv_put_same [OF assms that] by simp
    then show ?thesis by (rule acct_inv_same [THEN iffD2, rotated]) (simp add: same_acct_def)
  qed
  then show ?thesis using assms
    by (auto simp: expire_receiving_def Let_def intro!: acct_teardown split: option.splits)
qed

text \<open>A stream grows (its body or its charge) together with the counters and the budget.\<close>

lemma acct_change:
  assumes inv: "acct_inv others c" and st: "get_stream c sid = Some st"
    and d: "c_streams d = c_streams c" "c_inflight d = c_inflight c"
    and total: "r_total_buffered (c_recv d) + length (st_body st) = r_total_buffered (c_recv c) + length (st_body st')"
    and pending: "r_pending_header_bytes (c_recv d) + st_header_charge st
        = r_pending_header_bytes (c_recv c) + st_header_charge st'"
    and bounds: "r_total_buffered (c_recv d) \<le> r_per_conn_request_body (c_recv d)"
      "r_pending_header_bytes (c_recv d) \<le> max (r_pending_header_mem (c_recv d)) (2 ^ 32 - 1)"
      "limits_ok (c_recv d)"
    and exact: "lease_exact (c_body_budget d) st'"
    and ledger: "\<And>b'. c_body_budget d = Some b' \<Longrightarrow> \<exists>b. c_body_budget c = Some b \<and>
        (\<forall>t. ledger_ok b (t + lease_of (st_body_lease st)) \<longrightarrow> ledger_ok b' (t + lease_of (st_body_lease st')))"
    and none: "c_body_budget d = None \<Longrightarrow> c_body_budget c = None"
  shows "acct_inv others (put_stream sid st' d)"
proof -
  have old: "map_of (c_streams c) sid = Some st" using st by (simp add: get_stream_def)
  let ?l = "\<lambda>st. lease_of (st_body_lease st)"
  have sums: "sum_streams f (AList.update sid st' (c_streams c)) + f st = sum_streams f (c_streams c) + f st'" for f
    using sum_update_old [OF old] by blast
  have other: "lease_exact (c_body_budget d) x" if "(s, x) \<in> set (c_streams c)" for s x
  proof -
    have x: "lease_exact (c_body_budget c) x" using inv that by (auto simp: acct_inv_def)
    show ?thesis
    proof (cases "c_body_budget d")
      case None
      then show ?thesis using x none by simp
    next
      case (Some b')
      then obtain b where "c_body_budget c = Some b" using ledger by blast
      then show ?thesis using x Some by (simp add: lease_exact_def)
    qed
  qed
  then have ex: "\<forall>(s, x) \<in> set (AList.update sid st' (c_streams c)). lease_exact (c_body_budget d) x"
    using exact by (auto dest!: set_update_cases)
  have led: "ledger_ok b' (others + sum_streams ?l (AList.update sid st' (c_streams c)) + inflight_held (c_inflight c))"
    if b': "c_body_budget d = Some b'" for b'
  proof -
    let ?t = "others + (sum_streams ?l (c_streams c) - ?l st) + inflight_held (c_inflight c)"
    have le: "?l st \<le> sum_streams ?l (c_streams c)"
      using sum_delete [of "c_streams c" sid st ?l] old inv by (simp add: acct_inv_def)
    from ledger [OF b'] obtain b where b: "c_body_budget c = Some b"
      and step: "\<forall>t. ledger_ok b (t + ?l st) \<longrightarrow> ledger_ok b' (t + ?l st')" by blast
    have "ledger_ok b (?t + ?l st)" using inv b le by (simp add: acct_inv_def)
    then have "ledger_ok b' (?t + ?l st')" using step by blast
    moreover have "?t + ?l st' = others + sum_streams ?l (AList.update sid st' (c_streams c)) + inflight_held (c_inflight c)"
      using le sums [of ?l] by linarith
    ultimately show ?thesis by metis
  qed
  have "r_total_buffered (c_recv d) = sum_streams (\<lambda>st. length (st_body st)) (AList.update sid st' (c_streams c))"
    using total sums [of "\<lambda>st. length (st_body st)"] inv by (simp add: acct_inv_def)
  moreover have "r_pending_header_bytes (c_recv d) = sum_streams st_header_charge (AList.update sid st' (c_streams c))"
    using pending sums [of st_header_charge] inv by (simp add: acct_inv_def)
  ultimately show ?thesis
    using inv d bounds ex led by (simp add: acct_inv_def distinct_update)
qed

lemma sat_add_within: "m < usize_max \<Longrightarrow> \<not> usize_sat_add a b > m \<Longrightarrow> usize_sat_add a b = a + b"
  by (auto simp: usize_sat_add_def min_def split: if_splits)

lemma admit_total:
  assumes "limits_ok r" "charge < 2 ^ 32"
    and "\<not> (r_pending_header_bytes r \<noteq> 0 \<and> usize_sat_add (r_pending_header_bytes r) charge > r_pending_header_mem r)"
  shows "usize_sat_add (r_pending_header_bytes r) charge = r_pending_header_bytes r + charge"
    and "r_pending_header_bytes r + charge \<le> max (r_pending_header_mem r) (2 ^ 32 - 1)"
proof -
  show eq: "usize_sat_add (r_pending_header_bytes r) charge = r_pending_header_bytes r + charge"
  proof (cases "r_pending_header_bytes r = 0")
    case True
    then show ?thesis using assms(2) by (simp add: usize_sat_add_def usize_max_def)
  next
    case False
    then show ?thesis using assms by (intro sat_add_within) (auto simp: limits_ok_def)
  qed
  show "r_pending_header_bytes r + charge \<le> max (r_pending_header_mem r) (2 ^ 32 - 1)"
    using assms(2,3) eq by (cases "r_pending_header_bytes r = 0") auto
qed

lemma acct_admit:
  assumes inv: "acct_inv others c" and st: "get_stream c sid = Some st"
    and zero: "st_header_charge st = 0" and small: "charge < 2 ^ 32"
    and adm: "admit_pending_headers st charge c = (ok, st', c')"
  shows "acct_inv others (put_stream sid st' c')"
proof -
  let ?r = "c_recv c"
  have lim: "limits_ok ?r" and h1: "r_total_buffered ?r \<le> r_per_conn_request_body ?r"
    and h2: "r_pending_header_bytes ?r \<le> max (r_pending_header_mem ?r) (2 ^ 32 - 1)"
    using inv by (simp_all add: acct_inv_def)
  show ?thesis
  proof (cases "r_pending_header_bytes ?r \<noteq> 0 \<and>
      usize_sat_add (r_pending_header_bytes ?r) charge > r_pending_header_mem ?r")
    case True
    then have "st' = st" "c' = c" using adm by (auto simp: admit_pending_headers_def Let_def)
    then show ?thesis using acct_inv_put_same [OF inv st] by simp
  next
    case False
    note tot = admit_total [OF lim small False]
    show ?thesis
    proof (cases "c_body_budget c")
      case None
      have exact: "lease_exact None st" using inv None stream_in_table [OF st] by (auto simp: acct_inv_def)
      have eqs: "st' = st\<lparr>st_header_charge := charge\<rparr>"
        "c' = map_recv (\<lambda>r. r\<lparr>r_pending_header_bytes := r_pending_header_bytes ?r + charge\<rparr>) c"
        using adm None False tot(1) by (auto simp: admit_pending_headers_def Let_def)
      show ?thesis
        using None exact zero lim h1 tot(2) unfolding eqs
        by (intro acct_change [OF inv st]) (simp_all add: lease_exact_def limits_ok_def)
    next
      case (Some b)
      define held where "held = lease_of (st_body_lease st)"
      obtain k b' held' where res: "lease_reserve b held charge = (k, b', held')" by (metis prod_cases3)
      have lease: "(case st_body_lease st of Some h \<Rightarrow> h | None \<Rightarrow> lease_new) = held"
        by (simp add: held_def lease_of_def lease_new_def split: option.splits)
      have "lease_exact (Some b) st" using inv Some stream_in_table [OF st] by (auto simp: acct_inv_def)
      then have exact: "held = length (st_body st)" using zero by (simp add: lease_exact_def held_def)
      have led: "ledger_ok b' (t + held') \<and> held' = (if k then held + charge else held)"
        if "ledger_ok b (t + held)" for t using lease_reserve_ledger [OF that res] .
      obtain t0 where "ledger_ok b (t0 + held)"
      proof -
        have "held \<le> sum_streams (\<lambda>st. lease_of (st_body_lease st)) (c_streams c)"
          using sum_delete [of "c_streams c" sid st "\<lambda>st. lease_of (st_body_lease st)"] st inv
          by (simp add: acct_inv_def get_stream_def held_def)
        moreover have "ledger_ok b (others + sum_streams (\<lambda>st. lease_of (st_body_lease st)) (c_streams c)
            + inflight_held (c_inflight c))" using inv Some by (simp add: acct_inv_def)
        ultimately show thesis
          using that [of "others + (sum_streams (\<lambda>st. lease_of (st_body_lease st)) (c_streams c) - held)
            + inflight_held (c_inflight c)"] by simp
      qed
      from led [OF this] have held': "held' = (if k then held + charge else held)" by simp
      show ?thesis
      proof (cases k)
        case True
        have eqs: "st' = st\<lparr>st_body_lease := Some held', st_header_charge := charge\<rparr>"
          "c' = map_recv (\<lambda>r. r\<lparr>r_pending_header_bytes := r_pending_header_bytes ?r + charge\<rparr>)
             (c\<lparr>c_body_budget := Some b'\<rparr>)"
          using adm Some False tot(1) res lease True by (auto simp: admit_pending_headers_def Let_def)
        show ?thesis
          using Some exact zero lim h1 tot(2) held' True led unfolding eqs
          by (intro acct_change [OF inv st]) (simp_all add: lease_exact_def limits_ok_def held_def)
      next
        case False2: False
        have eqs: "st' = st\<lparr>st_body_lease := Some held'\<rparr>" "c' = c\<lparr>c_body_budget := Some b'\<rparr>"
          using adm Some False res lease False2 by (auto simp: admit_pending_headers_def Let_def)
        show ?thesis
          using Some exact zero lim h1 h2 held' False2 led unfolding eqs
          by (intro acct_change [OF inv st]) (simp_all add: lease_exact_def limits_ok_def held_def)
      qed
    qed
  qed
qed

end
