(* ===== verification/Uri_Authority.thy ===== *)
theory Uri_Authority
  imports Byte_Text
begin

text \<open>
  URI syntax checks and host normalisation shared by the transports, \<open>hj-core/src/net.rs\<close>. The
  parser of \<open>std::net::Ipv6Addr\<close>, which \<open>valid_ip_literal\<close> calls, is modelled as a recogniser that
  returns the rest of its input. The validators are proved equal to the grammar of RFC 3986,
  stated as inductive predicates.
\<close>

section \<open>Recognising an IPv6 address\<close>

text \<open>\<open>Parser::read_number\<close> with radix 10, at most three digits, no leading zero, into a \<open>u8\<close>.\<close>

definition read_octet :: "bytes \<Rightarrow> bytes option" where
  "read_octet s =
     (let ds = takeWhile is_ascii_digit s
      in if ds = [] \<or> length ds > 3 \<or> digits_value 0 ds > 255 \<or> (hd ds = 0x30 \<and> length ds > 1)
         then None else Some (drop (length ds) s))"

text \<open>\<open>Parser::read_number\<close> with radix 16, at most four digits, into a \<open>u16\<close>.\<close>

definition read_hex_group :: "bytes \<Rightarrow> bytes option" where
  "read_hex_group s =
     (let ds = takeWhile is_ascii_hexdigit s
      in if ds = [] \<or> length ds > 4 then None else Some (drop (length ds) s))"

definition read_separator :: "u8 \<Rightarrow> nat \<Rightarrow> (bytes \<Rightarrow> bytes option) \<Rightarrow> bytes \<Rightarrow> bytes option" where
  "read_separator sep index inner s =
     (if index > 0 then
        (case strip_prefix_byte sep s of None \<Rightarrow> None | Some s' \<Rightarrow> inner s')
      else inner s)"

primrec read_octets :: "nat \<Rightarrow> nat \<Rightarrow> bytes \<Rightarrow> bytes option" where
  "read_octets 0 i s = Some s"
| "read_octets (Suc n) i s =
     (case read_separator 0x2e i read_octet s of
        None \<Rightarrow> None
      | Some s' \<Rightarrow> read_octets n (Suc i) s')"

definition read_ipv4_addr :: "bytes \<Rightarrow> bytes option" where
  "read_ipv4_addr s = read_octets 4 0 s"

primrec read_groups :: "nat \<Rightarrow> nat \<Rightarrow> bytes \<Rightarrow> nat \<times> bool \<times> bytes" where
  "read_groups 0 i s = (i, False, s)"
| "read_groups (Suc left) i s =
     (case (if left > 0 then read_separator 0x3a i read_ipv4_addr s else None) of
        Some s' \<Rightarrow> (i + 2, True, s')
      | None \<Rightarrow>
          (case read_separator 0x3a i read_hex_group s of
             Some s' \<Rightarrow> read_groups left (Suc i) s'
           | None \<Rightarrow> (i, False, s)))"

definition parse_ipv6_ok :: "bytes \<Rightarrow> bool" where
  "parse_ipv6_ok s =
     (case read_groups 8 0 s of (head_size, head_ipv4, s1) \<Rightarrow>
        if head_size = 8 then s1 = []
        else if head_ipv4 then False
        else (case s1 of
                a # b # s2 \<Rightarrow>
                  a = 0x3a \<and> b = 0x3a \<and> snd (snd (read_groups (8 - (head_size + 1)) 0 s2)) = []
              | _ \<Rightarrow> False))"

section \<open>The functions of net.rs\<close>

definition host_without_port :: "bytes \<Rightarrow> bytes" where
  "host_without_port authority =
     (let a = str_trim authority;
          host = (case strip_prefix_byte 0x5b a of
                    Some rest \<Rightarrow> hd (split_byte 0x5d rest)
                  | None \<Rightarrow>
                      if length (filter (\<lambda>b. b = 0x3a) a) > 1 then a
                      else hd (split_byte 0x3a a))
      in to_ascii_lowercase (trim_end_byte 0x2e host))"

definition valid_uri_scheme :: "bytes \<Rightarrow> bool" where
  "valid_uri_scheme s =
     (case s of
        [] \<Rightarrow> False
      | b # r \<Rightarrow> is_ascii_alphabetic b \<and>
          list_all (\<lambda>b. is_ascii_alphanumeric b \<or> b \<in> {0x2b, 0x2d, 0x2e}) r)"

definition uri_sub_delim :: "u8 \<Rightarrow> bool" where
  "uri_sub_delim b =
     (b \<in> {0x21, 0x24, 0x26, 0x27, 0x28, 0x29, 0x2a, 0x2b, 0x2c, 0x3b, 0x3d})"

fun valid_uri_component :: "bytes \<Rightarrow> bool \<Rightarrow> bool" where
  "valid_uri_component [] allow_colon = True"
| "valid_uri_component (b # s) allow_colon =
     (if is_ascii_alphanumeric b \<or> b \<in> {0x2d, 0x2e, 0x5f, 0x7e} \<or> uri_sub_delim b
         \<or> (allow_colon \<and> b = 0x3a)
      then valid_uri_component s allow_colon
      else if b = 0x25 then
        (case s of
           x # y # s' \<Rightarrow> is_ascii_hexdigit x \<and> is_ascii_hexdigit y \<and> valid_uri_component s' allow_colon
         | _ \<Rightarrow> False)
      else False)"

definition valid_ip_literal :: "bytes \<Rightarrow> bool" where
  "valid_ip_literal s =
     (if parse_ipv6_ok s then True
      else case (case strip_prefix_byte 0x76 s of Some r \<Rightarrow> Some r | None \<Rightarrow> strip_prefix_byte 0x56 s) of
        None \<Rightarrow> False
      | Some rest \<Rightarrow>
          (case split_once 0x2e rest of
             None \<Rightarrow> False
           | Some (version, address) \<Rightarrow>
               version \<noteq> [] \<and> list_all is_ascii_hexdigit version \<and> address \<noteq> [] \<and>
               list_all (\<lambda>b. is_ascii_alphanumeric b \<or> b \<in> {0x2d, 0x2e, 0x5f, 0x7e, 0x3a}
                            \<or> uri_sub_delim b) address))"

definition valid_host_port :: "bytes \<Rightarrow> bool" where
  "valid_host_port host_port =
     (case strip_prefix_byte 0x5b host_port of
        Some literal \<Rightarrow>
          (case split_once 0x5d literal of
             None \<Rightarrow> False
           | Some (address, suffix) \<Rightarrow>
               valid_ip_literal address \<and>
               (suffix = [] \<or>
                (case strip_prefix_byte 0x3a suffix of
                   Some port \<Rightarrow> list_all is_ascii_digit port
                 | None \<Rightarrow> False)))
      | None \<Rightarrow>
          (case (case rsplit_once 0x3a host_port of
                   Some (host, port) \<Rightarrow> (host, Some port)
                 | None \<Rightarrow> (host_port, None)) of
             (host, port) \<Rightarrow>
               0x3a \<notin> set host \<and> valid_uri_component host False \<and>
               (case port of None \<Rightarrow> True | Some port \<Rightarrow> list_all is_ascii_digit port)))"

definition valid_uri_authority :: "bytes \<Rightarrow> bool" where
  "valid_uri_authority s =
     (case rsplit_once 0x40 s of
        Some (userinfo, host_port) \<Rightarrow>
          if 0x40 \<in> set host_port \<or> \<not> valid_uri_component userinfo True then False
          else valid_host_port host_port
      | None \<Rightarrow> valid_host_port s)"

definition valid_http_authority :: "bytes \<Rightarrow> bool" where
  "valid_http_authority s =
     (0x40 \<notin> set s \<and> valid_uri_authority s \<and> host_without_port s \<noteq> [])"

section \<open>The grammar\<close>

text \<open>RFC 3986, sections 3.2.1 to 3.2.3: \<open>userinfo\<close> and \<open>reg-name\<close> are sequences of unreserved
  characters, sub-delimiters and percent escapes; a host is a name or a bracketed literal; a port is
  digits after a colon.\<close>

inductive uri_comp :: "bool \<Rightarrow> bytes \<Rightarrow> bool" for allow_colon where
  comp_nil: "uri_comp allow_colon []"
| comp_plain: "is_ascii_alphanumeric b \<or> b \<in> {0x2d, 0x2e, 0x5f, 0x7e} \<or> uri_sub_delim b
     \<or> (allow_colon \<and> b = 0x3a) \<Longrightarrow> uri_comp allow_colon s \<Longrightarrow> uri_comp allow_colon (b # s)"
| comp_pct: "is_ascii_hexdigit x \<Longrightarrow> is_ascii_hexdigit y \<Longrightarrow> uri_comp allow_colon s \<Longrightarrow>
     uri_comp allow_colon (0x25 # x # y # s)"

inductive uri_host :: "bytes \<Rightarrow> bool" where
  reg_name: "uri_comp False h \<Longrightarrow> uri_host h"
| ip_literal: "valid_ip_literal a \<Longrightarrow> uri_host (0x5b # a @ [0x5d])"

inductive uri_port :: "bytes \<Rightarrow> bool" where
  no_port: "uri_port []"
| port: "list_all is_ascii_digit ds \<Longrightarrow> uri_port (0x3a # ds)"

inductive uri_authority :: "bytes \<Rightarrow> bool" where
  plain: "uri_host h \<Longrightarrow> uri_port p \<Longrightarrow> uri_authority (h @ p)"
| with_user: "uri_comp True u \<Longrightarrow> uri_host h \<Longrightarrow> uri_port p \<Longrightarrow> uri_authority (u @ 0x40 # h @ p)"

inductive_cases uri_portE: "uri_port p"
inductive_cases uri_hostE: "uri_host h"

text \<open>The host inside its brackets.\<close>

definition host_name :: "bytes \<Rightarrow> bytes" where
  "host_name h = (case strip_prefix_byte 0x5b h of Some r \<Rightarrow> butlast r | None \<Rightarrow> h)"

section \<open>Character sets\<close>

definition uri_char :: "u8 \<Rightarrow> bool" where
  "uri_char b = (is_ascii_alphanumeric b \<or> b \<in> {0x2d, 0x2e, 0x5f, 0x7e, 0x3a, 0x25} \<or> uri_sub_delim b)"

lemma uri_char_hex: "is_ascii_hexdigit b \<Longrightarrow> uri_char b"
  by (auto simp: uri_char_def ascii_class_defs word_le_nat_alt)

lemma uri_char_digit: "is_ascii_digit b \<Longrightarrow> uri_char b"
  by (simp add: uri_char_def is_ascii_alphanumeric_def)

lemma uri_char_not: "\<not> uri_char 0x40" "\<not> uri_char 0x5b" "\<not> uri_char 0x5d"
  by (simp_all add: uri_char_def ascii_class_defs uri_sub_delim_def)

lemma uri_char_visible: "uri_char b \<Longrightarrow> 0x20 < b \<and> b < 0x7f"
  by (auto simp: uri_char_def ascii_class_defs uri_sub_delim_def word_le_nat_alt word_less_nat_alt)

lemma uri_comp_chars: "uri_comp a s \<Longrightarrow> b \<in> set s \<Longrightarrow> uri_char b"
proof (induction rule: uri_comp.induct)
  case (comp_plain c s)
  then show ?case by (auto simp: uri_char_def)
next
  case (comp_pct x y s)
  have "uri_char 0x25" by (simp add: uri_char_def)
  then show ?case using comp_pct uri_char_hex by auto
qed simp

lemma uri_comp_no_colon: "uri_comp False s \<Longrightarrow> 0x3a \<notin> set s"
  by (induction rule: uri_comp.induct) (auto simp: ascii_class_defs uri_sub_delim_def)

lemma valid_uri_component_iff: "valid_uri_component s a \<longleftrightarrow> uri_comp a s"
proof
  show "valid_uri_component s a \<Longrightarrow> uri_comp a s"
    by (induction s a rule: valid_uri_component.induct)
      (auto intro: uri_comp.intros split: if_splits list.splits)
  show "uri_comp a s \<Longrightarrow> valid_uri_component s a"
    by (induction rule: uri_comp.induct) (auto simp: ascii_class_defs uri_sub_delim_def)
qed

text \<open>What the address parser consumes is made of hexadecimal digits, colons and dots.\<close>

definition consumes :: "(bytes \<Rightarrow> bytes option) \<Rightarrow> bool" where
  "consumes f = (\<forall>s s'. f s = Some s' \<longrightarrow> (\<exists>c. s = c @ s' \<and> list_all uri_char c))"

lemma consumesD: "consumes f \<Longrightarrow> f s = Some s' \<Longrightarrow> \<exists>c. s = c @ s' \<and> list_all uri_char c"
  by (simp add: consumes_def)

lemma consumes_run:
  assumes "\<And>b. P b \<Longrightarrow> uri_char b"
  shows "consumes (\<lambda>s. let ds = takeWhile P s in if Q ds then None else Some (drop (length ds) s))"
  unfolding consumes_def
proof (intro allI impI)
  fix s s'
  assume "(let ds = takeWhile P s in if Q ds then None else Some (drop (length ds) s)) = Some s'"
  then have "s' = drop (length (takeWhile P s)) s" by (simp add: Let_def split: if_splits)
  then have "s = takeWhile P s @ s'" by (metis append_take_drop_id takeWhile_eq_take)
  moreover have "list_all uri_char (takeWhile P s)"
    using assms by (auto simp: list_all_iff dest: set_takeWhileD)
  ultimately show "\<exists>c. s = c @ s' \<and> list_all uri_char c" by blast
qed

lemma consumes_octet: "consumes read_octet"
  using consumes_run [OF uri_char_digit] unfolding read_octet_def [abs_def] .

lemma consumes_hex_group: "consumes read_hex_group"
  using consumes_run [OF uri_char_hex] unfolding read_hex_group_def [abs_def] .

lemma consumes_separator:
  assumes "consumes f" "uri_char sep"
  shows "consumes (read_separator sep i f)"
  unfolding consumes_def
proof (intro allI impI)
  fix s s'
  assume r: "read_separator sep i f s = Some s'"
  show "\<exists>c. s = c @ s' \<and> list_all uri_char c"
  proof (cases "i > 0")
    case True
    then obtain t where "s = sep # t" "f t = Some s'"
      using r by (auto simp: read_separator_def strip_prefix_byte_def split: list.splits if_splits)
    moreover from this obtain c where "t = c @ s'" "list_all uri_char c"
      using consumesD [OF assms(1)] by blast
    ultimately have "s = (sep # c) @ s' \<and> list_all uri_char (sep # c)" using assms(2) by simp
    then show ?thesis by blast
  next
    case False
    then show ?thesis using r consumesD [OF assms(1)] by (simp add: read_separator_def)
  qed
qed

lemma uri_char_seps: "uri_char 0x2e" "uri_char 0x3a"
  by (simp_all add: uri_char_def)

lemma consumes_octets: "consumes (read_octets n i)"
proof (induction n arbitrary: i)
  case 0
  show ?case by (auto simp: consumes_def)
next
  case (Suc n)
  show ?case
    unfolding consumes_def
  proof (intro allI impI)
    fix s s'
    assume "read_octets (Suc n) i s = Some s'"
    then obtain t where t: "read_separator 0x2e i read_octet s = Some t" "read_octets n (Suc i) t = Some s'"
      by (auto split: option.splits)
    from consumesD [OF consumes_separator [OF consumes_octet uri_char_seps(1)] t(1)] consumesD [OF Suc t(2)]
    obtain c d where "s = c @ t" "list_all uri_char c" "t = d @ s'" "list_all uri_char d" by blast
    then have "s = (c @ d) @ s' \<and> list_all uri_char (c @ d)" by simp
    then show "\<exists>c. s = c @ s' \<and> list_all uri_char c" by blast
  qed
qed

lemma consumes_ipv4: "consumes read_ipv4_addr"
  using consumes_octets unfolding read_ipv4_addr_def [abs_def] .

lemma consumes_groups:
  "\<exists>c. s = c @ snd (snd (read_groups n i s)) \<and> list_all uri_char c"
proof (induction n arbitrary: i s)
  case (Suc n)
  show ?case
  proof (cases "if n > 0 then read_separator 0x3a i read_ipv4_addr s else None")
    case (Some s')
    then have "read_separator 0x3a i read_ipv4_addr s = Some s'" by (simp split: if_splits)
    then show ?thesis
      using Some consumesD [OF consumes_separator [OF consumes_ipv4 uri_char_seps(2)]] by simp
  next
    case None
    show ?thesis
    proof (cases "read_separator 0x3a i read_hex_group s")
      case none: None
      then show ?thesis using None by simp
    next
      case (Some t)
      obtain c where c: "s = c @ t" "list_all uri_char c"
        using consumesD [OF consumes_separator [OF consumes_hex_group uri_char_seps(2)] Some] by blast
      obtain d where d: "t = d @ snd (snd (read_groups n (Suc i) t))" "list_all uri_char d"
        using Suc.IH by blast
      have "s = (c @ d) @ snd (snd (read_groups n (Suc i) t))" using c(1) d(1) by simp
      moreover have "list_all uri_char (c @ d)" using c(2) d(2) by simp
      moreover have "read_groups (Suc n) i s = read_groups n (Suc i) t" using None Some by simp
      ultimately show ?thesis by metis
    qed
  qed
qed simp

lemma parse_ipv6_chars:
  assumes "parse_ipv6_ok s"
  shows "list_all uri_char s"
proof -
  obtain n v s1 where g: "read_groups 8 0 s = (n, v, s1)" by (metis prod_cases3)
  from consumes_groups [of s 8 0] g obtain c where c: "s = c @ s1" "list_all uri_char c" by auto
  show ?thesis
  proof (cases "n = 8")
    case True
    then show ?thesis using assms g c by (simp add: parse_ipv6_ok_def)
  next
    case False
    obtain s2 where s2: "s1 = 0x3a # 0x3a # s2" "snd (snd (read_groups (8 - (n + 1)) 0 s2)) = []"
      using assms g False by (auto simp: parse_ipv6_ok_def split: if_splits list.splits)
    have "list_all uri_char s2" using consumes_groups [of s2 "8 - (n + 1)" 0] s2(2) by auto
    then show ?thesis using c s2(1) uri_char_seps by simp
  qed
qed

lemma ip_literal_chars:
  assumes "valid_ip_literal s"
  shows "list_all uri_char s"
proof (cases "parse_ipv6_ok s")
  case True
  then show ?thesis by (rule parse_ipv6_chars)
next
  case False
  then obtain v rest version address where
    s: "s = v # rest" "v = 0x76 \<or> v = 0x56" "split_once 0x2e rest = Some (version, address)"
    and "list_all is_ascii_hexdigit version"
    and "list_all (\<lambda>b. is_ascii_alphanumeric b \<or> b \<in> {0x2d, 0x2e, 0x5f, 0x7e, 0x3a} \<or> uri_sub_delim b) address"
    using assms by (auto simp: valid_ip_literal_def strip_prefix_byte_def split: list.splits if_splits option.splits)
  then have "list_all uri_char version" "list_all uri_char address"
    using uri_char_hex by (auto simp: list_all_iff uri_char_def)
  moreover have "rest = version @ 0x2e # address" using s(3) by (simp add: split_once_Some)
  moreover have "uri_char v" using s(2) by (auto simp: uri_char_def ascii_class_defs)
  ultimately show ?thesis using s(1) uri_char_seps(1) by simp
qed

lemma ip_literal_char: "valid_ip_literal a \<Longrightarrow> b \<in> set a \<Longrightarrow> uri_char b"
  using ip_literal_chars by (auto simp: list_all_iff)

lemma digits_exclude: "list_all is_ascii_digit ds \<Longrightarrow> 0x40 \<notin> set ds \<and> 0x3a \<notin> set ds"
proof -
  assume "list_all is_ascii_digit ds"
  then have "b \<in> set ds \<Longrightarrow> is_ascii_digit b" for b by (simp add: list_all_iff)
  from this [of "0x40"] this [of "0x3a"] show ?thesis by (auto simp: is_ascii_digit_def)
qed

lemma strip_prefix_byte_Some: "strip_prefix_byte c s = Some r \<longleftrightarrow> s = c # r"
  by (auto simp: strip_prefix_byte_def split: list.splits)

lemma uri_host_no_at: "uri_host h \<Longrightarrow> 0x40 \<notin> set h"
  using uri_char_not by (auto elim!: uri_hostE dest: uri_comp_chars ip_literal_char)

lemma uri_port_chars: "uri_port p \<Longrightarrow> 0x40 \<notin> set p"
  by (auto elim!: uri_portE dest: digits_exclude)

section \<open>The validators decide the grammar\<close>

lemma valid_host_port_iff: "valid_host_port s \<longleftrightarrow> (\<exists>h p. s = h @ p \<and> uri_host h \<and> uri_port p)"
proof
  assume v: "valid_host_port s"
  show "\<exists>h p. s = h @ p \<and> uri_host h \<and> uri_port p"
  proof (cases "strip_prefix_byte 0x5b s")
    case (Some literal)
    then have v': "case split_once 0x5d literal of None \<Rightarrow> False
       | Some (address, suffix) \<Rightarrow> valid_ip_literal address \<and>
           (suffix = [] \<or> (case strip_prefix_byte 0x3a suffix of
              Some port \<Rightarrow> list_all is_ascii_digit port | None \<Rightarrow> False))"
      using v by (simp add: valid_host_port_def)
    then obtain address suffix where
      sp: "split_once 0x5d literal = Some (address, suffix)" and ip: "valid_ip_literal address"
      and suf: "suffix = [] \<or> (\<exists>port. suffix = 0x3a # port \<and> list_all is_ascii_digit port)"
      by (auto simp: strip_prefix_byte_Some split: option.splits)
    have "s = (0x5b # address @ [0x5d]) @ suffix"
      using Some sp by (auto simp: strip_prefix_byte_def split_once_Some split: list.splits if_splits)
    moreover have "uri_port suffix" using suf no_port port by blast
    ultimately show ?thesis using ip_literal [OF ip] by blast
  next
    case None
    show ?thesis
    proof (cases "rsplit_once 0x3a s")
      case none: None
      then have "uri_comp False s"
        using v None by (simp add: valid_host_port_def valid_uri_component_iff)
      then have "s = s @ [] \<and> uri_host s \<and> uri_port []" by (simp add: reg_name no_port)
      then show ?thesis by blast
    next
      case (Some hp)
      obtain h p where hp: "hp = (h, p)" by (cases hp)
      have "uri_comp False h" "list_all is_ascii_digit p"
        using v None Some hp by (simp_all add: valid_host_port_def valid_uri_component_iff)
      moreover have "s = h @ 0x3a # p" using Some hp by (simp add: rsplit_once_Some)
      ultimately show ?thesis using reg_name port by blast
    qed
  qed
next
  assume "\<exists>h p. s = h @ p \<and> uri_host h \<and> uri_port p"
  then obtain h p where s: "s = h @ p" and h: "uri_host h" and p: "uri_port p" by blast
  from h show "valid_host_port s"
  proof cases
    case reg_name
    have nc: "0x3a \<notin> set h" using reg_name by (rule uri_comp_no_colon)
    have nb: "0x5b \<notin> set h" using reg_name uri_comp_chars uri_char_not(2) by blast
    have strip: "strip_prefix_byte 0x5b s = None"
      using s nb p by (cases h) (auto simp: strip_prefix_byte_def elim!: uri_portE split: list.splits)
    from p show ?thesis
    proof cases
      case no_port
      then show ?thesis using s nc strip reg_name rsplit_once_None [of "0x3a" h]
        by (simp add: valid_host_port_def valid_uri_component_iff)
    next
      case (port ds)
      have "0x3a \<notin> set ds" using port(2) digits_exclude by blast
      then have "rsplit_once 0x3a s = Some (h, ds)" using s port(1) by (simp add: rsplit_once_Some)
      then show ?thesis using strip nc reg_name port(2)
        by (simp add: valid_host_port_def valid_uri_component_iff)
    qed
  next
    case (ip_literal a)
    have "0x5d \<notin> set a" using ip_literal_chars [OF ip_literal(2)] uri_char_not(3) by (auto simp: list_all_iff)
    then have "split_once 0x5d (a @ 0x5d # p) = Some (a, p)" by (simp add: split_once_Some)
    then show ?thesis using s ip_literal p
      by (auto simp: valid_host_port_def strip_prefix_byte_def elim!: uri_portE)
  qed
qed


section \<open>Host normalisation\<close>

lemma white_space_ends:
  "list_all (\<lambda>w. w \<noteq> [] \<and> \<not> (0x20 < hd w \<and> hd w < 0x7f) \<and> \<not> (0x20 < last w \<and> last w < 0x7f)) white_space"
  by code_simp

lemma trim_visible:
  assumes "list_all (\<lambda>b. 0x20 < b \<and> b < 0x7f) s"
  shows "str_trim s = s"
proof -
  have no: "\<not> starts_with w t" if "w \<noteq> []" "\<not> (0x20 < hd w \<and> hd w < 0x7f)" "set t \<subseteq> set s" for w t
  proof
    assume "starts_with w t"
    then have "take (length w) t = w" by (simp add: starts_with_def)
    then have "hd w \<in> set t" using that(1) by (metis hd_in_set in_set_takeD)
    then show False using that assms by (auto simp: list_all_iff)
  qed
  have "trim_front white_space s = s"
    using white_space_ends no by (intro trim_front_id) (auto simp: list_all_iff)
  moreover have "trim_front (map rev white_space) (rev s) = rev s"
  proof (intro trim_front_id ballI disjI2)
    fix w assume "w \<in> set (map rev white_space)"
    then obtain v where "v \<in> set white_space" "w = rev v" by auto
    then show "\<not> starts_with w (rev s)"
      using white_space_ends by (intro no) (auto simp: list_all_iff hd_rev)
  qed
  ultimately show ?thesis by (simp add: str_trim_def)
qed

lemma host_port_visible:
  assumes "uri_host h" "uri_port p"
  shows "list_all (\<lambda>b. 0x20 < b \<and> b < 0x7f) (h @ p)"
proof -
  have "b \<in> set p \<Longrightarrow> uri_char b" for b
    using assms(2) uri_char_seps uri_char_digit by (auto elim!: uri_portE simp: list_all_iff)
  moreover have "b \<in> set h \<Longrightarrow> uri_char b \<or> b = 0x5b \<or> b = 0x5d" for b
    using assms(1) by (auto elim!: uri_hostE dest: uri_comp_chars ip_literal_char)
  ultimately show ?thesis using uri_char_visible by (fastforce simp: list_all_iff)
qed

lemma host_without_port_parts:
  assumes "uri_host h" "uri_port p"
  shows "host_without_port (h @ p) = to_ascii_lowercase (trim_end_byte 0x2e (host_name h))"
proof -
  have trim: "str_trim (h @ p) = h @ p" using host_port_visible [OF assms] by (rule trim_visible)
  from assms(1) show ?thesis
  proof cases
    case reg_name
    have nc: "0x3a \<notin> set h" using reg_name by (rule uri_comp_no_colon)
    have nb: "0x5b \<notin> set h" using reg_name uri_comp_chars uri_char_not(2) by blast
    have strip: "strip_prefix_byte 0x5b (h @ p) = None" "strip_prefix_byte 0x5b h = None"
      using nb assms(2) by (cases h; auto simp: strip_prefix_byte_def elim!: uri_portE split: list.splits)+
    have "filter (\<lambda>b. b = 0x3a) h = []" using nc by (auto simp: filter_empty_conv)
    moreover have "length (filter (\<lambda>b. b = 0x3a) p) \<le> 1"
      using assms(2) by (auto elim!: uri_portE simp: filter_empty_conv dest: digits_exclude)
    moreover have "takeWhile (\<lambda>b. b \<noteq> 0x3a) (h @ p) = h"
      using nc assms(2) by (auto elim!: uri_portE simp: takeWhile_append)
    ultimately show ?thesis using trim strip
      by (simp add: host_without_port_def host_name_def hd_split_byte Let_def)
  next
    case (ip_literal a)
    have "0x5d \<notin> set a" using ip_literal_chars [OF ip_literal(2)] uri_char_not(3) by (auto simp: list_all_iff)
    then have "takeWhile (\<lambda>b. b \<noteq> 0x5d) (a @ 0x5d # p) = a" by (simp add: takeWhile_append)
    then show ?thesis using trim ip_literal(1)
      by (simp add: host_without_port_def host_name_def strip_prefix_byte_def hd_split_byte Let_def)
  qed
qed

lemma lowercase_Nil_iff: "to_ascii_lowercase s = [] \<longleftrightarrow> s = []"
  by (simp add: to_ascii_lowercase_def)

text \<open>C27. The HTTP validator accepts exactly a host with an optional port, without userinfo, whose
  name is not empty once the root dots are removed; the normalised host of such an authority is
  that name in lower case.\<close>

theorem valid_http_authority_grammar:
  "valid_http_authority s \<longleftrightarrow>
     (\<exists>h p. s = h @ p \<and> uri_host h \<and> uri_port p \<and> trim_end_byte 0x2e (host_name h) \<noteq> [] \<and>
        host_without_port s = to_ascii_lowercase (trim_end_byte 0x2e (host_name h)))"
proof
  assume v: "valid_http_authority s"
  then have "valid_host_port s"
    by (auto simp: valid_http_authority_def valid_uri_authority_def rsplit_once_Some
        split: option.splits if_splits)
  then obtain h p where "s = h @ p" "uri_host h" "uri_port p" by (auto simp: valid_host_port_iff)
  then show "\<exists>h p. s = h @ p \<and> uri_host h \<and> uri_port p \<and> trim_end_byte 0x2e (host_name h) \<noteq> [] \<and>
      host_without_port s = to_ascii_lowercase (trim_end_byte 0x2e (host_name h))"
    using v host_without_port_parts lowercase_Nil_iff by (metis valid_http_authority_def)
next
  assume "\<exists>h p. s = h @ p \<and> uri_host h \<and> uri_port p \<and> trim_end_byte 0x2e (host_name h) \<noteq> [] \<and>
      host_without_port s = to_ascii_lowercase (trim_end_byte 0x2e (host_name h))"
  then obtain h p where s: "s = h @ p" and hp: "uri_host h" "uri_port p"
    and ne: "host_without_port s \<noteq> []" using lowercase_Nil_iff by metis
  have "0x40 \<notin> set s" using s hp uri_host_no_at uri_port_chars by simp
  moreover have "valid_host_port s" using s hp by (auto simp: valid_host_port_iff)
  moreover have "rsplit_once 0x40 s = None" using calculation(1) by (simp add: rsplit_once_None)
  ultimately show "valid_http_authority s"
    using ne by (simp add: valid_http_authority_def valid_uri_authority_def)
qed

lemma host_characters:
  assumes "valid_http_authority s" "b \<in> set s"
  shows "0x20 < b \<and> b < 0x7f \<and> b \<noteq> 0x40"
proof -
  have "valid_host_port s" "0x40 \<notin> set s"
    using assms(1) by (auto simp: valid_http_authority_def valid_uri_authority_def rsplit_once_Some
        split: option.splits if_splits)
  then show ?thesis using assms(2) host_port_visible by (auto simp: valid_host_port_iff list_all_iff)
qed

end
