(* ===== verification/H2_Request.thy ===== *)
theory H2_Request
  imports H2_State Uri_Authority
begin

text \<open>
  From a header block to a request: \<open>decode_block_from\<close>, \<open>build_request\<close> and their helpers of
  \<open>hj-h2/src/server/recv.rs\<close>, with \<open>coalesce_cookie_crumbs\<close>, \<open>strip_hop_by_hop_response\<close> and the
  connection-specific names of \<open>hj-core/src/http_util.rs\<close>.

  The \<open>http\<close> crate is not part of the repository: its validators and its \<open>HeaderMap\<close> are the fields of
  the record \<open>http_lib\<close>, and \<open>header_map_laws\<close> states what the code relies on of the map. The hook
  \<open>Config::early_reject\<close>, which the embedding server supplies, and the size of a \<open>StreamState\<close> in
  memory are fields of the same record.

  The closure that \<open>decode_block_from\<close> passes to the HPACK decoder does not influence the decoder, so
  it is folded over the fields the decoder emits; its captured variables are the record
  \<open>field_state\<close>.
\<close>

section \<open>The http crate\<close>

record 'h http_lib =
  method_ok :: "bytes \<Rightarrow> bool"
  uri_ok :: "bytes \<Rightarrow> bool"
  uri_path_and_query_len :: "bytes \<Rightarrow> nat"
  header_name_ok :: "bytes \<Rightarrow> bool"
  header_value_ok :: "bytes \<Rightarrow> bool"
  header_value_str_ok :: "bytes \<Rightarrow> bool"
  to_str_ok :: "bytes \<Rightarrow> bool"
  hm_new :: 'h
  hm_append :: "bytes \<Rightarrow> bytes \<Rightarrow> 'h \<Rightarrow> 'h"
  hm_insert :: "bytes \<Rightarrow> bytes \<Rightarrow> 'h \<Rightarrow> 'h"
  hm_remove :: "bytes \<Rightarrow> 'h \<Rightarrow> 'h"
  hm_get_all :: "'h \<Rightarrow> bytes \<Rightarrow> bytes list"
  hm_fields :: "'h \<Rightarrow> header list"
  hm_len :: "'h \<Rightarrow> nat"
  early_reject :: "(bytes \<times> bytes \<times> bytes option \<times> 'h \<Rightarrow> (bytes \<times> 'h) option) option"
  stream_state_size :: nat

text \<open>
  What the code relies on of \<open>HeaderMap\<close>: a new map is empty, \<open>append\<close> adds one value behind those of
  its name, \<open>insert\<close> replaces the values of its name, \<open>remove\<close> deletes them, and iteration visits the
  fields that lookup finds.
\<close>

definition header_map_laws :: "'h http_lib \<Rightarrow> bool" where
  "header_map_laws lib =
     ((\<forall>n. hm_get_all lib (hm_new lib) n = []) \<and>
      (\<forall>h n v m. hm_get_all lib (hm_append lib n v h) m =
         (if m = n then hm_get_all lib h m @ [v] else hm_get_all lib h m)) \<and>
      (\<forall>h n v m. hm_get_all lib (hm_insert lib n v h) m =
         (if m = n then [v] else hm_get_all lib h m)) \<and>
      (\<forall>h n m. hm_get_all lib (hm_remove lib n h) m =
         (if m = n then [] else hm_get_all lib h m)) \<and>
      (\<forall>h n v. (n, v) \<in> set (hm_fields lib h) \<longleftrightarrow> v \<in> set (hm_get_all lib h n)))"

section \<open>Helpers of http_util.rs\<close>

definition CONNECTION_SPECIFIC_REQUEST_HEADERS :: "bytes list" where
  "CONNECTION_SPECIFIC_REQUEST_HEADERS =
     map str_bytes [''connection'', ''keep-alive'', ''proxy-connection'', ''transfer-encoding'', ''upgrade'']"

definition is_connection_specific_request_header :: "bytes \<Rightarrow> bool" where
  "is_connection_specific_request_header name = (name \<in> set CONNECTION_SPECIFIC_REQUEST_HEADERS)"

definition coalesce_cookie_crumbs :: "'h http_lib \<Rightarrow> 'h \<Rightarrow> 'h" where
  "coalesce_cookie_crumbs lib headers =
     (case hm_get_all lib headers (str_bytes ''cookie'') of
        first # second # crumbs \<Rightarrow>
          (let joined = first @ concat (map (\<lambda>v. str_bytes ''; '' @ v) (second # crumbs))
           in if header_value_ok lib joined then hm_insert lib (str_bytes ''cookie'') joined headers
              else headers)
      | _ \<Rightarrow> headers)"

definition connection_tokens :: "'h http_lib \<Rightarrow> bytes \<Rightarrow> bytes list" where
  "connection_tokens lib v =
     (if to_str_ok lib v
      then map to_ascii_lowercase
             (filter (\<lambda>tok. tok \<noteq> [] \<and> header_name_ok lib tok) (map str_trim (split_byte 0x2c v)))
      else [])"

definition strip_hop_by_hop_response :: "'h http_lib \<Rightarrow> 'h \<Rightarrow> 'h" where
  "strip_hop_by_hop_response lib headers =
     (let named = concat (map (connection_tokens lib) (hm_get_all lib headers (str_bytes ''connection'')));
          headers = fold (hm_remove lib) named headers
      in fold (hm_remove lib)
           (map str_bytes [''connection'', ''transfer-encoding'', ''upgrade'', ''te'', ''keep-alive'',
              ''proxy-connection'']) headers)"

section \<open>Decoding a header block\<close>

datatype decoded = DecOk | DecCompression | DecTooLarge | DecMalformed

record 'h field_state =
  f_st :: "'h stream_state"
  f_seen_regular :: bool
  f_malformed :: bool
  f_host_value :: "bytes option"
  f_scheme_is_http :: bool
  f_path_is_asterisk :: bool
  f_seen :: "bool list"

definition field_state_init :: "'h stream_state \<Rightarrow> 'h field_state" where
  "field_state_init st =
     \<lparr>f_st = st, f_seen_regular = False, f_malformed = False, f_host_value = None,
      f_scheme_is_http = False, f_path_is_asterisk = False, f_seen = [False, False, False, False]\<rparr>"

definition pseudo_index :: "bytes \<Rightarrow> nat option" where
  "pseudo_index name =
     (if name = str_bytes '':method'' then Some 0
      else if name = str_bytes '':scheme'' then Some 1
      else if name = str_bytes '':path'' then Some 2
      else if name = str_bytes '':authority'' then Some 3
      else None)"

definition mark_malformed :: "'h field_state \<Rightarrow> 'h field_state" where
  "mark_malformed fs = fs\<lparr>f_malformed := True\<rparr>"

definition set_pseudo :: "'h http_lib \<Rightarrow> nat \<Rightarrow> bytes \<Rightarrow> 'h field_state \<Rightarrow> 'h field_state" where
  "set_pseudo lib idx v fs =
     (if idx = 0 then
        (if method_ok lib v then fs\<lparr>f_st := (f_st fs)\<lparr>st_method := Some v\<rparr>\<rparr> else mark_malformed fs)
      else if idx = 2 then
        (if 0x23 \<in> set v \<or> (v \<noteq> str_bytes ''*'' \<and> \<not> starts_with (str_bytes ''/'') v)
         then mark_malformed fs
         else if uri_ok lib v
         then fs\<lparr>f_path_is_asterisk := (v = str_bytes ''*''), f_st := (f_st fs)\<lparr>st_path := Some v\<rparr>\<rparr>
         else mark_malformed fs)
      else if idx = 3 then
        (if valid_uri_authority v \<and> header_value_str_ok lib v
         then fs\<lparr>f_st := (f_st fs)\<lparr>st_authority := Some v\<rparr>\<rparr>
         else mark_malformed fs)
      else
        (if \<not> valid_uri_scheme v then mark_malformed fs
         else fs\<lparr>f_scheme_is_http := (eq_ignore_ascii_case v (str_bytes ''http'')
                                      \<or> eq_ignore_ascii_case v (str_bytes ''https''))\<rparr>))"

definition emit_pseudo :: "'h http_lib \<Rightarrow> bool \<Rightarrow> bytes \<Rightarrow> bytes \<Rightarrow> 'h field_state \<Rightarrow> 'h field_state" where
  "emit_pseudo lib is_trailers name v fs =
     (if is_trailers \<or> f_seen_regular fs then mark_malformed fs
      else if \<not> utf8_ok name \<or> \<not> utf8_ok v then mark_malformed fs
      else case pseudo_index name of
        None \<Rightarrow> mark_malformed fs
      | Some idx \<Rightarrow>
          if f_seen fs ! idx then mark_malformed fs
          else set_pseudo lib idx v (fs\<lparr>f_seen := (f_seen fs)[idx := True]\<rparr>))"

definition edge_ws :: "bytes \<Rightarrow> bool" where
  "edge_ws v = (v \<noteq> [] \<and> (hd v \<in> {0x20, 0x09} \<or> last v \<in> {0x20, 0x09}))"

text \<open>The content-length rules: digits only, no overflow, no second conflicting value.\<close>

definition take_content_length :: "bytes \<Rightarrow> 'h stream_state \<Rightarrow> 'h stream_state option" where
  "take_content_length v st =
     (if v = [] \<or> \<not> list_all is_ascii_digit v then None
      else case parse_u64 v of
        None \<Rightarrow> None
      | Some cl \<Rightarrow>
          (case st_content_length st of
             None \<Rightarrow> Some (st\<lparr>st_content_length := Some cl\<rparr>)
           | Some prev \<Rightarrow>
               if prev = cl then Some (st\<lparr>st_content_length := Some cl\<rparr>) else None))"

text \<open>The guards on a regular field line, each of which marks the message malformed.\<close>

definition line_malformed :: "'h http_lib \<Rightarrow> bytes \<Rightarrow> bytes \<Rightarrow> bool" where
  "line_malformed lib name v =
     (\<not> utf8_ok name \<or> list_ex is_ascii_uppercase name \<or> is_connection_specific_request_header name
      \<or> (name = str_bytes ''te'' \<and> \<not> eq_ignore_ascii_case v (str_bytes ''trailers''))
      \<or> \<not> (header_name_ok lib name \<and> header_value_ok lib v \<and> \<not> edge_ws v))"

definition append_line :: "'h http_lib \<Rightarrow> bytes \<Rightarrow> bytes \<Rightarrow> 'h field_state \<Rightarrow> 'h field_state" where
  "append_line lib name v fs =
     (case (if name = str_bytes ''content-length'' then take_content_length v (f_st fs)
            else Some (f_st fs)) of
        None \<Rightarrow> mark_malformed fs
      | Some st \<Rightarrow>
          if name = str_bytes ''host'' \<and> f_host_value fs \<noteq> None then mark_malformed fs
          else fs\<lparr>f_host_value := (if name = str_bytes ''host'' then Some v else f_host_value fs),
                  f_st := st\<lparr>st_headers := hm_append lib name v (st_headers st)\<rparr>\<rparr>)"

definition emit_regular :: "'h http_lib \<Rightarrow> bool \<Rightarrow> bytes \<Rightarrow> bytes \<Rightarrow> 'h field_state \<Rightarrow> 'h field_state" where
  "emit_regular lib is_trailers name v fs =
     (if line_malformed lib name v then mark_malformed (fs\<lparr>f_seen_regular := True\<rparr>)
      else if is_trailers then fs\<lparr>f_seen_regular := True\<rparr>
      else append_line lib name v (fs\<lparr>f_seen_regular := True\<rparr>))"

definition emit_field :: "'h http_lib \<Rightarrow> bool \<Rightarrow> header \<Rightarrow> 'h field_state \<Rightarrow> 'h field_state" where
  "emit_field lib is_trailers f fs =
     (case f of (name, v) \<Rightarrow>
        if f_malformed fs then fs
        else if name \<noteq> [] \<and> hd name = 0x3a then emit_pseudo lib is_trailers name v fs
        else emit_regular lib is_trailers name v fs)"

text \<open>The checks after the block: required pseudo-headers, CONNECT, asterisk-form, the authority and
  the Host field.\<close>

definition request_head_ok :: "'h http_lib \<Rightarrow> 'h field_state \<Rightarrow> bool" where
  "request_head_ok lib fs =
     (let st = f_st fs
      in if \<not> f_seen fs ! 0 \<or> \<not> f_seen fs ! 1 \<or> \<not> f_seen fs ! 2 then False
         else if st_method st = Some (str_bytes ''CONNECT'') then False
         else if f_path_is_asterisk fs \<and> st_method st \<noteq> Some (str_bytes ''OPTIONS'') then False
         else if (case st_authority st of
                    None \<Rightarrow> False
                  | Some text \<Rightarrow>
                      \<not> to_str_ok lib text \<or> \<not> valid_uri_authority text
                      \<or> (f_scheme_is_http fs \<and> \<not> valid_http_authority text)) then False
         else if (case f_host_value fs of
                    None \<Rightarrow> False
                  | Some text \<Rightarrow> \<not> to_str_ok lib text \<or> \<not> valid_http_authority text) then False
         else (case (st_authority st, f_host_value fs) of
                 (Some a, Some h) \<Rightarrow> a = h
               | _ \<Rightarrow> True))"

definition decode_block_from ::
  "'h http_lib \<Rightarrow> hpack_decoder \<Rightarrow> 'h stream_state \<Rightarrow> bytes \<Rightarrow> decoded \<times> hpack_decoder \<times> 'h stream_state" where
  "decode_block_from lib d st block =
     (let is_trailers = st_headers_done st
      in case decode_octets d block of (result, d', emitted) \<Rightarrow>
        let fs = fold (emit_field lib is_trailers) emitted (field_state_init st);
            st' = f_st fs
        in case result of
             Inl HeaderListTooLarge \<Rightarrow> (DecTooLarge, d', st')
           | Inl _ \<Rightarrow> (DecCompression, d', st')
           | Inr _ \<Rightarrow>
               if f_malformed fs then (DecMalformed, d', st')
               else if is_trailers then (DecOk, d', st')
               else if request_head_ok lib fs then (DecOk, d', st'\<lparr>st_headers_done := True\<rparr>)
               else (DecMalformed, d', st'))"

definition decode_block ::
  "'h http_lib \<Rightarrow> hpack_decoder \<Rightarrow> 'h stream_state \<Rightarrow> decoded \<times> hpack_decoder \<times> 'h stream_state" where
  "decode_block lib d st = decode_block_from lib d (st\<lparr>st_header_block := []\<rparr>) (st_header_block st)"

definition decode_discard_header_block :: "hpack_decoder \<Rightarrow> bytes \<Rightarrow> bool \<times> hpack_decoder" where
  "decode_discard_header_block d block =
     (case decode_octets d block of (result, d', emitted) \<Rightarrow>
        ((case result of Inr _ \<Rightarrow> True | Inl e \<Rightarrow> e = HeaderListTooLarge), d'))"

section \<open>Building the request\<close>

definition build_request ::
  "'h http_lib \<Rightarrow> 'h stream_state \<Rightarrow> budget option \<Rightarrow> 'h request option \<times> budget option" where
  "build_request lib st bo =
     (let dropped = (case (bo, st_body_lease st) of
                       (Some b, Some held) \<Rightarrow> Some (lease_drop b held)
                     | _ \<Rightarrow> bo)
      in case (st_method st, st_path st) of
        (Some method, Some uri) \<Rightarrow>
          (let headers = (case st_authority st of
                            Some v \<Rightarrow> hm_insert lib (str_bytes ''host'') v (st_headers st)
                          | None \<Rightarrow> st_headers st);
               rq = \<lparr>rq_method = method, rq_uri = uri, rq_headers = coalesce_cookie_crumbs lib headers,
                     rq_body = st_body st, rq_body_lease = None\<rparr>
           in if st_body st = [] then (Some rq, dropped)
              else case (bo, st_body_lease st) of
                (Some b, Some held) \<Rightarrow>
                  (case lease_release b held (st_header_charge st) of (b', held') \<Rightarrow>
                     (Some (rq\<lparr>rq_body_lease := Some held'\<rparr>), Some b'))
              | _ \<Rightarrow> (Some rq, bo))
      | _ \<Rightarrow> (None, dropped))"

section \<open>Smaller helpers of recv.rs\<close>

definition DECODED_FIELD_OVERHEAD :: nat where "DECODED_FIELD_OVERHEAD = 192"
definition HEADER_COUNT_HINT_MAX :: nat where "HEADER_COUNT_HINT_MAX = 64"

definition pending_header_charge :: "'h http_lib \<Rightarrow> 'h stream_state \<Rightarrow> nat" where
  "pending_header_charge lib st =
     (let map_bytes = foldl (\<lambda>sum (name, v). usize_sat_add sum (length name + length v + DECODED_FIELD_OVERHEAD))
                     0 (hm_fields lib (st_headers st));
          path = (case st_path st of None \<Rightarrow> 0 | Some p \<Rightarrow> uri_path_and_query_len lib p);
          authority = (case st_authority st of None \<Rightarrow> 0 | Some a \<Rightarrow> length a);
          charge = usize_sat_add (usize_sat_add map_bytes (path + authority + 4 * DECODED_FIELD_OVERHEAD))
                     (stream_state_size lib)
      in if charge < 2 ^ 32 then charge else 2 ^ 32 - 1)"

definition declared_body_too_large :: "'h stream_state option \<Rightarrow> nat \<Rightarrow> bool" where
  "declared_body_too_large st max_request_body =
     (case st of
        None \<Rightarrow> False
      | Some st \<Rightarrow> \<not> st_end_stream st \<and>
          (case st_content_length st of None \<Rightarrow> False | Some cl \<Rightarrow> cl > max_request_body))"

definition early_reject_response :: "'h http_lib \<Rightarrow> 'h stream_state \<Rightarrow> (bytes \<times> 'h) option" where
  "early_reject_response lib st =
     (case early_reject lib of
        None \<Rightarrow> None
      | Some hook \<Rightarrow>
          (case (st_method st, st_path st) of
             (Some m, Some u) \<Rightarrow> hook (m, u, st_authority st, st_headers st)
           | _ \<Rightarrow> None))"

definition maybe_send_100_continue :: "'h http_lib \<Rightarrow> 'h stream_state \<Rightarrow> u32 \<Rightarrow> 'h conn \<Rightarrow> 'h conn" where
  "maybe_send_100_continue lib st sid c =
     (if st_end_stream st then c
      else
        (let wants = (case hm_get_all lib (st_headers st) (str_bytes ''expect'') of
                        [] \<Rightarrow> False
                      | v # _ \<Rightarrow> to_str_ok lib v \<and> eq_ignore_ascii_case v (str_bytes ''100-continue''))
         in if wants then
              (case encode_header (c_enc c) [] (str_bytes '':status'') (str_bytes ''100'') (c_memo c) of
                 (e, block, memo) \<Rightarrow>
                   out_frames (\<lambda>b. write_frame b kind_HEADERS flag_END_HEADERS sid block)
                     (c\<lparr>c_enc := e, c_memo := memo\<rparr>))
            else c))"

section \<open>What decoding leaves alone\<close>

text \<open>Decoding fills the head of the request; the framing, accounting and window fields of the stream
  are not touched.\<close>

definition same_frame :: "'h stream_state \<Rightarrow> 'h stream_state \<Rightarrow> bool" where
  "same_frame st st' =
     (st_header_block st' = st_header_block st \<and> st_end_stream st' = st_end_stream st \<and>
      st_refused st' = st_refused st \<and> st_header_charge st' = st_header_charge st \<and>
      st_body st' = st_body st \<and> st_body_lease st' = st_body_lease st \<and>
      st_body_deadline st' = st_body_deadline st \<and> st_recv_window st' = st_recv_window st)"

lemma same_frame_refl [simp]: "same_frame st st"
  by (simp add: same_frame_def)

lemma take_content_length_frame:
  "take_content_length v st = Some st' \<Longrightarrow>
     same_frame st st' \<and> st_headers_done st' = st_headers_done st \<and> st_method st' = st_method st \<and>
     st_path st' = st_path st \<and> st_authority st' = st_authority st \<and> st_headers st' = st_headers st"
  by (auto simp: take_content_length_def same_frame_def split: if_splits option.splits)

lemma set_pseudo_frame:
  "same_frame (f_st fs) (f_st (set_pseudo lib idx v fs)) \<and>
   st_headers_done (f_st (set_pseudo lib idx v fs)) = st_headers_done (f_st fs)"
  by (auto simp: set_pseudo_def mark_malformed_def same_frame_def)

lemma emit_pseudo_frame:
  "same_frame (f_st fs) (f_st (emit_pseudo lib t name v fs)) \<and>
   st_headers_done (f_st (emit_pseudo lib t name v fs)) = st_headers_done (f_st fs)"
  using set_pseudo_frame [of "fs\<lparr>f_seen := x\<rparr>" for x]
  by (auto simp: emit_pseudo_def mark_malformed_def same_frame_def split: option.splits)

lemma append_line_frame:
  "same_frame (f_st fs) (f_st (append_line lib name v fs)) \<and>
   st_headers_done (f_st (append_line lib name v fs)) = st_headers_done (f_st fs)"
proof (cases "if name = str_bytes ''content-length'' then take_content_length v (f_st fs) else Some (f_st fs)")
  case None
  then show ?thesis by (simp add: append_line_def mark_malformed_def)
next
  case (Some st)
  then have "same_frame (f_st fs) st" "st_headers_done st = st_headers_done (f_st fs)"
    by (auto dest: take_content_length_frame split: if_splits)
  then show ?thesis using Some by (simp add: append_line_def mark_malformed_def same_frame_def)
qed

lemma emit_regular_frame:
  "same_frame (f_st fs) (f_st (emit_regular lib t name v fs)) \<and>
   st_headers_done (f_st (emit_regular lib t name v fs)) = st_headers_done (f_st fs)"
  using append_line_frame [of "fs\<lparr>f_seen_regular := True\<rparr>" lib name v]
  by (simp add: emit_regular_def mark_malformed_def)

lemma emit_field_frame:
  "same_frame (f_st fs) (f_st (emit_field lib t f fs)) \<and>
   st_headers_done (f_st (emit_field lib t f fs)) = st_headers_done (f_st fs)"
  by (cases f) (simp add: emit_field_def emit_pseudo_frame emit_regular_frame same_frame_refl)

lemma emit_fields_frame:
  "same_frame (f_st fs) (f_st (fold (emit_field lib t) hs fs)) \<and>
   st_headers_done (f_st (fold (emit_field lib t) hs fs)) = st_headers_done (f_st fs)"
proof (induction hs arbitrary: fs)
  case (Cons h hs)
  then show ?case using emit_field_frame [of fs lib t h] by (simp add: same_frame_def)
qed (simp add: same_frame_def)

lemma emit_trailer_state: "f_st (emit_field lib True f fs) = f_st fs"
  by (cases f) (simp add: emit_field_def emit_pseudo_def emit_regular_def mark_malformed_def)

lemma emit_trailers_state: "f_st (fold (emit_field lib True) hs fs) = f_st fs"
  by (induction hs arbitrary: fs) (simp_all add: emit_trailer_state)

lemma decode_block_from_frame:
  assumes "decode_block_from lib d st block = (r, d', st')"
  shows "same_frame st st'" "d' = fst (snd (decode_octets d block))"
    "st_headers_done st' = (st_headers_done st \<or> r = DecOk)"
proof -
  obtain res d1 hs where q: "decode_octets d block = (res, d1, hs)" by (metis prod_cases3)
  let ?fs = "fold (emit_field lib (st_headers_done st)) hs (field_state_init st)"
  have fr: "same_frame st (f_st ?fs)" "st_headers_done (f_st ?fs) = st_headers_done st"
    using emit_fields_frame [of "field_state_init st" lib "st_headers_done st" hs]
    by (simp_all add: field_state_init_def)
  have sh: "same_frame st ((f_st ?fs)\<lparr>st_headers_done := True\<rparr>)" using fr by (simp add: same_frame_def)
  show "same_frame st st'"
    using assms q fr sh
    by (auto simp: decode_block_from_def Let_def split: sum.splits hpack_error.splits if_splits)
  show "d' = fst (snd (decode_octets d block))"
    using assms q
    by (auto simp: decode_block_from_def Let_def split: sum.splits hpack_error.splits if_splits)
  show "st_headers_done st' = (st_headers_done st \<or> r = DecOk)"
    using assms q fr
    by (auto simp: decode_block_from_def Let_def split: sum.splits hpack_error.splits if_splits)
qed

lemma decode_trailers_state:
  assumes "decode_block_from lib d st block = (r, d', st')" "st_headers_done st"
  shows "st' = st"
proof -
  obtain res d1 hs where q: "decode_octets d block = (res, d1, hs)" by (metis prod_cases3)
  have "f_st (fold (emit_field lib True) hs (field_state_init st)) = st"
    by (simp add: emit_trailers_state) (simp add: field_state_init_def)
  then show ?thesis using assms q
    by (auto simp: decode_block_from_def Let_def split: sum.splits hpack_error.splits if_splits)
qed

lemma decode_result_cases:
  assumes "decode_block_from lib d st block = (r, d', st')"
  shows "r = DecTooLarge \<longleftrightarrow> fst (decode_octets d block) = Inl HeaderListTooLarge"
    and "r = DecCompression \<longleftrightarrow> (\<exists>e. fst (decode_octets d block) = Inl e \<and> e \<noteq> HeaderListTooLarge)"
    and "r = DecOk \<or> r = DecMalformed \<longleftrightarrow> fst (decode_octets d block) = Inr ()"
proof -
  obtain res d1 hs where q: "decode_octets d block = (res, d1, hs)" by (metis prod_cases3)
  note defs = decode_block_from_def Let_def
  show "r = DecTooLarge \<longleftrightarrow> fst (decode_octets d block) = Inl HeaderListTooLarge"
    using assms q by (auto simp: defs split: sum.splits hpack_error.splits if_splits)
  show "r = DecCompression \<longleftrightarrow> (\<exists>e. fst (decode_octets d block) = Inl e \<and> e \<noteq> HeaderListTooLarge)"
    using assms q by (auto simp: defs split: sum.splits hpack_error.splits if_splits)
  show "r = DecOk \<or> r = DecMalformed \<longleftrightarrow> fst (decode_octets d block) = Inr ()"
    using assms q by (auto simp: defs split: sum.splits hpack_error.splits if_splits)
qed

lemma decode_discard_result:
  "decode_discard_header_block d block = (ok, d') \<Longrightarrow>
     d' = fst (snd (decode_octets d block)) \<and>
     (ok \<longleftrightarrow> (\<forall>e. fst (decode_octets d block) = Inl e \<longrightarrow> e = HeaderListTooLarge))"
  by (auto simp: decode_discard_header_block_def split: prod.splits sum.splits)


section \<open>What an accepted head guarantees\<close>

text \<open>A field line that may be forwarded over HTTP/1.1.\<close>

definition regular_ok :: "'h http_lib \<Rightarrow> bytes \<Rightarrow> bytes \<Rightarrow> bool" where
  "regular_ok lib n v =
     (\<not> list_ex is_ascii_uppercase n \<and> \<not> is_connection_specific_request_header n \<and>
      (n = str_bytes ''te'' \<longrightarrow> eq_ignore_ascii_case v (str_bytes ''trailers'')) \<and>
      header_name_ok lib n \<and> header_value_ok lib v \<and> \<not> edge_ws v)"

definition target_ok :: "'h http_lib \<Rightarrow> bytes \<Rightarrow> bool" where
  "target_ok lib p =
     (uri_ok lib p \<and> 0x23 \<notin> set p \<and> (p = str_bytes ''*'' \<or> starts_with (str_bytes ''/'') p))"

text \<open>What holds of the captured variables while no field was malformed, for a first header block.\<close>

definition length_inv :: "'h http_lib \<Rightarrow> 'h \<Rightarrow> nat option \<Rightarrow> bool" where
  "length_inv lib h cl =
     ((cl = None \<longrightarrow> hm_get_all lib h (str_bytes ''content-length'') = []) \<and>
      (\<forall>v \<in> set (hm_get_all lib h (str_bytes ''content-length'')). parse_u64 v = cl))"

definition host_inv :: "'h http_lib \<Rightarrow> 'h \<Rightarrow> bytes option \<Rightarrow> bool" where
  "host_inv lib h hv =
     (hm_get_all lib h (str_bytes ''host'') = (case hv of None \<Rightarrow> [] | Some x \<Rightarrow> [x]))"

definition lines_inv :: "'h http_lib \<Rightarrow> 'h \<Rightarrow> bool" where
  "lines_inv lib h = (\<forall>n. \<forall>v \<in> set (hm_get_all lib h n). regular_ok lib n v)"

definition head_inv :: "'h http_lib \<Rightarrow> 'h field_state \<Rightarrow> bool" where
  "head_inv lib fs =
     (length (f_seen fs) = 4 \<and>
      (f_seen fs ! 0 \<longrightarrow> (\<exists>m. st_method (f_st fs) = Some m \<and> method_ok lib m)) \<and>
      (f_seen fs ! 2 \<longrightarrow> (\<exists>p. st_path (f_st fs) = Some p \<and> target_ok lib p \<and>
         (f_path_is_asterisk fs \<longleftrightarrow> p = str_bytes ''*''))) \<and>
      lines_inv lib (st_headers (f_st fs)) \<and>
      host_inv lib (st_headers (f_st fs)) (f_host_value fs) \<and>
      length_inv lib (st_headers (f_st fs)) (st_content_length (f_st fs)))"

lemma head_inv_pseudo:
  assumes "head_inv lib fs" "\<not> f_malformed (emit_pseudo lib False name v fs)"
  shows "head_inv lib (emit_pseudo lib False name v fs)"
proof -
  obtain idx where idx: "pseudo_index name = Some idx" "\<not> f_seen fs ! idx"
    and em: "emit_pseudo lib False name v fs = set_pseudo lib idx v (fs\<lparr>f_seen := (f_seen fs)[idx := True]\<rparr>)"
    using assms(2) by (auto simp: emit_pseudo_def mark_malformed_def split: if_splits option.splits)
  have i: "idx \<in> {0, 1, 2, 3}" using idx(1) by (auto simp: pseudo_index_def split: if_splits)
  have len: "length (f_seen fs) = 4" using assms(1) by (simp add: head_inv_def Let_def)
  let ?fs = "fs\<lparr>f_seen := (f_seen fs)[idx := True]\<rparr>"
  have ok: "\<not> f_malformed (set_pseudo lib idx v ?fs)" using assms(2) em by simp
  note defs = head_inv_def set_pseudo_def mark_malformed_def Let_def
  consider "idx = 0" | "idx = 1" | "idx = 2" | "idx = 3" using i by auto
  then have "head_inv lib (set_pseudo lib idx v ?fs)"
  proof cases
    case 1
    then have "method_ok lib v" using ok by (auto simp: set_pseudo_def mark_malformed_def split: if_splits)
    then show ?thesis using 1 assms(1) len by (simp add: defs nth_list_update)
  next
    case 2
    then show ?thesis using ok assms(1) len by (simp add: defs nth_list_update split: if_splits)
  next
    case 3
    then have "target_ok lib v" using ok
      by (auto simp: set_pseudo_def mark_malformed_def target_ok_def split: if_splits)
    then show ?thesis using 3 assms(1) len by (auto simp: defs target_ok_def nth_list_update)
  next
    case 4
    then have "valid_uri_authority v \<and> header_value_str_ok lib v" using ok
      by (auto simp: set_pseudo_def mark_malformed_def split: if_splits)
    then show ?thesis using 4 assms(1) len by (simp add: defs nth_list_update)
  qed
  then show ?thesis using em by simp
qed

lemma str_bytes_neq: "str_bytes a = str_bytes b \<longleftrightarrow> a = b"
  by (rule str_bytes_inject)

lemma head_inv_regular:
  assumes laws: "header_map_laws lib" and inv: "head_inv lib fs"
    and ok: "\<not> f_malformed (emit_regular lib False name v fs)"
  shows "head_inv lib (emit_regular lib False name v fs)"
proof -
  let ?st = "f_st fs"
  have good: "\<not> line_malformed lib name v"
    using ok by (auto simp: emit_regular_def mark_malformed_def)
  then have reg: "regular_ok lib name v" by (auto simp: line_malformed_def regular_ok_def)
  have ok': "\<not> f_malformed (append_line lib name v (fs\<lparr>f_seen_regular := True\<rparr>))"
    using ok good by (simp add: emit_regular_def)
  obtain st where st: "(if name = str_bytes ''content-length'' then take_content_length v ?st else Some ?st) = Some st"
    using ok' by (cases "name = str_bytes ''content-length''"; cases "take_content_length v ?st")
      (auto simp: append_line_def mark_malformed_def)
  have host: "name = str_bytes ''host'' \<Longrightarrow> f_host_value fs = None"
    using ok' st by (cases "name = str_bytes ''content-length''"; cases "f_host_value fs")
      (auto simp: append_line_def mark_malformed_def str_bytes_neq)
  have em: "emit_regular lib False name v fs =
      fs\<lparr>f_seen_regular := True, f_host_value := (if name = str_bytes ''host'' then Some v else f_host_value fs),
         f_st := st\<lparr>st_headers := hm_append lib name v (st_headers st)\<rparr>\<rparr>"
    using good st host
    by (cases "name = str_bytes ''content-length''") (auto simp: emit_regular_def append_line_def str_bytes_neq)
  have app: "hm_get_all lib (hm_append lib n w h) m =
      (if m = n then hm_get_all lib h m @ [w] else hm_get_all lib h m)" for n w h m
    using laws by (simp add: header_map_laws_def)
  show ?thesis
  proof (cases "name = str_bytes ''content-length''")
    case True
    then obtain cl where cl: "parse_u64 v = Some cl" "st_content_length ?st \<in> {None, Some cl}"
        "st = ?st\<lparr>st_content_length := Some cl\<rparr>"
      using st by (auto simp: take_content_length_def split: if_splits option.splits)
    have "lines_inv lib (hm_append lib name v (st_headers ?st))"
      using inv reg by (auto simp: head_inv_def lines_inv_def app)
    moreover have "host_inv lib (hm_append lib name v (st_headers ?st)) (f_host_value fs)"
      using inv True by (simp add: head_inv_def host_inv_def app str_bytes_neq)
    moreover have "length_inv lib (hm_append lib name v (st_headers ?st)) (Some cl)"
      using inv True cl by (auto simp: head_inv_def length_inv_def app)
    ultimately show ?thesis
      using inv cl True unfolding em by (simp add: head_inv_def str_bytes_neq)
  next
    case False
    then have "st = ?st" using st by simp
    have "lines_inv lib (hm_append lib name v (st_headers ?st))"
      using inv reg by (auto simp: head_inv_def lines_inv_def app)
    moreover have "host_inv lib (hm_append lib name v (st_headers ?st))
        (if name = str_bytes ''host'' then Some v else f_host_value fs)"
      using inv host by (auto simp: head_inv_def host_inv_def app)
    moreover have "length_inv lib (hm_append lib name v (st_headers ?st)) (st_content_length ?st)"
      using inv False by (simp add: head_inv_def length_inv_def app)
    ultimately show ?thesis
      using inv \<open>st = ?st\<close> unfolding em by (simp add: head_inv_def)
  qed
qed

lemma emit_field_malformed: "f_malformed fs \<Longrightarrow> emit_field lib t f fs = fs"
  by (cases f) (simp add: emit_field_def)

lemma emit_fields_malformed: "f_malformed fs \<Longrightarrow> fold (emit_field lib t) hs fs = fs"
  by (induction hs) (simp_all add: emit_field_malformed)

lemma head_inv_fields:
  assumes "header_map_laws lib" "head_inv lib fs" "\<not> f_malformed (fold (emit_field lib False) hs fs)"
  shows "head_inv lib (fold (emit_field lib False) hs fs)"
  using assms(2,3)
proof (induction hs arbitrary: fs)
  case (Cons h hs)
  obtain n v where h: "h = (n, v)" by (cases h)
  have "\<not> f_malformed (emit_field lib False h fs)"
    using Cons.prems(2) emit_fields_malformed by (metis fold_simps(2))
  then have "head_inv lib (emit_field lib False h fs)"
    using Cons.prems(1) head_inv_pseudo head_inv_regular [OF assms(1)]
    by (auto simp: emit_field_def h split: if_splits)
  then show ?case using Cons.IH Cons.prems(2) by simp
qed simp

text \<open>The head of a request that reaches the pipeline.\<close>

definition head_ok :: "'h http_lib \<Rightarrow> 'h stream_state \<Rightarrow> bool" where
  "head_ok lib st =
     ((\<exists>m p. st_method st = Some m \<and> method_ok lib m \<and> m \<noteq> str_bytes ''CONNECT'' \<and>
         st_path st = Some p \<and> target_ok lib p \<and> (p = str_bytes ''*'' \<longrightarrow> m = str_bytes ''OPTIONS'')) \<and>
      (\<forall>(n, v) \<in> set (hm_fields lib (st_headers st)). regular_ok lib n v) \<and>
      (\<forall>a. st_authority st = Some a \<longrightarrow> valid_uri_authority a) \<and>
      (\<exists>hs. hm_get_all lib (st_headers st) (str_bytes ''host'') = hs \<and> length hs \<le> 1 \<and>
         (\<forall>h \<in> set hs. valid_http_authority h \<and> (\<forall>a. st_authority st = Some a \<longrightarrow> a = h))) \<and>
      (\<forall>v \<in> set (hm_get_all lib (st_headers st) (str_bytes ''content-length'')).
         parse_u64 v = st_content_length st))"

lemma head_ok_of_inv:
  assumes "header_map_laws lib" "head_inv lib fs" "request_head_ok lib fs"
  shows "head_ok lib (f_st fs)"
proof -
  let ?st = "f_st fs"
  have m: "\<exists>m p. st_method ?st = Some m \<and> method_ok lib m \<and> m \<noteq> str_bytes ''CONNECT'' \<and>
      st_path ?st = Some p \<and> target_ok lib p \<and> (p = str_bytes ''*'' \<longrightarrow> m = str_bytes ''OPTIONS'')"
    using assms(2,3) by (auto simp: head_inv_def request_head_ok_def Let_def split: if_splits)
  have f: "\<forall>(n, v) \<in> set (hm_fields lib (st_headers ?st)). regular_ok lib n v"
    using assms(1,2) by (auto simp: head_inv_def lines_inv_def header_map_laws_def)
  have a: "\<forall>a. st_authority ?st = Some a \<longrightarrow> valid_uri_authority a"
    using assms(3) by (auto simp: request_head_ok_def Let_def split: if_splits)
  have h: "\<exists>hs. hm_get_all lib (st_headers ?st) (str_bytes ''host'') = hs \<and> length hs \<le> 1 \<and>
      (\<forall>h \<in> set hs. valid_http_authority h \<and> (\<forall>a. st_authority ?st = Some a \<longrightarrow> a = h))"
    using assms(2,3)
    by (auto simp: head_inv_def host_inv_def request_head_ok_def Let_def split: if_splits option.splits)
  have c: "\<forall>v \<in> set (hm_get_all lib (st_headers ?st) (str_bytes ''content-length'')).
      parse_u64 v = st_content_length ?st"
    using assms(2) by (simp add: head_inv_def length_inv_def)
  show ?thesis unfolding head_ok_def using m f a h c by blast
qed

text \<open>C31. A first header block that is accepted yields a head that is safe to route and to forward:
  a valid method other than CONNECT and an origin-form target (or the asterisk of OPTIONS); only
  lower-case, syntactically valid, not connection-specific field lines; a well-formed authority, at
  most one Host line, and the two agree; content-length lines that all denote the recorded length.\<close>

theorem accepted_head_ok:
  assumes "header_map_laws lib"
    and "decode_block_from lib d (stream_new (hm_new lib) iw) block = (DecOk, d', st')"
  shows "head_ok lib st'"
proof -
  let ?st = "stream_new (hm_new lib) iw :: 'a stream_state"
  obtain res d1 hs where q: "decode_octets d block = (res, d1, hs)" by (metis prod_cases3)
  let ?fs = "fold (emit_field lib False) hs (field_state_init ?st)"
  have fresh: "\<not> st_headers_done ?st" by (simp add: stream_new_def)
  then have ok: "\<not> f_malformed ?fs" "request_head_ok lib ?fs" "st' = (f_st ?fs)\<lparr>st_headers_done := True\<rparr>"
    using assms(2) q
    by (auto simp: decode_block_from_def Let_def split: sum.splits hpack_error.splits if_splits)
  have "head_inv lib (field_state_init ?st)"
    using assms(1) by (simp add: head_inv_def lines_inv_def host_inv_def length_inv_def field_state_init_def
        stream_new_def header_map_laws_def)
  from head_inv_fields [OF assms(1) this ok(1)]
  have "head_ok lib (f_st ?fs)" using head_ok_of_inv [OF assms(1)] ok(2) by blast
  then show ?thesis using ok(3) by (simp add: head_ok_def)
qed

section \<open>The request\<close>

text \<open>The value the source documents for split cookies: the crumbs joined by a semicolon and a space.\<close>

definition cookie_line :: "bytes list \<Rightarrow> bytes" where
  "cookie_line cs = (case cs of [] \<Rightarrow> [] | c # cs \<Rightarrow> c @ concat (map (\<lambda>v. str_bytes ''; '' @ v) cs))"

lemma coalesce_get_all:
  assumes "header_map_laws lib"
  shows "hm_get_all lib (coalesce_cookie_crumbs lib h) n =
    (let cs = hm_get_all lib h (str_bytes ''cookie'')
     in if n = str_bytes ''cookie'' \<and> length cs > 1 \<and> header_value_ok lib (cookie_line cs)
        then [cookie_line cs] else hm_get_all lib h n)"
proof -
  have ins: "hm_get_all lib (hm_insert lib k w g) m = (if m = k then [w] else hm_get_all lib g m)" for k w g m
    using assms by (simp add: header_map_laws_def)
  show ?thesis
    by (auto simp: coalesce_cookie_crumbs_def cookie_line_def ins Let_def split: list.splits)
qed

text \<open>C32. The request handed to the pipeline is the one that was received: method, target and body are
  those of the stream, the authority replaces the Host field, cookie crumbs are joined into one
  line, and no other field changes.\<close>

theorem build_request_exact:
  assumes "header_map_laws lib" "build_request lib st bo = (Some rq, bo')"
  shows "st_method st = Some (rq_method rq) \<and> st_path st = Some (rq_uri rq) \<and> rq_body rq = st_body st \<and>
    hm_get_all lib (rq_headers rq) n =
      (let cs = hm_get_all lib (st_headers st) (str_bytes ''cookie'')
       in if n = str_bytes ''cookie'' \<and> length cs > 1 \<and> header_value_ok lib (cookie_line cs)
          then [cookie_line cs]
          else if n = str_bytes ''host'' \<and> st_authority st \<noteq> None then [the (st_authority st)]
          else hm_get_all lib (st_headers st) n)"
proof -
  have ins: "hm_get_all lib (hm_insert lib k w g) m = (if m = k then [w] else hm_get_all lib g m)" for k w g m
    using assms(1) by (simp add: header_map_laws_def)
  obtain m u where mu: "st_method st = Some m" "st_path st = Some u"
    using assms(2) by (auto simp: build_request_def Let_def split: option.splits)
  let ?h = "case st_authority st of Some v \<Rightarrow> hm_insert lib (str_bytes ''host'') v (st_headers st)
      | None \<Rightarrow> st_headers st"
  have rq: "rq_method rq = m" "rq_uri rq = u" "rq_body rq = st_body st"
      "rq_headers rq = coalesce_cookie_crumbs lib ?h"
    using assms(2) mu by (auto simp: build_request_def Let_def split: option.splits prod.splits if_splits)
  have h: "hm_get_all lib ?h k = (if k = str_bytes ''host'' \<and> st_authority st \<noteq> None
      then [the (st_authority st)] else hm_get_all lib (st_headers st) k)" for k
    by (simp add: ins split: option.splits)
  show ?thesis
    using rq mu by (auto simp: coalesce_get_all [OF assms(1)] h Let_def str_bytes_neq)
qed

text \<open>The lease: a dispatched body stays charged with exactly its length, everything else returns.\<close>

lemma build_request_ledger:
  assumes br: "build_request lib st bo = (rq, bo')" and bo: "bo = Some b"
    and exact: "lease_exact (Some b) st" and led: "ledger_ok b (t + lease_of (st_body_lease st))"
  shows "\<exists>b'. bo' = Some b' \<and> ledger_ok b' (t + (case rq of None \<Rightarrow> 0 | Some q \<Rightarrow> lease_of (rq_body_lease q)))"
    and "rq = Some q \<Longrightarrow> lease_of (rq_body_lease q) = length (rq_body q)"
proof -
  define held where "held = lease_of (st_body_lease st)"
  have h: "held = st_header_charge st + length (st_body st)" using exact by (simp add: lease_exact_def held_def)
  define dropped where "dropped = (case (bo, st_body_lease st) of
      (Some b, Some held) \<Rightarrow> Some (lease_drop b held) | _ \<Rightarrow> bo)"
  have dr: "\<exists>b'. dropped = Some b' \<and> ledger_ok b' t"
    using bo led lease_drop_ledger [of b t] by (cases "st_body_lease st") (auto simp: dropped_def)
  show "\<exists>b'. bo' = Some b' \<and> ledger_ok b' (t + (case rq of None \<Rightarrow> 0 | Some q \<Rightarrow> lease_of (rq_body_lease q)))"
  proof (cases "st_method st = None \<or> st_path st = None \<or> st_body st = []")
    case True
    then have "bo' = dropped" "rq = None \<or> (\<exists>q. rq = Some q \<and> rq_body_lease q = None)"
      using br by (auto simp: build_request_def Let_def dropped_def split: option.splits)
    then show ?thesis using dr by auto
  next
    case False
    then obtain hl where hl: "st_body_lease st = Some hl" using h by (cases "st_body_lease st") (auto simp: held_def)
    obtain b1 h1 where rel: "lease_release b hl (st_header_charge st) = (b1, h1)" by (metis surj_pair)
    have "ledger_ok b1 (t + h1)"
      using lease_release_ledger [of b t hl, OF _ rel] led hl by auto
    moreover have "bo' = Some b1 \<and> (\<exists>q. rq = Some q \<and> rq_body_lease q = Some h1)"
      using br False bo hl rel by (auto simp: build_request_def Let_def split: option.splits)
    ultimately show ?thesis by auto
  qed
  show "lease_of (rq_body_lease q) = length (rq_body q)" if q: "rq = Some q"
  proof (cases "st_body st = []")
    case True
    then show ?thesis using br q by (auto simp: build_request_def Let_def split: option.splits)
  next
    case False
    then obtain hl where hl: "st_body_lease st = Some hl" using h by (cases "st_body_lease st") (auto simp: held_def)
    obtain b1 h1 where rel: "lease_release b hl (st_header_charge st) = (b1, h1)" by (metis surj_pair)
    have "h1 = hl - st_header_charge st" using lease_release_ledger [of b t hl, OF _ rel] led hl by simp
    then show ?thesis
      using br q False bo hl rel h by (auto simp: build_request_def Let_def held_def split: option.splits)
  qed
qed

lemma build_request_none: "build_request lib st None = (rq, bo') \<Longrightarrow> bo' = None"
  by (auto simp: build_request_def Let_def split: option.splits if_splits)

lemma build_request_Some:
  "st_method st = Some m \<Longrightarrow> st_path st = Some p \<Longrightarrow> \<exists>rq bo'. build_request lib st bo = (Some rq, bo')"
  by (auto simp: build_request_def Let_def split: option.splits prod.splits)

lemma pending_header_charge_bound: "pending_header_charge lib st < 2 ^ 32"
  by (simp add: pending_header_charge_def Let_def)

lemma continue_simps [simp]:
  "c_recv (maybe_send_100_continue lib st sid c) = c_recv c"
  "c_streams (maybe_send_100_continue lib st sid c) = c_streams c"
  "c_dec (maybe_send_100_continue lib st sid c) = c_dec c"
  "c_inflight (maybe_send_100_continue lib st sid c) = c_inflight c"
  "c_inflight_sids (maybe_send_100_continue lib st sid c) = c_inflight_sids c"
  "c_cancelled (maybe_send_100_continue lib st sid c) = c_cancelled c"
  "c_body_budget (maybe_send_100_continue lib st sid c) = c_body_budget c"
  "c_peer (maybe_send_100_continue lib st sid c) = c_peer c"
  by (simp_all add: maybe_send_100_continue_def Let_def split: prod.splits list.splits)

section \<open>A concrete header map\<close>

text \<open>The laws can hold: association lists with validators that accept visible text.\<close>

definition assoc_lib :: "header list http_lib" where
  "assoc_lib =
     \<lparr>method_ok = (\<lambda>v. v \<noteq> [] \<and> list_all is_ascii_alphabetic v), uri_ok = (\<lambda>v. list_all (\<lambda>b. 0x20 < b \<and> b < 0x7f) v),
      uri_path_and_query_len = length, header_name_ok = (\<lambda>v. v \<noteq> []),
      header_value_ok = list_all (\<lambda>b. 0x20 \<le> b \<and> b \<noteq> 0x7f), header_value_str_ok = list_all (\<lambda>b. 0x20 \<le> b \<and> b < 0x7f),
      to_str_ok = list_all (\<lambda>b. 0x20 \<le> b \<and> b < 0x7f),
      hm_new = [], hm_append = (\<lambda>n v h. h @ [(n, v)]),
      hm_insert = (\<lambda>n v h. filter (\<lambda>(m, w). m \<noteq> n) h @ [(n, v)]),
      hm_remove = (\<lambda>n h. filter (\<lambda>(m, w). m \<noteq> n) h),
      hm_get_all = (\<lambda>h n. map snd (filter (\<lambda>(m, w). m = n) h)),
      hm_fields = (\<lambda>h. h), hm_len = length, early_reject = None, stream_state_size = 400\<rparr>"

lemma assoc_lib_laws: "header_map_laws assoc_lib"
  by (force simp: header_map_laws_def assoc_lib_def filter_empty_conv image_iff
      intro!: arg_cong [where f = "map snd"] filter_cong)

lemma root_block_decodes:
  "decode_octets (decoder_new 4096 65536) [0x82, 0x87, 0x84] =
     (Inr (), decoder_new 4096 65536,
      [(str_bytes '':method'', str_bytes ''GET''), (str_bytes '':scheme'', str_bytes ''https''),
       (str_bytes '':path'', str_bytes ''/'')])"
proof -
  let ?d = "decoder_new 4096 65536" and ?b = "[0x82, 0x87, 0x84] :: bytes"
  have i: "int_decode ?b 0 7 = Some (2, 1)" "int_decode ?b 1 7 = Some (7, 2)" "int_decode ?b 2 7 = Some (4, 3)"
    by (simp_all add: int_decode_mask list_get_def mask_eq_exp_minus_1)
  have e: "entry_ref ?d 2 = Some (str_bytes '':method'', str_bytes ''GET'')"
    "entry_ref ?d 7 = Some (str_bytes '':scheme'', str_bytes ''https'')"
    "entry_ref ?d 4 = Some (str_bytes '':path'', str_bytes ''/'')"
    by (simp_all add: entry_ref_def static_get_entry STATIC_TABLE_def)
  have r: "decode_round ?d ?b 0 s = Inr (?d, 1, True, Some (str_bytes '':method'', str_bytes ''GET''))"
    "decode_round ?d ?b 1 s = Inr (?d, 2, True, Some (str_bytes '':scheme'', str_bytes ''https''))"
    "decode_round ?d ?b 2 s = Inr (?d, 3, True, Some (str_bytes '':path'', str_bytes ''/''))" for s
    using i e by (simp_all add: decode_round_def)
  show ?thesis
    using r by (simp add: decode_octets_def decode_rounds.simps emit_checked_def usize_sat_add_def usize_max_def
        ENTRY_OVERHEAD_def decoder_new_def)
qed

lemma emit_pseudo_step:
  "\<not> f_malformed fs \<Longrightarrow> \<not> f_seen_regular fs \<Longrightarrow> utf8_ok name \<Longrightarrow> utf8_ok v \<Longrightarrow>
   pseudo_index name = Some idx \<Longrightarrow> \<not> f_seen fs ! idx \<Longrightarrow> name \<noteq> [] \<Longrightarrow> hd name = 0x3a \<Longrightarrow>
   emit_field lib False (name, v) fs = set_pseudo lib idx v (fs\<lparr>f_seen := (f_seen fs)[idx := True]\<rparr>)"
  by (simp add: emit_field_def emit_pseudo_def)

lemma root_block_head:
  "\<exists>st'. decode_block_from assoc_lib (decoder_new 4096 65536) (stream_new (hm_new assoc_lib) iw) [0x82, 0x87, 0x84]
     = (DecOk, decoder_new 4096 65536, st')
    \<and> st_method st' = Some (str_bytes ''GET'') \<and> st_path st' = Some (str_bytes ''/'') \<and> st_authority st' = None
    \<and> st_headers st' = [] \<and> st_content_length st' = None"
proof -
  let ?st = "stream_new (hm_new assoc_lib) iw :: header list stream_state"
  define fs0 where "fs0 = field_state_init ?st"
  have utf8: "utf8_ok (str_bytes '':method'')" "utf8_ok (str_bytes ''GET'')" "utf8_ok (str_bytes '':scheme'')"
    "utf8_ok (str_bytes ''https'')" "utf8_ok (str_bytes '':path'')" "utf8_ok (str_bytes ''/'')"
    by (simp_all add: str_bytes_def utf8_ok_ascii)
  have ne: "str_bytes (c # s) \<noteq> []" "hd (str_bytes (c # s)) = of_char c" for c s
    by (simp_all add: str_bytes_def)
  have idx: "pseudo_index (str_bytes '':method'') = Some 0" "pseudo_index (str_bytes '':scheme'') = Some 1"
    "pseudo_index (str_bytes '':path'') = Some 2"
    by (simp_all add: pseudo_index_def str_bytes_neq)
  have ok: "method_ok assoc_lib (str_bytes ''GET'')" "valid_uri_scheme (str_bytes ''https'')"
    "eq_ignore_ascii_case (str_bytes ''https'') (str_bytes ''https'')" "uri_ok assoc_lib (str_bytes ''/'')"
    "0x23 \<notin> set (str_bytes ''/'')" "starts_with (str_bytes ''/'') (str_bytes ''/'')"
    by (simp_all add: assoc_lib_def str_bytes_def valid_uri_scheme_def ascii_class_defs eq_ignore_ascii_case_def
        starts_with_def)
  define fs1 where "fs1 = fs0\<lparr>f_seen := [True, False, False, False], f_st := ?st\<lparr>st_method := Some (str_bytes ''GET'')\<rparr>\<rparr>"
  define fs2 where "fs2 = fs1\<lparr>f_seen := [True, True, False, False], f_scheme_is_http := True\<rparr>"
  define fs3 where "fs3 = fs2\<lparr>f_seen := [True, True, True, False], f_path_is_asterisk := False,
      f_st := ?st\<lparr>st_method := Some (str_bytes ''GET''), st_path := Some (str_bytes ''/'')\<rparr>\<rparr>"
  have 1: "emit_field assoc_lib False (str_bytes '':method'', str_bytes ''GET'') fs0 = fs1"
    by (subst emit_pseudo_step [OF _ _ utf8(1,2) idx(1)])
      (simp_all add: ne fs0_def fs1_def field_state_init_def set_pseudo_def ok)
  have 2: "emit_field assoc_lib False (str_bytes '':scheme'', str_bytes ''https'') fs1 = fs2"
    by (subst emit_pseudo_step [OF _ _ utf8(3,4) idx(2)])
      (simp_all add: ne fs0_def fs1_def fs2_def field_state_init_def set_pseudo_def ok)
  have 3: "emit_field assoc_lib False (str_bytes '':path'', str_bytes ''/'') fs2 = fs3"
    by (subst emit_pseudo_step [OF _ _ utf8(5,6) idx(3)])
      (simp_all add: ne fs0_def fs1_def fs2_def fs3_def field_state_init_def set_pseudo_def ok str_bytes_neq)
  have "request_head_ok assoc_lib fs3"
    by (simp add: request_head_ok_def fs0_def fs1_def fs2_def fs3_def field_state_init_def stream_new_def Let_def
        str_bytes_neq)
  moreover have "\<not> f_malformed fs3"
    by (simp add: fs0_def fs1_def fs2_def fs3_def field_state_init_def)
  moreover have "\<not> st_headers_done ?st" by (simp add: stream_new_def)
  ultimately have "decode_block_from assoc_lib (decoder_new 4096 65536) ?st [0x82, 0x87, 0x84] =
      (DecOk, decoder_new 4096 65536, (f_st fs3)\<lparr>st_headers_done := True\<rparr>)"
    by (simp add: decode_block_from_def root_block_decodes Let_def fs0_def [symmetric] 1 2 3)
  then show ?thesis by (simp add: fs3_def stream_new_def assoc_lib_def)
qed

theorem accepted_head_ok_witness:
  "\<exists>d' st'. decode_block_from assoc_lib (decoder_new 4096 65536) (stream_new (hm_new assoc_lib) 65535)
      [0x82, 0x87, 0x84] = (DecOk, d', st') \<and> head_ok assoc_lib st'"
  using root_block_head accepted_head_ok [OF assoc_lib_laws] by blast


theorem build_request_exact_witness:
  "\<exists>rq. build_request assoc_lib ((stream_new [(str_bytes ''cookie'', str_bytes ''a=1''), (str_bytes ''cookie'', str_bytes ''b=2'')] 65535)
      \<lparr>st_method := Some (str_bytes ''GET''), st_path := Some (str_bytes ''/'')\<rparr>) None = (Some rq, None) \<and>
    hm_get_all assoc_lib (rq_headers rq) (str_bytes ''cookie'') = [str_bytes ''a=1; b=2'']"
proof -
  let ?st = "(stream_new [(str_bytes ''cookie'', str_bytes ''a=1''), (str_bytes ''cookie'', str_bytes ''b=2'')] 65535)
      \<lparr>st_method := Some (str_bytes ''GET''), st_path := Some (str_bytes ''/'')\<rparr>"
  have "\<exists>rq. build_request assoc_lib ?st None = (Some rq, None)"
    by (simp add: build_request_def stream_new_def Let_def)
  then obtain rq where rq: "build_request assoc_lib ?st None = (Some rq, None)" by blast
  have line: "cookie_line [str_bytes ''a=1'', str_bytes ''b=2''] = str_bytes ''a=1; b=2''"
    by (simp add: cookie_line_def str_bytes_def)
  have "header_value_ok assoc_lib (str_bytes ''a=1; b=2'')"
    by (simp add: assoc_lib_def str_bytes_def)
  then have "hm_get_all assoc_lib (rq_headers rq) (str_bytes ''cookie'') = [str_bytes ''a=1; b=2'']"
    using build_request_exact [OF assoc_lib_laws rq, of "str_bytes ''cookie''"] line
    by (simp add: assoc_lib_def stream_new_def Let_def)
  then show ?thesis using rq by blast
qed

end
