(* ===== verification/H2_Recv.thy ===== *)
theory H2_Recv
  imports H2_Request
begin

text \<open>
  Inbound frame processing of the HTTP/2 server: \<open>process_frame\<close> of \<open>hj-h2/src/server/recv.rs\<close>, with
  its macros as functions. A macro that may return from \<open>process_frame\<close> yields an optional outcome;
  \<open>and_then\<close> goes on only when there is none. One definition per arm of the match.

  \<open>now\<close> is the instant the frame is processed, \<open>outstreams_len\<close> the number of responses being sent and
  \<open>accept_new_streams\<close> the connection's flag, as the source passes them. Handing the handler future
  to \<open>inflight\<close> records the request there; whether it is spawned or polled in place
  (\<open>spare_cores\<close>) does not affect the state.
\<close>

section \<open>Constants and payload helpers\<close>

definition MAX_HEADER_BLOCK :: nat where "MAX_HEADER_BLOCK = 64 * 1024"
definition NO_PROGRESS_BUDGET :: nat where "NO_PROGRESS_BUDGET = 10000"

definition flag_set :: "u8 \<Rightarrow> u8 \<Rightarrow> bool" where
  "flag_set flags f = (flags AND f \<noteq> 0)"

definition headers_block :: "u8 \<Rightarrow> bytes \<Rightarrow> bytes option" where
  "headers_block flags payload =
     (case (if flag_set flags flag_PADDED
            then (case payload of [] \<Rightarrow> None | b # p \<Rightarrow> Some (unat b, p))
            else Some (0, payload)) of
        None \<Rightarrow> None
      | Some (pad, p) \<Rightarrow>
          (case (if flag_set flags flag_PRIORITY
                 then if length p < 5 then None else Some (drop 5 p)
                 else Some p) of
             None \<Rightarrow> None
           | Some p \<Rightarrow> if pad > length p then None else Some (take (length p - pad) p)))"

definition data_block :: "u8 \<Rightarrow> bytes \<Rightarrow> bytes option" where
  "data_block flags payload =
     (case (if flag_set flags flag_PADDED
            then (case payload of [] \<Rightarrow> None | b # p \<Rightarrow> Some (unat b, p))
            else Some (0, payload)) of
        None \<Rightarrow> None
      | Some (pad, p) \<Rightarrow> if pad > length p then None else Some (take (length p - pad) p))"

definition priority_dependency :: "u8 \<Rightarrow> bytes \<Rightarrow> bool \<Rightarrow> u32 option" where
  "priority_dependency flags payload is_headers =
     (if is_headers \<and> \<not> flag_set flags flag_PRIORITY then None
      else case (if is_headers \<and> flag_set flags flag_PADDED
                 then (if payload = [] then None else Some (drop 1 payload))
                 else Some payload) of
        Some (a # b # c # d # _) \<Rightarrow> Some (u32_of_be a b c d AND 0x7fffffff)
      | _ \<Rightarrow> None)"

section \<open>Outcomes\<close>

datatype frame_outcome =
  Continue
| StopReading
| PeerGoaway
| WindowUpdate u32 u32
| ResetStream u32
| InitialWindowDelta int

type_synonym 'h step = "frame_outcome option \<times> 'h conn"

definition and_then :: "'h step \<Rightarrow> ('h conn \<Rightarrow> 'h step) \<Rightarrow> 'h step" where
  "and_then s f = (case s of (None, c) \<Rightarrow> f c | (Some out, c) \<Rightarrow> (Some out, c))"

definition goaway :: "u32 \<Rightarrow> 'h conn \<Rightarrow> 'h step" where
  "goaway code c =
     (case goaway_last_stream_id (c_recv c) of (last_id, r) \<Rightarrow>
        (Some StopReading, out_frames (\<lambda>b. write_goaway b last_id code) (c\<lparr>c_recv := r\<rparr>)))"

text \<open>A handler that still runs for a reset stream is aborted and its completion marked; the reset is
  charged to the rapid-reset budget.\<close>

definition abort_handler :: "nat \<Rightarrow> u32 \<Rightarrow> 'h conn \<Rightarrow> 'h step" where
  "abort_handler now sid c =
     (if sid \<in> c_inflight_sids c then
        (let c1 = c\<lparr>c_inflight_sids := c_inflight_sids c - {sid}\<rparr>;
             c2 = (if card (c_cancelled c1) < usize_sat_mul (r_max_concurrent (c_recv c1)) 2
                   then c1\<lparr>c_cancelled := insert sid (c_cancelled c1)\<rparr> else c1)
         in case charge_inflight_reset now c2 of (exhausted, c3) \<Rightarrow>
              if exhausted then goaway err_ENHANCE_YOUR_CALM c3 else (None, c3))
      else (None, c))"

definition rst :: "nat \<Rightarrow> u32 \<Rightarrow> u32 \<Rightarrow> 'h conn \<Rightarrow> 'h step" where
  "rst now sid code c =
     (let c1 = out_frames (\<lambda>b. write_rst_stream b sid code) c;
          c2 = teardown_receiving sid c1
      in and_then (abort_handler now sid c2) (\<lambda>c. (Some (ResetStream sid), c)))"

definition encode_fields :: "header list \<Rightarrow> 'h conn \<Rightarrow> bytes \<times> 'h conn" where
  "encode_fields hs c =
     (case foldl (\<lambda>(e, block, memo) (n, v). encode_header e block n v memo) (c_enc c, [], c_memo c) hs of
        (e, block, memo) \<Rightarrow> (block, c\<lparr>c_enc := e, c_memo := memo\<rparr>))"

definition reject_too_large :: "nat \<Rightarrow> u32 \<Rightarrow> bytes \<Rightarrow> bool \<Rightarrow> 'h conn \<Rightarrow> 'h step" where
  "reject_too_large now sid status client_open c =
     (case encode_fields [(str_bytes '':status'', status), (str_bytes ''content-length'', str_bytes ''0'')] c of
        (block, c1) \<Rightarrow>
          let c2 = out_frames (\<lambda>b. write_frame b kind_HEADERS (flag_END_HEADERS OR flag_END_STREAM) sid block) c1
          in if client_open then rst now sid err_NO_ERROR c2
             else (Some (ResetStream sid), drop_receiving sid c2))"

definition reject_early :: "'h http_lib \<Rightarrow> nat \<Rightarrow> u32 \<Rightarrow> 'h conn \<Rightarrow> 'h step" where
  "reject_early lib now sid c =
     (case get_stream c sid of
        None \<Rightarrow> (None, c)
      | Some st \<Rightarrow>
          if st_end_stream st then (None, c)
          else case early_reject_response lib st of
            None \<Rightarrow> (None, c)
          | Some (status, headers) \<Rightarrow>
              (let headers = hm_remove lib (str_bytes ''content-length'') (strip_hop_by_hop_response lib headers)
               in case encode_fields ((str_bytes '':status'', status) # hm_fields lib headers
                                      @ [(str_bytes ''content-length'', str_bytes ''0'')]) c of
                    (block, c1) \<Rightarrow>
                      rst now sid err_NO_ERROR
                        (out_frames (\<lambda>b. write_field_block b sid flag_END_STREAM block
                                           (unat (p_max_frame_size (c_peer c1)))) c1)))"

definition refuse_if_marked :: "nat \<Rightarrow> u32 \<Rightarrow> 'h conn \<Rightarrow> 'h step" where
  "refuse_if_marked now sid c =
     (case get_stream c sid of
        None \<Rightarrow> (None, c)
      | Some st \<Rightarrow>
          if st_refused st then rst now sid err_REFUSED_STREAM (drop_state st (remove_stream sid c))
          else (None, c))"

definition admit_or_refuse :: "'h http_lib \<Rightarrow> nat \<Rightarrow> u32 \<Rightarrow> 'h stream_state \<Rightarrow> 'h conn \<Rightarrow> 'h step" where
  "admit_or_refuse lib now sid st c =
     (case admit_pending_headers st (pending_header_charge lib st) c of (ok, st', c') \<Rightarrow>
        let c1 = put_stream sid st' c'
        in if ok then (None, c1) else rst now sid err_REFUSED_STREAM c1)"

text \<open>Build the request of a completed stream and hand it to its handler.\<close>

definition complete :: "'h http_lib \<Rightarrow> nat \<Rightarrow> u32 \<Rightarrow> 'h conn \<Rightarrow> 'h step" where
  "complete lib now sid c =
     (case get_stream c sid of
        None \<Rightarrow> (None, c)
      | Some st \<Rightarrow>
          (let c1 = map_recv (release_stream st)
                      (map_recv (\<lambda>r. r\<lparr>r_no_progress_frames := 0\<rparr>) (remove_stream sid c))
           in if (case st_content_length st of None \<Rightarrow> False | Some cl \<Rightarrow> cl \<noteq> length (st_body st))
              then rst now sid err_PROTOCOL_ERROR (drop_state st c1)
              else
                (let is_head = (st_method st = Some (str_bytes ''HEAD''));
                     hint = min (hm_len lib (st_headers st) + (if st_authority st = None then 0 else 1))
                              HEADER_COUNT_HINT_MAX;
                     c2 = map_recv (\<lambda>r. r\<lparr>r_header_count_hint := hint\<rparr>) c1
                 in case build_request lib st (c_body_budget c2) of
                      (None, bo) \<Rightarrow> rst now sid err_PROTOCOL_ERROR (c2\<lparr>c_body_budget := bo\<rparr>)
                    | (Some req, bo) \<Rightarrow>
                        (None, c2\<lparr>c_body_budget := bo,
                                  c_inflight := c_inflight c2 @ [(sid, is_head, req)],
                                  c_inflight_sids := insert sid (c_inflight_sids c2)\<rparr>))))"

section \<open>The checks before the match\<close>

definition frame_checks :: "frame_header \<Rightarrow> 'h conn \<Rightarrow> 'h step" where
  "frame_checks h c =
     (let kind = fh_kind h; sid = fh_stream_id h; r = c_recv c
      in if \<not> r_seen_settings r \<and> (kind \<noteq> kind_SETTINGS \<or> flag_set (fh_flags h) flag_ACK)
         then goaway err_PROTOCOL_ERROR c
         else
           (let c1 = map_recv (\<lambda>r. r\<lparr>r_seen_settings := True,
                        r_no_progress_frames := min (r_no_progress_frames r + 1) (2 ^ 32 - 1)\<rparr>) c
            in if r_no_progress_frames (c_recv c1) > NO_PROGRESS_BUDGET
               then goaway err_ENHANCE_YOUR_CALM c1
               else if (case r_open_header_block r of
                          Some op \<Rightarrow> kind \<noteq> kind_CONTINUATION \<or> sid \<noteq> op
                        | None \<Rightarrow> kind = kind_CONTINUATION)
               then goaway err_PROTOCOL_ERROR c1
               else if (kind \<in> {kind_DATA, kind_HEADERS, kind_PRIORITY, kind_RST_STREAM, kind_CONTINUATION} \<and> sid = 0)
                     \<or> (kind \<in> {kind_SETTINGS, kind_PING, kind_GOAWAY} \<and> sid \<noteq> 0)
                     \<or> kind = kind_PUSH_PROMISE
               then goaway err_PROTOCOL_ERROR c1
               else if (kind \<in> {kind_RST_STREAM, kind_WINDOW_UPDATE} \<and> fh_length h \<noteq> 4)
                     \<or> (kind = kind_PRIORITY \<and> fh_length h \<noteq> 5)
                     \<or> (kind = kind_PING \<and> fh_length h \<noteq> 8)
               then goaway err_FRAME_SIZE_ERROR c1
               else (None, c1)))"

section \<open>SETTINGS\<close>

text \<open>One parameter: the accumulated window delta and table size go on, or the connection ends.\<close>

definition apply_setting ::
  "u16 \<times> u32 \<Rightarrow> int \<times> u32 option \<times> 'h conn \<Rightarrow> 'h step + int \<times> u32 option \<times> 'h conn" where
  "apply_setting param s =
     (case (param, s) of ((i, v), (delta, hts, c)) \<Rightarrow>
        if i = set_ENABLE_PUSH then
          (if v > 1 then Inl (goaway err_PROTOCOL_ERROR c) else Inr (delta, hts, c))
        else if i = set_HEADER_TABLE_SIZE then
          Inr (delta, Some v, c\<lparr>c_enc := set_peer_max_size (unat v) (c_enc c)\<rparr>)
        else if i = set_MAX_FRAME_SIZE then
          (if \<not> (16384 \<le> v \<and> v \<le> 2 ^ 24 - 1) then Inl (goaway err_PROTOCOL_ERROR c)
           else Inr (delta, hts, c\<lparr>c_peer := (c_peer c)\<lparr>p_max_frame_size := v\<rparr>\<rparr>))
        else if i = set_INITIAL_WINDOW_SIZE then
          (if v > 0x7fffffff then Inl (goaway err_FLOW_CONTROL_ERROR c)
           else Inr (delta + (int (unat v) - p_initial_window (c_peer c)), hts,
                     c\<lparr>c_peer := (c_peer c)\<lparr>p_initial_window := int (unat v)\<rparr>\<rparr>))
        else Inr (delta, hts, c))"

primrec apply_settings ::
  "(u16 \<times> u32) list \<Rightarrow> int \<times> u32 option \<times> 'h conn \<Rightarrow> 'h step + int \<times> u32 option \<times> 'h conn" where
  "apply_settings [] s = Inr s"
| "apply_settings (p # ps) s =
     (case apply_setting p s of Inl out \<Rightarrow> Inl out | Inr s' \<Rightarrow> apply_settings ps s')"

definition settings_frame :: "frame_header \<Rightarrow> bytes \<Rightarrow> 'h conn \<Rightarrow> 'h step" where
  "settings_frame h payload c =
     (if flag_set (fh_flags h) flag_ACK then
        (if fh_length h \<noteq> 0 then goaway err_FRAME_SIZE_ERROR c else (None, c))
      else if \<not> 6 dvd unat (fh_length h) then goaway err_FRAME_SIZE_ERROR c
      else case parse_settings payload of
        None \<Rightarrow> goaway err_FRAME_SIZE_ERROR c
      | Some params \<Rightarrow>
          (case apply_settings params (0, None, c) of
             Inl out \<Rightarrow> out
           | Inr (iw_delta, hts, c1) \<Rightarrow>
               (let c2 = (if p_first_settings_recorded (c_peer c1) then c1
                          else c1\<lparr>c_peer := (c_peer c1)\<lparr>p_first_settings_recorded := True\<rparr>,
                                  c_peer_settings_seen := c_peer_settings_seen c1 @
                                    [(nat (p_initial_window (c_peer c1)),
                                      case hts of None \<Rightarrow> 4096 | Some v \<Rightarrow> unat v,
                                      unat (p_max_frame_size (c_peer c1)))]\<rparr>);
                    c3 = out_frames write_settings_ack c2
                in if iw_delta \<noteq> 0 then (Some (InitialWindowDelta iw_delta), c3) else (None, c3))))"

section \<open>PING, WINDOW_UPDATE and GOAWAY\<close>

definition ping_frame :: "frame_header \<Rightarrow> bytes \<Rightarrow> 'h conn \<Rightarrow> 'h step" where
  "ping_frame h payload c =
     (if flag_set (fh_flags h) flag_ACK then (None, c)
      else (None, out_frames (\<lambda>b. write_ping_ack b payload) c))"

definition window_update_frame :: "nat \<Rightarrow> frame_header \<Rightarrow> bytes \<Rightarrow> 'h conn \<Rightarrow> 'h step" where
  "window_update_frame now h payload c =
     (let sid = fh_stream_id h
      in if sid \<noteq> 0 \<and> (even (unat sid) \<or> sid > r_last_client_stream (c_recv c))
         then goaway err_PROTOCOL_ERROR c
         else case parse_window_update payload of
           None \<Rightarrow> goaway err_FRAME_SIZE_ERROR c
         | Some increment \<Rightarrow>
             if increment = 0 then
               (if sid = 0 then goaway err_PROTOCOL_ERROR c else rst now sid err_PROTOCOL_ERROR c)
             else (Some (WindowUpdate sid increment), c))"

definition goaway_frame :: "bytes \<Rightarrow> 'h conn \<Rightarrow> 'h step" where
  "goaway_frame payload c =
     (if length payload < 8 then goaway err_FRAME_SIZE_ERROR c else (Some PeerGoaway, c))"

section \<open>HEADERS and CONTINUATION\<close>

text \<open>What happens once a header block is decoded, shared by the two arms: refuse a marked stream,
  answer an oversized declared body, ask the early-reject hook, charge the waiting headers or refuse
  them, send 100 Continue, and dispatch a request that has ended.\<close>

definition header_block_decoded :: "'h http_lib \<Rightarrow> nat \<Rightarrow> u32 \<Rightarrow> decoded \<Rightarrow> 'h conn \<Rightarrow> 'h step" where
  "header_block_decoded lib now sid dcd c =
     (case dcd of
        DecOk \<Rightarrow>
          and_then (refuse_if_marked now sid c) (\<lambda>c.
          and_then (if declared_body_too_large (get_stream c sid) (r_max_request_body (c_recv c))
                    then reject_too_large now sid (str_bytes ''413'') True c else (None, c)) (\<lambda>c.
          and_then (reject_early lib now sid c) (\<lambda>c.
          and_then (case get_stream c sid of
                      None \<Rightarrow> (None, c)
                    | Some st \<Rightarrow>
                        if st_end_stream st then (None, c)
                        else and_then (admit_or_refuse lib now sid st c)
                               (\<lambda>c. (None, maybe_send_100_continue lib st sid c))) (\<lambda>c.
          if (case get_stream c sid of None \<Rightarrow> False | Some st \<Rightarrow> st_end_stream st)
          then complete lib now sid c else (None, c)))))
      | DecCompression \<Rightarrow> goaway err_COMPRESSION_ERROR c
      | DecTooLarge \<Rightarrow>
          and_then (refuse_if_marked now sid c) (\<lambda>c.
            reject_too_large now sid (str_bytes ''431'')
              (case get_stream c sid of None \<Rightarrow> False | Some st \<Rightarrow> \<not> st_end_stream st) c)
      | DecMalformed \<Rightarrow> rst now sid err_PROTOCOL_ERROR (drop_receiving sid c))"

text \<open>A block that is decoded only to keep HPACK in sync, then answered with a reset.\<close>

definition discard_headers :: "nat \<Rightarrow> frame_header \<Rightarrow> bytes \<Rightarrow> u32 \<Rightarrow> bool \<Rightarrow> 'h conn \<Rightarrow> 'h step" where
  "discard_headers now h payload code drop_first c =
     (let sid = fh_stream_id h
      in case headers_block (fh_flags h) payload of
        None \<Rightarrow> goaway err_PROTOCOL_ERROR c
      | Some block \<Rightarrow>
          if length block > MAX_HEADER_BLOCK then goaway err_COMPRESSION_ERROR c
          else
            (let c = (if drop_first then drop_receiving sid c else c)
             in if flag_set (fh_flags h) flag_END_HEADERS then
                  (case decode_discard_header_block (c_dec c) block of (ok, d) \<Rightarrow>
                     let c1 = c\<lparr>c_dec := d\<rparr>
                     in if \<not> ok then goaway err_COMPRESSION_ERROR c1 else rst now sid code c1)
                else
                  (Some Continue,
                   map_recv (\<lambda>r. r\<lparr>r_discard_header_block := block, r_discarding_header_block := True,
                                   r_discard_rst_code := code, r_open_header_block := Some sid\<rparr>) c)))"

text \<open>The block of a live stream: accumulated, or decoded when END_HEADERS is set.\<close>

definition open_headers ::
  "'h http_lib \<Rightarrow> nat \<Rightarrow> nat \<Rightarrow> bool \<Rightarrow> bool \<Rightarrow> frame_header \<Rightarrow> bytes \<Rightarrow> 'h conn \<Rightarrow> 'h step" where
  "open_headers lib now outstreams_len accept_new_streams opens_new_stream h payload c =
     (let sid = fh_stream_id h;
          refuse_new_stream = (opens_new_stream \<and>
            (\<not> accept_new_streams \<or>
             length (c_streams c) + length (c_inflight c) + outstreams_len \<ge> r_max_concurrent (c_recv c)))
      in case headers_block (fh_flags h) payload of
        None \<Rightarrow> goaway err_PROTOCOL_ERROR c
      | Some block \<Rightarrow>
          (let st0 = (case get_stream c sid of
                        Some st \<Rightarrow> st
                      | None \<Rightarrow> stream_new (hm_new lib) (r_our_initial_window (c_recv c)));
               st1 = (if refuse_new_stream then st0\<lparr>st_refused := True\<rparr> else st0);
               c1 = put_stream sid st1 c
           in if length (st_header_block st1) + length block > MAX_HEADER_BLOCK
              then goaway err_COMPRESSION_ERROR c1
              else
                (let st2 = (if flag_set (fh_flags h) flag_END_STREAM then st1\<lparr>st_end_stream := True\<rparr> else st1)
                 in if flag_set (fh_flags h) flag_END_HEADERS then
                      (let c2 = map_recv (\<lambda>r. r\<lparr>r_open_header_block := None\<rparr>) c1
                       in case (if st_header_block st2 = [] then decode_block_from lib (c_dec c2) st2 block
                                else decode_block lib (c_dec c2)
                                       (st2\<lparr>st_header_block := st_header_block st2 @ block\<rparr>)) of
                            (dcd, d, st3) \<Rightarrow>
                              header_block_decoded lib now sid dcd (put_stream sid st3 (c2\<lparr>c_dec := d\<rparr>)))
                    else
                      (None,
                       map_recv (\<lambda>r. r\<lparr>r_open_header_block := Some sid\<rparr>)
                         (put_stream sid (st2\<lparr>st_header_block := st_header_block st2 @ block\<rparr>) c1)))))"

definition headers_frame ::
  "'h http_lib \<Rightarrow> nat \<Rightarrow> nat \<Rightarrow> bool \<Rightarrow> frame_header \<Rightarrow> bytes \<Rightarrow> 'h conn \<Rightarrow> 'h step" where
  "headers_frame lib now outstreams_len accept_new_streams h payload c =
     (let sid = fh_stream_id h;
          opens_new_stream = (get_stream c sid = None)
      in if opens_new_stream \<and> even (unat sid) then goaway err_PROTOCOL_ERROR c
         else if opens_new_stream \<and> sid \<le> r_last_client_stream (c_recv c) then
           (if \<not> recent_contains (r_reset_ids (c_recv c)) sid then goaway err_PROTOCOL_ERROR c
            else discard_headers now h payload err_STREAM_CLOSED False c)
         else
           (let c1 = (if opens_new_stream
                      then map_recv (\<lambda>r. r\<lparr>r_last_client_stream := sid\<rparr>) c else c);
                self_priority = (priority_dependency (fh_flags h) payload True = Some sid);
                unterminated_trailers =
                  ((case get_stream c1 sid of None \<Rightarrow> False | Some st \<Rightarrow> st_headers_done st)
                   \<and> \<not> flag_set (fh_flags h) flag_END_STREAM)
            in if self_priority \<or> unterminated_trailers
               then discard_headers now h payload err_PROTOCOL_ERROR True c1
               else open_headers lib now outstreams_len accept_new_streams opens_new_stream h payload c1))"

definition continuation_frame :: "'h http_lib \<Rightarrow> nat \<Rightarrow> frame_header \<Rightarrow> bytes \<Rightarrow> 'h conn \<Rightarrow> 'h step" where
  "continuation_frame lib now h payload c =
     (let sid = fh_stream_id h; r = c_recv c
      in if r_discarding_header_block r then
           (if length (r_discard_header_block r) + length payload > MAX_HEADER_BLOCK
            then goaway err_COMPRESSION_ERROR c
            else
              (let block = r_discard_header_block r @ payload
               in if flag_set (fh_flags h) flag_END_HEADERS then
                    (case decode_discard_header_block (c_dec c) block of (ok, d) \<Rightarrow>
                       let c1 = map_recv (\<lambda>r. r\<lparr>r_open_header_block := None, r_discarding_header_block := False,
                                               r_discard_header_block := []\<rparr>) (c\<lparr>c_dec := d\<rparr>)
                       in if \<not> ok then goaway err_COMPRESSION_ERROR c1
                          else rst now sid (r_discard_rst_code r)
                                 (map_recv (\<lambda>r. r\<lparr>r_discard_rst_code := err_STREAM_CLOSED\<rparr>) c1))
                  else (Some Continue, map_recv (\<lambda>r. r\<lparr>r_discard_header_block := block\<rparr>) c)))
         else case get_stream c sid of
           None \<Rightarrow> goaway err_PROTOCOL_ERROR c
         | Some st \<Rightarrow>
             if length (st_header_block st) + length payload > MAX_HEADER_BLOCK
             then goaway err_COMPRESSION_ERROR c
             else
               (let st1 = st\<lparr>st_header_block := st_header_block st @ payload\<rparr>
                in if flag_set (fh_flags h) flag_END_HEADERS then
                     (case decode_block lib (c_dec c) st1 of (dcd, d, st2) \<Rightarrow>
                        header_block_decoded lib now sid dcd
                          (put_stream sid st2
                            (map_recv (\<lambda>r. r\<lparr>r_open_header_block := None\<rparr>) (c\<lparr>c_dec := d\<rparr>))))
                   else (None, put_stream sid st1 c)))"

section \<open>DATA\<close>

text \<open>Connection-level flow control, for every DATA frame.\<close>

definition conn_flow :: "int \<Rightarrow> 'h conn \<Rightarrow> 'h step" where
  "conn_flow flow c =
     (let c1 = map_recv (\<lambda>r. r\<lparr>r_conn_recv_window := r_conn_recv_window r - flow\<rparr>) c;
          w = r_conn_recv_window (c_recv c1)
      in if w < 0 then goaway err_FLOW_CONTROL_ERROR c1
         else
           (let conn_target = max (r_our_initial_window (c_recv c1)) 65535
            in if w \<le> conn_target div 2 then
                 (None, out_frames (\<lambda>b. write_window_update b 0 (word_of_int (conn_target - w)))
                          (map_recv (\<lambda>r. r\<lparr>r_conn_recv_window := conn_target\<rparr>) c1))
               else (None, c1)))"

text \<open>The server-wide reservation for the body bytes, then the body of a stream that passed its
  checks.\<close>

definition reserve_body :: "nat \<Rightarrow> 'h stream_state \<Rightarrow> 'h conn \<Rightarrow> bool \<times> 'h stream_state \<times> 'h conn" where
  "reserve_body n st c =
     (case c_body_budget c of
        None \<Rightarrow> (True, st, c)
      | Some b \<Rightarrow>
          (let held = (case st_body_lease st of Some l \<Rightarrow> l | None \<Rightarrow> lease_new)
           in case lease_reserve b held n of (ok, b', held') \<Rightarrow>
             (ok, st\<lparr>st_body_lease := Some held'\<rparr>, c\<lparr>c_body_budget := Some b'\<rparr>)))"

definition buffer_data ::
  "'h http_lib \<Rightarrow> nat \<Rightarrow> frame_header \<Rightarrow> bytes \<Rightarrow> 'h stream_state \<Rightarrow> 'h conn \<Rightarrow> 'h step" where
  "buffer_data lib now h data st c =
     (let sid = fh_stream_id h;
          c0 = (if data = [] then c else map_recv (\<lambda>r. r\<lparr>r_no_progress_frames := 0\<rparr>) c)
      in case reserve_body (length data) st c0 of
           (ok, st1, c1) \<Rightarrow>
             if \<not> ok then rst now sid err_REFUSED_STREAM (put_stream sid st1 c1)
             else
               (let c2 = map_recv (\<lambda>r. r\<lparr>r_total_buffered :=
                            usize_sat_add (r_total_buffered r) (length data)\<rparr>) c1;
                    st2 = st1\<lparr>st_body := st_body st1 @ data\<rparr>;
                    iw = r_our_initial_window (c_recv c2);
                    grant = (\<not> flag_set (fh_flags h) flag_END_STREAM \<and> st_recv_window st2 \<le> iw div 2);
                    st3 = (if grant then st2\<lparr>st_recv_window := iw\<rparr> else st2);
                    c3 = (if grant
                          then out_frames (\<lambda>b. write_window_update b sid
                                 (word_of_int (iw - st_recv_window st2))) c2 else c2);
                    c4 = put_stream sid st3 c3
                in if flag_set (fh_flags h) flag_END_STREAM \<and> st_headers_done st3
                   then complete lib now sid c4 else (None, c4)))"

definition data_frame :: "'h http_lib \<Rightarrow> nat \<Rightarrow> frame_header \<Rightarrow> bytes \<Rightarrow> 'h conn \<Rightarrow> 'h step" where
  "data_frame lib now h payload c =
     (let sid = fh_stream_id h; flow = int (length payload)
      in case data_block (fh_flags h) payload of
        None \<Rightarrow> goaway err_PROTOCOL_ERROR c
      | Some data \<Rightarrow>
          and_then (conn_flow flow c) (\<lambda>c.
            case get_stream c sid of
              None \<Rightarrow>
                if even (unat sid) \<or> sid > r_last_client_stream (c_recv c) then goaway err_PROTOCOL_ERROR c
                else if recent_contains (r_sent_reset_ids (c_recv c)) sid then (Some Continue, c)
                else rst now sid err_STREAM_CLOSED c
            | Some st0 \<Rightarrow>
                (let st = st0\<lparr>st_recv_window := st_recv_window st0 - flow\<rparr>;
                     c1 = put_stream sid st c
                 in if st_recv_window st < 0
                    then rst now sid err_FLOW_CONTROL_ERROR (drop_receiving sid c1)
                    else
                      (let body_len = length (st_body st) + length data
                       in if (case st_content_length st of None \<Rightarrow> False | Some cl \<Rightarrow> body_len > cl)
                          then rst now sid err_PROTOCOL_ERROR c1
                          else if body_len > r_max_request_body (c_recv c1)
                          then reject_too_large now sid (str_bytes ''413'')
                                 (\<not> flag_set (fh_flags h) flag_END_STREAM) c1
                          else if usize_sat_add (r_total_buffered (c_recv c1)) (length data)
                                    > r_per_conn_request_body (c_recv c1)
                          then goaway err_ENHANCE_YOUR_CALM c1
                          else buffer_data lib now h data st c1))))"

section \<open>RST_STREAM and PRIORITY\<close>

definition rst_stream_frame :: "nat \<Rightarrow> frame_header \<Rightarrow> 'h conn \<Rightarrow> 'h step" where
  "rst_stream_frame now h c =
     (let sid = fh_stream_id h
      in if even (unat sid) \<or> sid > r_last_client_stream (c_recv c) then goaway err_PROTOCOL_ERROR c
         else
           (let c1 = map_recv (note_reset sid) (drop_receiving sid c)
            in and_then (abort_handler now sid c1) (\<lambda>c. (Some (ResetStream sid), c))))"

definition priority_frame :: "nat \<Rightarrow> frame_header \<Rightarrow> bytes \<Rightarrow> 'h conn \<Rightarrow> 'h step" where
  "priority_frame now h payload c =
     (if priority_dependency (fh_flags h) payload False = Some (fh_stream_id h)
      then rst now (fh_stream_id h) err_PROTOCOL_ERROR c else (None, c))"

section \<open>process\_frame\<close>

definition frame_arm ::
  "'h http_lib \<Rightarrow> nat \<Rightarrow> nat \<Rightarrow> bool \<Rightarrow> frame_header \<Rightarrow> bytes \<Rightarrow> 'h conn \<Rightarrow> 'h step" where
  "frame_arm lib now outstreams_len accept_new_streams h payload c =
     (if fh_kind h = kind_SETTINGS then settings_frame h payload c
      else if fh_kind h = kind_PING then ping_frame h payload c
      else if fh_kind h = kind_WINDOW_UPDATE then window_update_frame now h payload c
      else if fh_kind h = kind_GOAWAY then goaway_frame payload c
      else if fh_kind h = kind_HEADERS then
        headers_frame lib now outstreams_len accept_new_streams h payload c
      else if fh_kind h = kind_CONTINUATION then continuation_frame lib now h payload c
      else if fh_kind h = kind_DATA then data_frame lib now h payload c
      else if fh_kind h = kind_RST_STREAM then rst_stream_frame now h c
      else if fh_kind h = kind_PRIORITY then priority_frame now h payload c
      else (None, c))"

definition process_frame ::
  "'h http_lib \<Rightarrow> nat \<Rightarrow> nat \<Rightarrow> bool \<Rightarrow> frame_header \<Rightarrow> bytes \<Rightarrow> 'h conn \<Rightarrow> frame_outcome \<times> 'h conn" where
  "process_frame lib now outstreams_len accept_new_streams h payload c =
     (case and_then (frame_checks h c) (frame_arm lib now outstreams_len accept_new_streams h payload) of
        (None, c') \<Rightarrow> (Continue, c')
      | (Some out, c') \<Rightarrow> (out, c'))"

section \<open>Projections\<close>

lemma and_then_cases:
  "(\<And>c'. s = (None, c') \<Longrightarrow> P (f c')) \<Longrightarrow> (\<And>out c'. s = (Some out, c') \<Longrightarrow> P (Some out, c')) \<Longrightarrow> P (and_then s f)"
  by (cases s) (auto simp: and_then_def split: option.splits)

lemma and_then_None [simp]: "and_then (None, c) f = f c"
  by (simp add: and_then_def)

lemma and_then_Some [simp]: "and_then (Some out, c) f = (Some out, c)"
  by (simp add: and_then_def)

text \<open>The part of \<open>Recv\<close> that tearing down streams and ending the connection leave alone.\<close>

definition recv_core :: "recv \<Rightarrow> recv" where
  "recv_core r = r\<lparr>r_goaway_last := None, r_reset_ids := recent_empty, r_sent_reset_ids := recent_empty,
     r_reset_debt_until := None, r_total_buffered := 0, r_pending_header_bytes := 0\<rparr>"

lemma recv_core_eqD:
  assumes "recv_core r = recv_core r'"
  shows "r_seen_settings r = r_seen_settings r'" "r_last_client_stream r = r_last_client_stream r'"
    "r_open_header_block r = r_open_header_block r'"
    "r_discarding_header_block r = r_discarding_header_block r'"
    "r_discard_header_block r = r_discard_header_block r'" "r_discard_rst_code r = r_discard_rst_code r'"
    "r_max_concurrent r = r_max_concurrent r'" "r_conn_recv_window r = r_conn_recv_window r'"
    "r_our_initial_window r = r_our_initial_window r'" "r_header_count_hint r = r_header_count_hint r'"
    "r_max_request_body r = r_max_request_body r'"
    "r_per_conn_request_body r = r_per_conn_request_body r'"
    "r_pending_header_mem r = r_pending_header_mem r'" "r_no_progress_frames r = r_no_progress_frames r'"
  using assms by (cases r; cases r'; simp add: recv_core_def)+

text \<open>A step that at most removes the stream \<open>sid\<close>, its handler, and touches output, budget and the
  fields outside \<open>recv_core\<close>.\<close>

definition only_drops :: "u32 \<Rightarrow> 'h conn \<Rightarrow> 'h conn \<Rightarrow> bool" where
  "only_drops sid c c' =
     (c_streams c' = AList.delete sid (c_streams c) \<and> c_dec c' = c_dec c \<and> c_peer c' = c_peer c \<and>
      c_inflight c' = c_inflight c \<and> c_inflight_sids c' \<subseteq> c_inflight_sids c \<and>
      recv_core (c_recv c') = recv_core (c_recv c) \<and>
      (\<forall>g. r_goaway_last (c_recv c') = Some g \<longrightarrow>
         g \<le> r_last_client_stream (c_recv c) \<or> r_goaway_last (c_recv c) = Some g))"

lemma recv_core_updates [simp]:
  "recv_core (r\<lparr>r_goaway_last := g\<rparr>) = recv_core r"
  "recv_core (r\<lparr>r_reset_ids := i\<rparr>) = recv_core r"
  "recv_core (r\<lparr>r_sent_reset_ids := i\<rparr>) = recv_core r"
  "recv_core (r\<lparr>r_reset_debt_until := u\<rparr>) = recv_core r"
  "recv_core (note_reset sid r) = recv_core r"
  "recv_core (release_stream st r) = recv_core r"
  by (simp_all add: recv_core_def note_reset_def release_stream_def)

lemma goaway_release: "r_goaway_last (release_stream st r) = r_goaway_last r"
  by (simp add: release_stream_def)

lemma drop_receiving_streams: "c_streams (drop_receiving sid c) = AList.delete sid (c_streams c)"
proof (cases "get_stream c sid")
  case None
  then have "sid \<notin> fst ` set (c_streams c)" by (simp add: get_stream_def map_of_eq_None_iff)
  then show ?thesis using None by (simp add: drop_receiving_def delete_absent)
qed (simp add: drop_receiving_def)

lemma drop_receiving_simps [simp]:
  "c_dec (drop_receiving sid c) = c_dec c" "c_enc (drop_receiving sid c) = c_enc c"
  "c_memo (drop_receiving sid c) = c_memo c" "c_out (drop_receiving sid c) = c_out c"
  "c_peer (drop_receiving sid c) = c_peer c" "c_inflight (drop_receiving sid c) = c_inflight c"
  "c_inflight_sids (drop_receiving sid c) = c_inflight_sids c"
  "c_cancelled (drop_receiving sid c) = c_cancelled c"
  "recv_core (c_recv (drop_receiving sid c)) = recv_core (c_recv c)"
  "r_goaway_last (c_recv (drop_receiving sid c)) = r_goaway_last (c_recv c)"
  by (simp_all add: drop_receiving_def goaway_release split: option.splits)

lemma drop_receiving_only_drops: "only_drops sid c (drop_receiving sid c)"
  by (simp add: only_drops_def drop_receiving_streams)

lemma goaway_last_bound:
  "goaway_last_stream_id r = (i, r') \<Longrightarrow> r' = r\<lparr>r_goaway_last := Some i\<rparr> \<and> i \<le> r_last_client_stream r"
  by (auto simp: goaway_last_stream_id_def Let_def min_def split: option.splits)

lemma goaway_simps [simp]:
  "fst (goaway code c) = Some StopReading"
  "c_streams (snd (goaway code c)) = c_streams c" "c_dec (snd (goaway code c)) = c_dec c"
  "c_peer (snd (goaway code c)) = c_peer c" "c_inflight (snd (goaway code c)) = c_inflight c"
  "c_inflight_sids (snd (goaway code c)) = c_inflight_sids c"
  "c_body_budget (snd (goaway code c)) = c_body_budget c"
  "recv_core (c_recv (snd (goaway code c))) = recv_core (c_recv c)"
  "r_total_buffered (c_recv (snd (goaway code c))) = r_total_buffered (c_recv c)"
  "r_pending_header_bytes (c_recv (snd (goaway code c))) = r_pending_header_bytes (c_recv c)"
  by (auto simp: goaway_def goaway_last_stream_id_def Let_def)

lemma goaway_last_le: "\<exists>g. r_goaway_last (c_recv (snd (goaway code c))) = Some g \<and> g \<le> r_last_client_stream (c_recv c)"
  by (auto simp: goaway_def goaway_last_stream_id_def Let_def min_def split: option.splits)

text \<open>The connection after the bookkeeping of an aborted handler.\<close>

lemma abort_handler_result:
  "fst (abort_handler now sid c) \<in> {None, Some StopReading}"
  "c_streams (snd (abort_handler now sid c)) = c_streams c"
  "c_dec (snd (abort_handler now sid c)) = c_dec c"
  "c_peer (snd (abort_handler now sid c)) = c_peer c"
  "c_inflight (snd (abort_handler now sid c)) = c_inflight c"
  "c_inflight_sids (snd (abort_handler now sid c)) = c_inflight_sids c - {sid}"
  "c_body_budget (snd (abort_handler now sid c)) = c_body_budget c"
  "recv_core (c_recv (snd (abort_handler now sid c))) = recv_core (c_recv c)"
  "r_total_buffered (c_recv (snd (abort_handler now sid c))) = r_total_buffered (c_recv c)"
  "r_pending_header_bytes (c_recv (snd (abort_handler now sid c))) = r_pending_header_bytes (c_recv c)"
  by (auto simp: abort_handler_def charge_inflight_reset_def charge_inflight_reset_at_def Let_def)

lemma teardown_only_drops: "only_drops sid c (teardown_receiving sid c)"
  by (simp add: only_drops_def teardown_receiving_def Let_def drop_receiving_streams note_reset_def)

lemma only_drops_trans_same:
  assumes "only_drops sid c d" "c_streams e = c_streams d" "c_dec e = c_dec d" "c_peer e = c_peer d"
    "c_inflight e = c_inflight d" "c_inflight_sids e \<subseteq> c_inflight_sids d"
    "recv_core (c_recv e) = recv_core (c_recv d)"
    "\<And>g. r_goaway_last (c_recv e) = Some g \<Longrightarrow>
       g \<le> r_last_client_stream (c_recv d) \<or> r_goaway_last (c_recv d) = Some g"
  shows "only_drops sid c e"
proof -
  have "r_last_client_stream (c_recv d) = r_last_client_stream (c_recv c)"
    using assms(1) recv_core_eqD(2) [of "c_recv d" "c_recv c"] by (simp add: only_drops_def)
  then show ?thesis using assms by (auto simp: only_drops_def)
qed

lemma abort_goaway:
  "r_goaway_last (c_recv (snd (abort_handler now sid c))) = Some g \<Longrightarrow>
     g \<le> r_last_client_stream (c_recv c) \<or> r_goaway_last (c_recv c) = Some g"
proof (cases "sid \<in> c_inflight_sids c")
  case True
  assume g: "r_goaway_last (c_recv (snd (abort_handler now sid c))) = Some g"
  let ?c1 = "c\<lparr>c_inflight_sids := c_inflight_sids c - {sid}\<rparr>"
  let ?c2 = "if card (c_cancelled ?c1) < usize_sat_mul (r_max_concurrent (c_recv ?c1)) 2
                   then ?c1\<lparr>c_cancelled := insert sid (c_cancelled ?c1)\<rparr> else ?c1"
  obtain e c3 where ch: "charge_inflight_reset now ?c2 = (e, c3)" by (metis surj_pair)
  have r3: "r_last_client_stream (c_recv c3) = r_last_client_stream (c_recv c)"
      "r_goaway_last (c_recv c3) = r_goaway_last (c_recv c)"
    using ch by (auto simp: charge_inflight_reset_def charge_inflight_reset_at_def Let_def split: if_splits)
  have ab: "abort_handler now sid c = (if e then goaway err_ENHANCE_YOUR_CALM c3 else (None, c3))"
    using True ch unfolding abort_handler_def Let_def by (simp only: if_True prod.case)
  show ?thesis
  proof (cases e)
    case True
    then show ?thesis using g ab goaway_last_le [of err_ENHANCE_YOUR_CALM c3] r3 by auto
  next
    case False
    then show ?thesis using g ab r3 by simp
  qed
qed (simp add: abort_handler_def)

lemma rst_only_drops: "only_drops sid c (snd (rst now sid code c))"
proof -
  let ?d = "teardown_receiving sid (out_frames (\<lambda>b. write_rst_stream b sid code) c)"
  have "only_drops sid (out_frames (\<lambda>b. write_rst_stream b sid code) c) ?d" by (rule teardown_only_drops)
  then have d: "only_drops sid c ?d" by (simp add: only_drops_def)
  have "snd (rst now sid code c) = snd (abort_handler now sid ?d)"
    by (simp add: rst_def Let_def) (rule and_then_cases; simp)
  then show ?thesis
    using only_drops_trans_same [OF d, of "snd (abort_handler now sid ?d)"] abort_goaway
    by (auto simp: abort_handler_result)
qed

lemma rst_outcome: "fst (rst now sid code c) \<in> {Some (ResetStream sid), Some StopReading}"
proof -
  let ?d = "teardown_receiving sid (out_frames (\<lambda>b. write_rst_stream b sid code) c)"
  show ?thesis
    using abort_handler_result(1) [of now sid ?d]
    by (cases "abort_handler now sid ?d") (auto simp: rst_def Let_def and_then_def split: option.splits)
qed

section \<open>Accounting through the macros\<close>

lemma acct_updates [simp]:
  "acct_inv others (c\<lparr>c_enc := e\<rparr>) = acct_inv others c" "acct_inv others (c\<lparr>c_dec := d\<rparr>) = acct_inv others c"
  "acct_inv others (c\<lparr>c_memo := m\<rparr>) = acct_inv others c" "acct_inv others (c\<lparr>c_peer := p\<rparr>) = acct_inv others c"
  "acct_inv others (c\<lparr>c_inflight_sids := s\<rparr>) = acct_inv others c"
  "acct_inv others (c\<lparr>c_cancelled := s\<rparr>) = acct_inv others c"
  "acct_inv others (c\<lparr>c_peer_settings_seen := l\<rparr>) = acct_inv others c"
  by (simp_all add: acct_inv_def)

lemma acct_map_recv:
  "r_total_buffered (f (c_recv c)) = r_total_buffered (c_recv c) \<Longrightarrow>
   r_pending_header_bytes (f (c_recv c)) = r_pending_header_bytes (c_recv c) \<Longrightarrow>
   r_per_conn_request_body (f (c_recv c)) = r_per_conn_request_body (c_recv c) \<Longrightarrow>
   r_pending_header_mem (f (c_recv c)) = r_pending_header_mem (c_recv c) \<Longrightarrow>
   acct_inv others (map_recv f c) = acct_inv others c"
  by (rule acct_inv_same) (simp add: same_acct_def)

lemma acct_same_core:
  assumes "c_streams d = c_streams c" "c_inflight d = c_inflight c" "c_body_budget d = c_body_budget c"
    "recv_core (c_recv d) = recv_core (c_recv c)"
    "r_total_buffered (c_recv d) = r_total_buffered (c_recv c)"
    "r_pending_header_bytes (c_recv d) = r_pending_header_bytes (c_recv c)"
  shows "acct_inv others d = acct_inv others c"
  using assms recv_core_eqD(12,13) [OF assms(4)] by (intro acct_inv_same) (simp add: same_acct_def)

lemma acct_goaway [simp]: "acct_inv others (snd (goaway code c)) = acct_inv others c"
  by (rule acct_same_core) simp_all

lemma acct_abort [simp]: "acct_inv others (snd (abort_handler now sid c)) = acct_inv others c"
  by (rule acct_same_core) (simp_all add: abort_handler_result)

lemma acct_rst:
  assumes "acct_inv others c"
  shows "acct_inv others (snd (rst now sid code c))"
proof -
  let ?d = "teardown_receiving sid (out_frames (\<lambda>b. write_rst_stream b sid code) c)"
  have "snd (rst now sid code c) = snd (abort_handler now sid ?d)"
    by (simp add: rst_def Let_def) (rule and_then_cases; simp)
  moreover have "acct_inv others ?d" using assms by (simp add: acct_teardown)
  ultimately show ?thesis by simp
qed

lemma encode_fields_simps:
  assumes "encode_fields hs c = (block, c')"
  shows "c_streams c' = c_streams c" "c_dec c' = c_dec c" "c_peer c' = c_peer c" "c_recv c' = c_recv c"
    "c_inflight c' = c_inflight c" "c_inflight_sids c' = c_inflight_sids c"
    "c_body_budget c' = c_body_budget c" "acct_inv others c' = acct_inv others c"
  using assms by (auto simp: encode_fields_def split: prod.splits)

lemma acct_encode: "encode_fields hs c = (block, c') \<Longrightarrow> acct_inv others c \<Longrightarrow> acct_inv others c'"
  by (simp add: encode_fields_simps(8))

lemma acct_reject_too_large:
  assumes "acct_inv others c"
  shows "acct_inv others (snd (reject_too_large now sid status client_open c))"
proof -
  obtain block c1 where e: "encode_fields [(str_bytes '':status'', status),
      (str_bytes ''content-length'', str_bytes ''0'')] c = (block, c1)" by (metis surj_pair)
  then have "acct_inv others c1" using assms by (rule acct_encode)
  then show ?thesis using e by (simp add: reject_too_large_def Let_def acct_drop_receiving acct_rst)
qed

lemma acct_reject_early:
  assumes "acct_inv others c"
  shows "acct_inv others (snd (reject_early lib now sid c))"
  using assms
  by (auto simp: reject_early_def Let_def intro!: acct_rst split: option.splits prod.splits
      dest: acct_encode)

text \<open>The stream whose block was just decoded: it holds nothing yet, or it has ended with trailers.\<close>

definition block_stream :: "'h stream_state \<Rightarrow> bool" where
  "block_stream st =
     ((st_body st = [] \<and> st_header_charge st = 0) \<or> (st_end_stream st \<and> \<not> st_refused st))"

lemma acct_refuse_if_marked:
  assumes "acct_inv others c" "\<And>st. get_stream c sid = Some st \<Longrightarrow> block_stream st"
  shows "acct_inv others (snd (refuse_if_marked now sid c))"
proof (cases "\<exists>st. get_stream c sid = Some st \<and> st_refused st")
  case True
  then obtain st where st: "get_stream c sid = Some st" "st_refused st" by blast
  then have z: "st_body st = []" "st_header_charge st = 0" using assms(2) by (auto simp: block_stream_def)
  have "map_recv (release_stream st) (remove_stream sid c) = remove_stream sid c"
    using z by (simp add: map_recv_def release_stream_def)
  then have "acct_inv others (drop_state st (remove_stream sid c))"
    using acct_remove(1) [OF assms(1) st(1)] by simp
  then show ?thesis using st by (simp add: refuse_if_marked_def acct_rst)
next
  case False
  then show ?thesis using assms(1) by (auto simp: refuse_if_marked_def split: option.splits)
qed

lemma acct_admit_or_refuse:
  assumes "acct_inv others c" "get_stream c sid = Some st" "st_header_charge st = 0"
  shows "acct_inv others (snd (admit_or_refuse lib now sid st c))"
proof -
  obtain ok st' c' where adm: "admit_pending_headers st (pending_header_charge lib st) c = (ok, st', c')"
    by (metis prod_cases3)
  have "acct_inv others (put_stream sid st' c')"
    using acct_admit [OF assms(1-3) pending_header_charge_bound adm] .
  then show ?thesis using adm by (simp add: admit_or_refuse_def Let_def acct_rst)
qed

lemma acct_complete:
  assumes inv: "acct_inv others c"
  shows "acct_inv others (snd (complete lib now sid c))"
proof (cases "get_stream c sid")
  case None
  then show ?thesis using inv by (simp add: complete_def)
next
  case (Some st)
  let ?c0 = "map_recv (\<lambda>r. r\<lparr>r_no_progress_frames := 0\<rparr>) c"
  let ?c1 = "map_recv (release_stream st) (map_recv (\<lambda>r. r\<lparr>r_no_progress_frames := 0\<rparr>) (remove_stream sid c))"
  have c1: "?c1 = map_recv (release_stream st) (remove_stream sid ?c0)"
    by (simp add: map_recv_def remove_stream_def)
  have inv0: "acct_inv others ?c0" using inv by (simp add: acct_map_recv)
  have st0: "get_stream ?c0 sid = Some st" using Some by simp
  note rem = acct_remove [OF inv0 st0, folded c1]
  show ?thesis
  proof (cases "case st_content_length st of None \<Rightarrow> False | Some cl \<Rightarrow> cl \<noteq> length (st_body st)")
    case True
    then show ?thesis using Some rem(1) by (simp add: complete_def Let_def acct_rst)
  next
    case False
    define hint where "hint = min (hm_len lib (st_headers st) + (if st_authority st = None then 0 else 1))
                              HEADER_COUNT_HINT_MAX"
    let ?c2 = "map_recv (\<lambda>r. r\<lparr>r_header_count_hint := hint\<rparr>) ?c1"
    obtain rq bo where br: "build_request lib st (c_body_budget ?c2) = (rq, bo)" by (metis surj_pair)
    have c2: "acct_inv (others + lease_of (st_body_lease st)) ?c2" using rem(2) by (simp add: acct_map_recv)
    have exact: "lease_exact (c_body_budget c) st"
      using inv stream_in_table [OF Some] by (auto simp: acct_inv_def)
    define rest where "rest = sum_streams (\<lambda>st. lease_of (st_body_lease st)) (c_streams ?c2) + inflight_held (c_inflight ?c2)"
    have bo: "(c_body_budget c = None \<and> bo = None) \<or> (\<exists>b b'. c_body_budget c = Some b \<and> bo = Some b' \<and>
        ledger_ok b' (others + rest + (case rq of None \<Rightarrow> 0 | Some q \<Rightarrow> lease_of (rq_body_lease q))))"
    proof (cases "c_body_budget c")
      case None
      then show ?thesis using br build_request_none by auto
    next
      case (Some b)
      have led: "ledger_ok b ((others + rest) + lease_of (st_body_lease st))"
        using c2 Some by (simp add: acct_inv_def rest_def ac_simps)
      have "lease_exact (Some b) st" using exact Some by simp
      from build_request_ledger(1) [OF br _ this led] show ?thesis using Some by auto
    qed
    have ex: "\<forall>(s, x) \<in> set (c_streams ?c2). lease_exact bo x"
    proof -
      have "\<forall>(s, x) \<in> set (c_streams ?c2). lease_exact (c_body_budget c) x"
        using c2 by (simp add: acct_inv_def)
      then show ?thesis using bo by (auto simp: lease_exact_def)
    qed
    show ?thesis
    proof (cases rq)
      case None
      have "acct_inv others (?c2\<lparr>c_body_budget := bo\<rparr>)"
        using c2 bo ex None by (auto simp: acct_inv_def rest_def ac_simps)
      then show ?thesis using Some False br None
        by (simp add: complete_def Let_def hint_def acct_rst)
    next
      case (Some q)
      have "acct_inv others (?c2\<lparr>c_body_budget := bo,
          c_inflight := c_inflight ?c2 @ [(sid, st_method st = Some (str_bytes ''HEAD''), q)],
          c_inflight_sids := insert sid (c_inflight_sids ?c2)\<rparr>)"
        using c2 bo ex Some by (auto simp: acct_inv_def rest_def inflight_held_def ac_simps)
      then show ?thesis using \<open>get_stream c sid = Some st\<close> False br Some
        by (simp add: complete_def Let_def hint_def)
    qed
  qed
qed

lemma rst_not_None [simp]: "rst now sid code c \<noteq> (None, c')"
  using rst_outcome [of now sid code c] by (metis fst_conv insertE option.distinct(1) singletonD)

lemma goaway_not_None [simp]: "goaway code c \<noteq> (None, c')"
  using goaway_simps(1) [of code c] by (metis fst_conv option.distinct(1))

lemma reject_too_large_not_None [simp]: "reject_too_large now sid status op c \<noteq> (None, c')"
  by (auto simp: reject_too_large_def Let_def split: prod.splits)

lemma refuse_if_marked_None: "refuse_if_marked now sid c = (None, c') \<Longrightarrow> c' = c"
  by (auto simp: refuse_if_marked_def split: option.splits if_splits)

lemma reject_early_None: "reject_early lib now sid c = (None, c') \<Longrightarrow> c' = c"
  by (auto simp: reject_early_def Let_def split: option.splits if_splits prod.splits)

lemma snd_and_then:
  "(\<And>c'. s = (None, c') \<Longrightarrow> P (snd (f c'))) \<Longrightarrow> P (snd s) \<Longrightarrow> P (snd (and_then s f))"
  by (cases s) (auto simp: and_then_def split: option.splits)

lemma acct_continue [simp]: "acct_inv others (maybe_send_100_continue lib st sid c) = acct_inv others c"
  by (rule acct_inv_same) (simp add: same_acct_def)

lemma admit_end_stream:
  "admit_pending_headers st charge c = (ok, st', c') \<Longrightarrow> st_end_stream st' = st_end_stream st"
  by (auto simp: admit_pending_headers_def Let_def split: if_splits option.splits prod.splits bool.splits)

text \<open>The ways a decoded block can end.\<close>

lemma header_block_decodedE:
  assumes st: "get_stream c sid = Some st"
  obtains (refused) "st_refused st"
      "header_block_decoded lib now sid dcd c =
         rst now sid err_REFUSED_STREAM (drop_state st (remove_stream sid c))"
  | (body_too_large) "\<not> st_refused st" "\<not> st_end_stream st" "dcd = DecOk"
      "header_block_decoded lib now sid dcd c = reject_too_large now sid (str_bytes ''413'') True c"
  | (early) out c' where "\<not> st_refused st" "\<not> st_end_stream st" "dcd = DecOk"
      "reject_early lib now sid c = (Some out, c')"
      "header_block_decoded lib now sid dcd c = reject_early lib now sid c"
  | (no_memory) st' c' where "\<not> st_refused st" "\<not> st_end_stream st" "dcd = DecOk"
      "admit_pending_headers st (pending_header_charge lib st) c = (False, st', c')"
      "header_block_decoded lib now sid dcd c = rst now sid err_REFUSED_STREAM (put_stream sid st' c')"
  | (admitted) st' c' where "\<not> st_refused st" "\<not> st_end_stream st" "dcd = DecOk"
      "admit_pending_headers st (pending_header_charge lib st) c = (True, st', c')"
      "header_block_decoded lib now sid dcd c =
         (None, maybe_send_100_continue lib st sid (put_stream sid st' c'))"
  | (ended) "\<not> st_refused st" "st_end_stream st" "dcd = DecOk"
      "header_block_decoded lib now sid dcd c = complete lib now sid c"
  | (compression) "dcd = DecCompression" "header_block_decoded lib now sid dcd c = goaway err_COMPRESSION_ERROR c"
  | (list_too_large) "\<not> st_refused st" "dcd = DecTooLarge"
      "header_block_decoded lib now sid dcd c = reject_too_large now sid (str_bytes ''431'') (\<not> st_end_stream st) c"
  | (malformed) "dcd = DecMalformed"
      "header_block_decoded lib now sid dcd c = rst now sid err_PROTOCOL_ERROR (drop_receiving sid c)"
proof (cases dcd)
  case DecCompression
  then show thesis using compression by (simp add: header_block_decoded_def)
next
  case DecMalformed
  then show thesis using malformed by (simp add: header_block_decoded_def)
next
  case DecTooLarge
  show thesis
  proof (cases "st_refused st")
    case True
    obtain out c' where r: "rst now sid err_REFUSED_STREAM (drop_state st (remove_stream sid c)) = (Some out, c')"
      by (metis rst_not_None surj_pair option.exhaust)
    show thesis
      by (rule refused [OF True]) (simp add: header_block_decoded_def DecTooLarge refuse_if_marked_def st True r)
  next
    case False
    show thesis
      by (rule list_too_large [OF False DecTooLarge])
        (simp add: header_block_decoded_def DecTooLarge refuse_if_marked_def st False)
  qed
next
  case DecOk
  show thesis
  proof (cases "st_refused st")
    case True
    obtain out c' where r: "rst now sid err_REFUSED_STREAM (drop_state st (remove_stream sid c)) = (Some out, c')"
      by (metis rst_not_None surj_pair option.exhaust)
    show thesis
      by (rule refused [OF True]) (simp add: header_block_decoded_def DecOk refuse_if_marked_def st True r)
  next
    case nr: False
    have m: "refuse_if_marked now sid c = (None, c)" using st nr by (simp add: refuse_if_marked_def)
    show thesis
    proof (cases "st_end_stream st")
      case True
      have "reject_early lib now sid c = (None, c)" using st True by (simp add: reject_early_def)
      then show thesis using ended [OF nr True DecOk] m st True
        by (simp add: header_block_decoded_def DecOk declared_body_too_large_def)
    next
      case open': False
      show thesis
      proof (cases "declared_body_too_large (Some st) (r_max_request_body (c_recv c))")
        case True
        obtain out c' where r: "reject_too_large now sid (str_bytes ''413'') True c = (Some out, c')"
          by (metis reject_too_large_not_None surj_pair option.exhaust)
        show thesis
          by (rule body_too_large [OF nr open' DecOk]) (simp add: header_block_decoded_def DecOk m st True r)
      next
        case fits: False
        show thesis
        proof (cases "reject_early lib now sid c")
          case (Pair o' c1)
          show thesis
          proof (cases o')
            case (Some out)
            show thesis
              by (rule early [OF nr open' DecOk]) (use Pair Some in \<open>simp_all add: header_block_decoded_def DecOk m st fits\<close>)
          next
            case None
            then have rj: "reject_early lib now sid c = (None, c)" using Pair reject_early_None by auto
            obtain ok st' c' where adm: "admit_pending_headers st (pending_header_charge lib st) c = (ok, st', c')"
              by (metis prod_cases3)
            show thesis
            proof (cases ok)
              case True
              then show thesis
                using admitted [OF nr open' DecOk] adm m st fits rj open' admit_end_stream [OF adm]
                by (simp add: header_block_decoded_def DecOk admit_or_refuse_def get_stream_def update_conv)
            next
              case False
              obtain out c2 where r: "rst now sid err_REFUSED_STREAM (put_stream sid st' c') = (Some out, c2)"
                by (metis rst_not_None surj_pair option.exhaust)
              show thesis
                by (rule no_memory [OF nr open' DecOk, of st' c'])
                  (use adm False in \<open>simp_all add: header_block_decoded_def DecOk m st fits rj open' admit_or_refuse_def r\<close>)
            qed
          qed
        qed
      qed
    qed
  qed
qed

lemma acct_header_block_decoded:
  assumes inv: "acct_inv others c" and st: "get_stream c sid = Some st" "block_stream st"
  shows "acct_inv others (snd (header_block_decoded lib now sid dcd c))"
  using st(1)
proof (cases rule: header_block_decodedE [where lib = lib and now = now and dcd = dcd])
  case refused
  then show ?thesis
    using acct_refuse_if_marked [OF inv, of sid now] st by (simp add: refuse_if_marked_def)
next
  case (early out c')
  then show ?thesis using acct_reject_early [OF inv, of lib now sid] by (metis snd_conv)
next
  case (no_memory st' c')
  then have "st_header_charge st = 0" using st(2) by (auto simp: block_stream_def)
  from acct_admit [OF inv st(1) this pending_header_charge_bound no_memory(4)] no_memory show ?thesis
    by (simp add: acct_rst)
next
  case (admitted st' c')
  then have "st_header_charge st = 0" using st(2) by (auto simp: block_stream_def)
  from acct_admit [OF inv st(1) this pending_header_charge_bound admitted(4)] admitted show ?thesis by simp
qed (simp_all add: inv acct_reject_too_large acct_complete acct_rst acct_drop_receiving)

end
