(* ===== verification/H2_Start.thy ===== *)
theory H2_Start
  imports H2_Recv
begin

text \<open>
  The start of a connection, \<open>serve\<close> of \<open>hj-h2/src/server/mod.rs\<close> up to its loop: the parameters
  \<open>Config\<close>, the frames sent first (our SETTINGS, and a WINDOW_UPDATE that raises the connection window
  to the stream window), and the state the loop begins with. Durations are nanoseconds. The
  \<open>early_reject\<close> hook of \<open>Config\<close> is a field of \<open>http_lib\<close>; the memo of long literals belongs to the
  thread, so it is an argument.
\<close>

definition secs :: "nat \<Rightarrow> nat" where
  "secs n = n * 1000000000"

definition GOAWAY_DRAIN_TIMEOUT :: nat where
  "GOAWAY_DRAIN_TIMEOUT = secs 300"

definition SHUTDOWN_IDLE_STREAM_TIMEOUT :: nat where
  "SHUTDOWN_IDLE_STREAM_TIMEOUT = secs 2"

definition BODY_DEADLINE_CEILING :: nat where
  "BODY_DEADLINE_CEILING = secs (15 * 60)"

record h2_config =
  cfg_header_table_size :: u32
  cfg_max_concurrent_streams :: u32
  cfg_initial_window_size :: u32
  cfg_max_frame_size :: u32
  cfg_header_list_size :: u32
  cfg_max_request_body :: nat
  cfg_body_budget :: "budget option"
  cfg_pending_header_mem :: nat
  cfg_conn_idle_timeout :: "nat option"
  cfg_preface_timeout :: "nat option"
  cfg_frame_read_timeout :: "nat option"
  cfg_request_body_timeout :: "nat option"
  cfg_request_body_ceiling :: nat
  cfg_bandwidth_limit :: nat
  cfg_send_stall_timeout :: "nat option"
  cfg_goaway_drain_timeout :: nat
  cfg_shutdown_idle_stream_timeout :: "nat option"

definition config_default :: h2_config where
  "config_default =
     \<lparr>cfg_header_table_size = 4096, cfg_max_concurrent_streams = 256,
      cfg_initial_window_size = push_bit 21 1, cfg_max_frame_size = 16384,
      cfg_header_list_size = 131072, cfg_max_request_body = 64 * 1024 * 1024,
      cfg_body_budget = None, cfg_pending_header_mem = 4 * 2 ^ 20,
      cfg_conn_idle_timeout = Some (secs 60), cfg_preface_timeout = None,
      cfg_frame_read_timeout = Some (secs 15), cfg_request_body_timeout = Some (secs 60),
      cfg_request_body_ceiling = BODY_DEADLINE_CEILING, cfg_bandwidth_limit = 0,
      cfg_send_stall_timeout = Some (secs 60), cfg_goaway_drain_timeout = GOAWAY_DRAIN_TIMEOUT,
      cfg_shutdown_idle_stream_timeout = Some SHUTDOWN_IDLE_STREAM_TIMEOUT\<rparr>"

section \<open>The first frames\<close>

definition start_frames :: "h2_config \<Rightarrow> bytes" where
  "start_frames cfg =
     (let b = write_settings []
                [(set_HEADER_TABLE_SIZE, cfg_header_table_size cfg),
                 (set_MAX_CONCURRENT_STREAMS, cfg_max_concurrent_streams cfg),
                 (set_INITIAL_WINDOW_SIZE, cfg_initial_window_size cfg),
                 (set_MAX_FRAME_SIZE, cfg_max_frame_size cfg),
                 (set_MAX_HEADER_LIST_SIZE, cfg_header_list_size cfg)]
      in if cfg_initial_window_size cfg > 65535
         then write_window_update b 0 (cfg_initial_window_size cfg - 65535) else b)"

section \<open>The first state\<close>

definition recv_start :: "h2_config \<Rightarrow> recv" where
  "recv_start cfg =
     \<lparr>r_seen_settings = False, r_last_client_stream = 0, r_goaway_last = None,
      r_open_header_block = None, r_discarding_header_block = False, r_discard_header_block = [],
      r_discard_rst_code = err_STREAM_CLOSED, r_reset_ids = recent_empty,
      r_sent_reset_ids = recent_empty, r_max_concurrent = unat (cfg_max_concurrent_streams cfg),
      r_conn_recv_window = int (unat (max (cfg_initial_window_size cfg) 65535)),
      r_our_initial_window = int (unat (cfg_initial_window_size cfg)), r_header_count_hint = 0,
      r_reset_debt_until = None, r_total_buffered = 0,
      r_max_request_body = cfg_max_request_body cfg,
      r_per_conn_request_body = usize_sat_mul (cfg_max_request_body cfg) 4,
      r_pending_header_bytes = 0, r_pending_header_mem = cfg_pending_header_mem cfg,
      r_no_progress_frames = 0\<rparr>"

definition conn_start :: "h2_config \<Rightarrow> literal_memo \<Rightarrow> 'h conn" where
  "conn_start cfg memo =
     \<lparr>c_streams = [],
      c_dec = decoder_new (unat (cfg_header_table_size cfg)) (unat (cfg_header_list_size cfg)),
      c_enc = encoder_new, c_memo = memo, c_out = [], c_peer = peer_default,
      c_recv = recv_start cfg, c_inflight = [], c_inflight_sids = {}, c_cancelled = {},
      c_body_budget = cfg_body_budget cfg, c_rapid_reset_goaways = 0, c_peer_settings_seen = []\<rparr>"

text \<open>What the operator must configure: limits below the saturation point of \<open>usize\<close>, and a budget
  whose ledger is that of the other connections.\<close>

definition config_ok :: "nat \<Rightarrow> h2_config \<Rightarrow> bool" where
  "config_ok others cfg =
     (cfg_max_request_body cfg * 4 < usize_max \<and> cfg_pending_header_mem cfg < usize_max \<and>
      (case cfg_body_budget cfg of None \<Rightarrow> True | Some b \<Rightarrow> ledger_ok b others))"

lemma config_default_ok: "config_ok others config_default"
  by (simp add: config_ok_def config_default_def usize_max_def)

lemma conn_start_acct: "config_ok others cfg \<Longrightarrow> acct_inv others (conn_start cfg memo)"
  by (auto simp: config_ok_def acct_inv_def conn_start_def recv_start_def limits_ok_def sum_streams_def
      inflight_held_def usize_sat_mul_def split: option.splits)

end
