(* ===== verification/H2_Invariant.thy ===== *)
theory H2_Invariant
  imports H2_Start
begin

text \<open>
  The invariant of the HTTP/2 connection and its preservation by \<open>process_frame\<close>. Besides the
  accounting (\<open>acct_inv\<close> of \<open>H2_State\<close>) it says which streams may be in the table: odd ids up to the
  highest one seen, none of them with a running handler, bodies and windows within bounds; and that a
  stream is either settled (its head decoded, nothing pending but the body) or is the one whose
  header block is open.

  Ending the connection (\<open>StopReading\<close>) keeps the accounting only: no frame is processed after it.
\<close>

section \<open>The invariant\<close>

definition stream_base :: "recv \<Rightarrow> u32 set \<Rightarrow> u32 \<Rightarrow> 'h stream_state \<Rightarrow> bool" where
  "stream_base r sids sid st =
     (odd (unat sid) \<and> sid \<le> r_last_client_stream r \<and> sid \<notin> sids \<and>
      length (st_body st) \<le> r_max_request_body r \<and>
      0 \<le> st_recv_window st \<and> st_recv_window st \<le> r_our_initial_window r \<and>
      (\<not> st_headers_done st \<longrightarrow> st_header_charge st = 0 \<and> st_body st = []))"

definition recv_base :: "recv \<Rightarrow> bool" where
  "recv_base r =
     (0 \<le> r_conn_recv_window r \<and> r_conn_recv_window r \<le> max (r_our_initial_window r) 65535 \<and>
      0 \<le> r_our_initial_window r \<and> r_no_progress_frames r \<le> NO_PROGRESS_BUDGET \<and>
      length (r_discard_header_block r) \<le> MAX_HEADER_BLOCK \<and>
      (\<forall>g. r_goaway_last r = Some g \<longrightarrow> g \<le> r_last_client_stream r))"

definition base_inv :: "'h conn \<Rightarrow> bool" where
  "base_inv c =
     (recv_base (c_recv c) \<and>
      (\<forall>(sid, st) \<in> set (c_streams c). stream_base (c_recv c) (c_inflight_sids c) sid st) \<and>
      (\<forall>s \<in> c_inflight_sids c. s \<le> r_last_client_stream (c_recv c)))"

text \<open>A stream between frames: its request head is complete and its body is arriving.\<close>

definition settled :: "'h stream_state \<Rightarrow> bool" where
  "settled st = (st_headers_done st \<and> st_header_block st = [] \<and> \<not> st_refused st \<and> \<not> st_end_stream st)"

definition settled_except :: "u32 set \<Rightarrow> 'h conn \<Rightarrow> bool" where
  "settled_except X c = (\<forall>(sid, st) \<in> set (c_streams c). sid \<notin> X \<longrightarrow> settled st)"

text \<open>No header block is open.\<close>

definition quiet :: "'h conn \<Rightarrow> bool" where
  "quiet c = (r_open_header_block (c_recv c) = None \<and> \<not> r_discarding_header_block (c_recv c))"

text \<open>The stream whose block is being assembled; a second block on a stream is its trailers.\<close>

definition open_stream_ok :: "'h stream_state \<Rightarrow> bool" where
  "open_stream_ok st =
     (length (st_header_block st) \<le> MAX_HEADER_BLOCK \<and>
      (st_headers_done st \<longrightarrow> st_end_stream st \<and> \<not> st_refused st))"

definition proto_inv :: "'h conn \<Rightarrow> bool" where
  "proto_inv c =
     (base_inv c \<and>
      (case r_open_header_block (c_recv c) of
         None \<Rightarrow> \<not> r_discarding_header_block (c_recv c) \<and> settled_except {} c
       | Some s \<Rightarrow>
           if r_discarding_header_block (c_recv c)
           then settled_except {} c \<and> get_stream c s = None
           else settled_except {s} c \<and> (\<exists>st. get_stream c s = Some st \<and> open_stream_ok st)))"

definition conn_inv :: "nat \<Rightarrow> 'h conn \<Rightarrow> bool" where
  "conn_inv others c = (acct_inv others c \<and> proto_inv c)"

definition good :: "nat \<Rightarrow> 'h step \<Rightarrow> bool" where
  "good others s = (acct_inv others (snd s) \<and> (fst s = Some StopReading \<or> proto_inv (snd s)))"

section \<open>Preservation by the macros\<close>

lemma proto_quietI: "base_inv c \<Longrightarrow> quiet c \<Longrightarrow> settled_except {} c \<Longrightarrow> proto_inv c"
  by (simp add: proto_inv_def quiet_def)

lemma proto_quietD: "proto_inv c \<Longrightarrow> r_open_header_block (c_recv c) = None \<Longrightarrow> base_inv c \<and> quiet c \<and> settled_except {} c"
  by (simp add: proto_inv_def quiet_def)

lemma settled_mono: "settled_except X c \<Longrightarrow> X \<subseteq> Y \<Longrightarrow> settled_except Y c"
  by (auto simp: settled_except_def)

lemma base_invD: "base_inv c \<Longrightarrow> (s, st) \<in> set (c_streams c) \<Longrightarrow> stream_base (c_recv c) (c_inflight_sids c) s st"
  by (auto simp: base_inv_def)

lemma base_stream: "base_inv c \<Longrightarrow> get_stream c sid = Some st \<Longrightarrow> stream_base (c_recv c) (c_inflight_sids c) sid st"
  by (auto simp: base_inv_def dest: stream_in_table)

lemma recv_base_core:
  assumes "recv_core r' = recv_core r" "recv_base r"
    "\<And>g. r_goaway_last r' = Some g \<Longrightarrow> g \<le> r_last_client_stream r \<or> r_goaway_last r = Some g"
  shows "recv_base r'"
  using assms(2,3) recv_core_eqD(2,5,8,9,14) [OF assms(1)] by (auto simp: recv_base_def)

lemma stream_base_core:
  assumes "recv_core r' = recv_core r" "sids' \<subseteq> sids" "stream_base r sids sid st"
  shows "stream_base r' sids' sid st"
  using assms(2,3) recv_core_eqD(2,9,11) [OF assms(1)] by (auto simp: stream_base_def)

lemma only_drops_base:
  assumes "only_drops sid c c'" "base_inv c"
  shows "base_inv c'"
proof -
  have core: "recv_core (c_recv c') = recv_core (c_recv c)" and sids: "c_inflight_sids c' \<subseteq> c_inflight_sids c"
    and str: "c_streams c' = AList.delete sid (c_streams c)"
    using assms(1) by (simp_all add: only_drops_def)
  have "recv_base (c_recv c')"
    using assms by (intro recv_base_core [OF core]) (auto simp: only_drops_def base_inv_def)
  moreover have "\<forall>(s, st) \<in> set (c_streams c'). stream_base (c_recv c') (c_inflight_sids c') s st"
    using base_invD [OF assms(2)] by (auto simp: str set_delete intro: stream_base_core [OF core sids])
  moreover have "\<forall>s \<in> c_inflight_sids c'. s \<le> r_last_client_stream (c_recv c')"
    using assms(2) sids recv_core_eqD(2) [OF core] by (auto simp: base_inv_def)
  ultimately show ?thesis by (simp add: base_inv_def)
qed

lemma only_drops_quiet: "only_drops sid c c' \<Longrightarrow> quiet c \<Longrightarrow> quiet c'"
  using recv_core_eqD(3,4) [of "c_recv c'" "c_recv c"] by (simp add: only_drops_def quiet_def)

lemma only_drops_settled: "only_drops sid c c' \<Longrightarrow> settled_except X c \<Longrightarrow> settled_except (X - {sid}) c'"
  by (auto simp: only_drops_def settled_except_def set_delete)

lemma only_drops_proto:
  assumes "only_drops sid c c'" "base_inv c" "quiet c" "settled_except {sid} c"
  shows "proto_inv c'"
  using only_drops_base [OF assms(1,2)] only_drops_quiet [OF assms(1,3)] only_drops_settled [OF assms(1,4)]
  by (auto intro: proto_quietI)

lemma good_goaway: "acct_inv others c \<Longrightarrow> good others (goaway code c)"
  by (simp add: good_def)

lemma good_rst:
  "acct_inv others c \<Longrightarrow> base_inv c \<Longrightarrow> quiet c \<Longrightarrow> settled_except {sid} c \<Longrightarrow> good others (rst now sid code c)"
  by (simp add: good_def acct_rst only_drops_proto [OF rst_only_drops])

text \<open>Changes of output, encoder and the like.\<close>

definition same_proto :: "'h conn \<Rightarrow> 'h conn \<Rightarrow> bool" where
  "same_proto c d =
     (c_streams d = c_streams c \<and> c_inflight_sids d = c_inflight_sids c \<and> c_recv d = c_recv c)"

lemma same_protoD:
  assumes "same_proto c d"
  shows "base_inv d = base_inv c" "quiet d = quiet c" "settled_except X d = settled_except X c"
    "proto_inv d = proto_inv c" "get_stream d s = get_stream c s"
proof -
  have eqs: "c_streams d = c_streams c" "c_inflight_sids d = c_inflight_sids c" "c_recv d = c_recv c"
    using assms by (simp_all add: same_proto_def)
  show b: "base_inv d = base_inv c" and "quiet d = quiet c"
    and s: "settled_except X d = settled_except X c" and g: "get_stream d s = get_stream c s" for X s
    by (simp_all add: base_inv_def quiet_def settled_except_def get_stream_def eqs)
  show "proto_inv d = proto_inv c" unfolding proto_inv_def b s g eqs ..
qed

lemma same_proto_out [simp]: "same_proto c (out_frames f c)"
  by (simp add: same_proto_def)

lemma same_proto_encode: "encode_fields hs c = (block, c') \<Longrightarrow> same_proto c (out_frames f c')"
  by (simp add: same_proto_def encode_fields_simps)

lemma good_reject_too_large:
  assumes "acct_inv others c" "base_inv c" "quiet c" "settled_except {sid} c"
  shows "good others (reject_too_large now sid status client_open c)"
proof -
  obtain block c1 where e: "encode_fields [(str_bytes '':status'', status),
      (str_bytes ''content-length'', str_bytes ''0'')] c = (block, c1)" by (metis surj_pair)
  let ?c2 = "out_frames (\<lambda>b. write_frame b kind_HEADERS (flag_END_HEADERS OR flag_END_STREAM) sid block) c1"
  note sp = same_protoD [OF same_proto_encode [OF e]]
  have a: "acct_inv others ?c2" using acct_encode [OF e assms(1)] by simp
  show ?thesis
  proof (cases client_open)
    case True
    then show ?thesis using e a assms good_rst [of others ?c2 sid now err_NO_ERROR] sp
      by (simp add: reject_too_large_def)
  next
    case False
    have "proto_inv (drop_receiving sid ?c2)"
      using only_drops_proto [OF drop_receiving_only_drops] assms sp by blast
    then show ?thesis using False e a by (simp add: reject_too_large_def good_def acct_drop_receiving)
  qed
qed

lemma good_reject_early:
  assumes "acct_inv others c" "base_inv c" "quiet c" "settled_except {sid} c"
    "reject_early lib now sid c = (Some out, c')"
  shows "good others (Some out, c')"
proof -
  obtain st status headers where st: "get_stream c sid = Some st" "\<not> st_end_stream st"
      "early_reject_response lib st = Some (status, headers)"
    using assms(5) by (auto simp: reject_early_def split: option.splits if_splits)
  define hs where "hs = (str_bytes '':status'', status) #
      hm_fields lib (hm_remove lib (str_bytes ''content-length'') (strip_hop_by_hop_response lib headers))
      @ [(str_bytes ''content-length'', str_bytes ''0'')]"
  obtain block c1 where e: "encode_fields hs c = (block, c1)" by (metis surj_pair)
  define f where "f = (\<lambda>b. write_field_block b sid flag_END_STREAM block (unat (p_max_frame_size (c_peer c1))))"
  have r: "reject_early lib now sid c = rst now sid err_NO_ERROR (out_frames f c1)"
    using st e by (simp add: reject_early_def hs_def f_def)
  note sp = same_protoD [OF same_proto_encode [OF e]]
  have "good others (rst now sid err_NO_ERROR (out_frames f c1))"
    using assms(1-4) acct_encode [OF e] sp by (intro good_rst) simp_all
  then show ?thesis using r assms(5) by simp
qed

text \<open>Replacing a stream.\<close>

lemma base_put:
  assumes "base_inv c" "stream_base (c_recv c) (c_inflight_sids c) sid st"
  shows "base_inv (put_stream sid st c)"
  using assms(1) base_invD [OF assms(1)] assms(2)
  by (auto simp: base_inv_def dest!: set_update_cases)

lemma settled_put: "settled_except X c \<Longrightarrow> sid \<in> X \<or> settled st \<Longrightarrow> settled_except X (put_stream sid st c)"
  by (auto simp: settled_except_def dest!: set_update_cases)

lemma set_update_distinct:
  "distinct (map fst al) \<Longrightarrow> (k, x) \<in> set (AList.update k w al) \<Longrightarrow> x = w"
  using distinct_update [of al k w] map_of_is_SomeI [of "AList.update k w al" k x] by (simp add: update_conv)

lemma settled_put_new:
  assumes "acct_inv others c" "settled_except {sid} c" "settled st"
  shows "settled_except {} (put_stream sid st c)"
proof -
  have d: "distinct (map fst (c_streams c))" using assms(1) by (simp add: acct_inv_def)
  have "settled x" if "(s, x) \<in> set (AList.update sid st (c_streams c))" for s x
  proof (cases "s = sid")
    case True
    then have "x = st" using set_update_distinct [OF d] that by blast
    then show ?thesis using assms(3) by simp
  next
    case False
    then have "(s, x) \<in> set (c_streams c)" using that by (auto dest: set_update_cases)
    then show ?thesis using False assms(2) by (auto simp: settled_except_def)
  qed
  then show ?thesis by (auto simp: settled_except_def)
qed

lemma base_map_recv:
  assumes "base_inv c" "recv_base (f (c_recv c))"
    "r_last_client_stream (f (c_recv c)) = r_last_client_stream (c_recv c)"
    "r_max_request_body (f (c_recv c)) = r_max_request_body (c_recv c)"
    "r_our_initial_window (f (c_recv c)) = r_our_initial_window (c_recv c)"
  shows "base_inv (map_recv f c)"
  using assms by (auto simp: base_inv_def stream_base_def)

lemma base_recv: "base_inv c \<Longrightarrow> recv_base (c_recv c)"
  by (simp add: base_inv_def)

lemma settled_map_recv [simp]: "settled_except X (map_recv f c) = settled_except X c"
  by (simp add: settled_except_def)

lemma release_more_simps [simp]:
  "r_conn_recv_window (release_stream st r) = r_conn_recv_window r"
  "r_our_initial_window (release_stream st r) = r_our_initial_window r"
  "r_no_progress_frames (release_stream st r) = r_no_progress_frames r"
  "r_discard_header_block (release_stream st r) = r_discard_header_block r"
  "r_goaway_last (release_stream st r) = r_goaway_last r"
  "r_max_request_body (release_stream st r) = r_max_request_body r"
  by (simp_all add: release_stream_def)

section \<open>Dispatching a request\<close>

lemma base_complete_dispatch:
  assumes "base_inv c" "acct_inv others c" "get_stream c sid = Some st"
    and d: "c_streams d = AList.delete sid (c_streams c)" "c_inflight_sids d = insert sid (c_inflight_sids c)"
      "recv_core (c_recv d) = recv_core ((c_recv c)\<lparr>r_no_progress_frames := 0, r_header_count_hint := hint\<rparr>)"
      "r_goaway_last (c_recv d) = r_goaway_last (c_recv c)"
  shows "base_inv d"
proof -
  let ?r = "(c_recv c)\<lparr>r_no_progress_frames := 0, r_header_count_hint := hint\<rparr>"
  have st: "stream_base (c_recv c) (c_inflight_sids c) sid st" using base_stream [OF assms(1,3)] .
  have "recv_base ?r" using base_recv [OF assms(1)] by (simp add: recv_base_def)
  then have "recv_base (c_recv d)" by (rule recv_base_core [OF d(3)]) (simp add: d(4))
  moreover have "stream_base (c_recv d) (c_inflight_sids d) s x" if "(s, x) \<in> set (c_streams d)" for s x
  proof -
    have "(s, x) \<in> set (c_streams c)" "s \<noteq> sid" using that by (auto simp: d(1) set_delete)
    then have "stream_base ?r (insert sid (c_inflight_sids c)) s x"
      using base_invD [OF assms(1)] by (auto simp: stream_base_def)
    then show ?thesis using stream_base_core [OF d(3) order_refl] d(2) by simp
  qed
  moreover have "\<forall>s \<in> c_inflight_sids d. s \<le> r_last_client_stream (c_recv d)"
    using assms(1) st recv_core_eqD(2) [OF d(3)] by (auto simp: d(2) base_inv_def stream_base_def)
  ultimately show ?thesis by (auto simp: base_inv_def)
qed

lemma good_complete:
  assumes inv: "acct_inv others c" "base_inv c" "quiet c" "settled_except {sid} c"
    and st: "get_stream c sid = Some st"
  shows "good others (complete lib now sid c)"
proof -
  let ?c0 = "map_recv (\<lambda>r. r\<lparr>r_no_progress_frames := 0\<rparr>) c"
  let ?c1 = "map_recv (release_stream st) (map_recv (\<lambda>r. r\<lparr>r_no_progress_frames := 0\<rparr>) (remove_stream sid c))"
  have b0: "base_inv ?c0" using inv(2) base_recv [OF inv(2)] by (intro base_map_recv) (simp_all add: recv_base_def)
  have dr: "only_drops sid ?c0 (drop_state st ?c1)" "only_drops sid ?c0 ?c1"
    by (simp_all add: only_drops_def goaway_release)
  have s1: "settled_except X (drop_state st ?c1)" "settled_except X ?c1" for X
    using inv(4) by (auto simp: settled_except_def set_delete)
  show ?thesis
  proof (cases "case st_content_length st of None \<Rightarrow> False | Some cl \<Rightarrow> cl \<noteq> length (st_body st)")
    case True
    have "acct_inv others (drop_state st ?c1)"
    proof -
      have "?c1 = map_recv (release_stream st) (remove_stream sid ?c0)"
        by (simp add: map_recv_def remove_stream_def)
      moreover have "acct_inv others ?c0" using inv(1) by (simp add: acct_map_recv)
      ultimately show ?thesis using acct_remove(1) [of others ?c0 sid st] st by simp
    qed
    then have "good others (rst now sid err_PROTOCOL_ERROR (drop_state st ?c1))"
      using only_drops_base [OF dr(1) b0] only_drops_quiet [OF dr(1)] inv(3) s1
      by (intro good_rst) (simp_all add: quiet_def)
    then show ?thesis using True st by (simp add: complete_def Let_def)
  next
    case False
    define hint where "hint = min (hm_len lib (st_headers st) + (if st_authority st = None then 0 else 1))
                              HEADER_COUNT_HINT_MAX"
    let ?c2 = "map_recv (\<lambda>r. r\<lparr>r_header_count_hint := hint\<rparr>) ?c1"
    obtain rq bo where br: "build_request lib st (c_body_budget ?c2) = (rq, bo)" by (metis surj_pair)
    have acct: "acct_inv others (snd (complete lib now sid c))" by (rule acct_complete [OF inv(1)])
    show ?thesis
    proof (cases rq)
      case None
      let ?d = "?c2\<lparr>c_body_budget := bo\<rparr>"
      have eq: "complete lib now sid c = rst now sid err_PROTOCOL_ERROR ?d"
        using st False br None by (simp add: complete_def Let_def hint_def)
      have "base_inv ?c2"
        using base_recv [OF only_drops_base [OF dr(2) b0]]
        by - (rule base_map_recv [OF only_drops_base [OF dr(2) b0]], simp_all add: recv_base_def)
      then have "base_inv ?d" by (simp add: base_inv_def)
      moreover have "quiet ?d" using inv(3) by (simp add: quiet_def)
      moreover have "settled_except {sid} ?d" using s1(2) [of "{sid}"] by (simp add: settled_except_def)
      ultimately have "proto_inv (snd (rst now sid err_PROTOCOL_ERROR ?d))"
        using only_drops_proto [OF rst_only_drops] by blast
      then show ?thesis using acct eq by (simp add: good_def)
    next
      case (Some q)
      let ?d = "?c2\<lparr>c_body_budget := bo,
          c_inflight := c_inflight ?c2 @ [(sid, st_method st = Some (str_bytes ''HEAD''), q)],
          c_inflight_sids := insert sid (c_inflight_sids ?c2)\<rparr>"
      have eq: "complete lib now sid c = (None, ?d)"
        using st False br Some by (simp add: complete_def Let_def hint_def)
      have "base_inv ?d"
        by (rule base_complete_dispatch [OF inv(2,1) st, where hint = hint])
          (simp_all add: recv_core_def release_stream_def)
      moreover have "quiet ?d" using inv(3) by (simp add: quiet_def)
      moreover have "settled_except {} ?d" using s1(2) [of "{}"] by (simp add: settled_except_def)
      ultimately have "proto_inv ?d" by (intro proto_quietI)
      then show ?thesis using acct eq by (simp add: good_def)
    qed
  qed
qed

section \<open>Header blocks\<close>

text \<open>What admission changes.\<close>

lemma admit_result:
  assumes "admit_pending_headers st charge c = (ok, st', c')"
  shows "st_headers_done st' = st_headers_done st" "st_header_block st' = st_header_block st"
    "st_refused st' = st_refused st" "st_end_stream st' = st_end_stream st" "st_body st' = st_body st"
    "st_recv_window st' = st_recv_window st" "st_content_length st' = st_content_length st"
    "c_streams c' = c_streams c" "c_inflight_sids c' = c_inflight_sids c" "c_dec c' = c_dec c"
    "c_inflight c' = c_inflight c"
    "recv_core (c_recv c') = recv_core (c_recv c)" "r_goaway_last (c_recv c') = r_goaway_last (c_recv c)"
    "st_headers st' = st_headers st" "st_method st' = st_method st" "st_path st' = st_path st"
    "st_authority st' = st_authority st"
  using assms
  by (auto simp: admit_pending_headers_def Let_def recv_core_def
      split: if_splits option.splits prod.splits bool.splits)

lemma same_coreD:
  assumes "c_streams d = c_streams c" "c_inflight_sids d = c_inflight_sids c"
    "recv_core (c_recv d) = recv_core (c_recv c)" "r_goaway_last (c_recv d) = r_goaway_last (c_recv c)"
  shows "base_inv d = base_inv c" "quiet d = quiet c" "settled_except X d = settled_except X c"
proof -
  note e = recv_core_eqD [OF assms(3)]
  have "recv_base (c_recv d) = recv_base (c_recv c)" using e assms(4) by (simp add: recv_base_def)
  then show "base_inv d = base_inv c" using e assms(1,2) by (simp add: base_inv_def stream_base_def)
  show "quiet d = quiet c" using e by (simp add: quiet_def)
  show "settled_except X d = settled_except X c" using assms(1) by (simp add: settled_except_def)
qed

lemma good_header_block_decoded:
  assumes inv: "acct_inv others c" "base_inv c" "quiet c" "settled_except {sid} c"
    and st: "get_stream c sid = Some st" "block_stream st"
    and ok: "dcd = DecOk \<Longrightarrow> st_headers_done st \<and> st_header_block st = []"
  shows "good others (header_block_decoded lib now sid dcd c)"
proof -
  have acct: "acct_inv others (snd (header_block_decoded lib now sid dcd c))"
    by (rule acct_header_block_decoded [OF inv(1) st])
  have sb: "stream_base (c_recv c) (c_inflight_sids c) sid st" by (rule base_stream [OF inv(2) st(1)])
  show ?thesis using st(1)
  proof (cases rule: header_block_decodedE [where lib = lib and now = now and dcd = dcd])
    case refused
    let ?d = "drop_state st (remove_stream sid c)"
    have d: "only_drops sid c ?d" by (simp add: only_drops_def)
    have "settled_except {sid} ?d" using settled_mono [OF only_drops_settled [OF d inv(4)]] by blast
    then have "proto_inv (snd (rst now sid err_REFUSED_STREAM ?d))"
      using only_drops_base [OF d inv(2)] only_drops_quiet [OF d inv(3)]
      by (intro only_drops_proto [OF rst_only_drops])
    then show ?thesis using acct refused by (simp add: good_def)
  next
    case body_too_large
    then show ?thesis using good_reject_too_large [OF inv] by simp
  next
    case (early out c')
    then show ?thesis using good_reject_early [OF inv early(4)] by simp
  next
    case (no_memory st' c')
    note r = admit_result [OF no_memory(4)]
    have b: "base_inv c'" "quiet c'" "settled_except {sid} c'"
      using same_coreD [OF r(8,9,12,13)] inv by simp_all
    have core: "stream_base (c_recv c') (c_inflight_sids c') sid st"
      using stream_base_core [OF r(12) order_refl sb] r(9) by simp
    have "st_headers_done st'" using ok no_memory(3) r(1) by simp
    then have "stream_base (c_recv c') (c_inflight_sids c') sid st'"
      using core r by (simp add: stream_base_def)
    then have "proto_inv (snd (rst now sid err_REFUSED_STREAM (put_stream sid st' c')))"
      using b by (intro only_drops_proto [OF rst_only_drops] base_put settled_put) (simp_all add: quiet_def)
    then show ?thesis using acct no_memory by (simp add: good_def)
  next
    case (admitted st' c')
    note r = admit_result [OF admitted(4)]
    have b: "base_inv c'" "quiet c'" "settled_except {sid} c'"
      using same_coreD [OF r(8,9,12,13)] inv by simp_all
    have core: "stream_base (c_recv c') (c_inflight_sids c') sid st"
      using stream_base_core [OF r(12) order_refl sb] r(9) by simp
    have "st_headers_done st'" using ok admitted(3) r(1) by simp
    then have sb': "stream_base (c_recv c') (c_inflight_sids c') sid st'"
      using core r by (simp add: stream_base_def)
    have "settled st'" using ok admitted(1-3) r by (simp add: settled_def)
    moreover have "acct_inv others (put_stream sid st' c')" using acct admitted by simp
    moreover have "settled_except {sid} (put_stream sid st' c')" using b(3) by (rule settled_put) simp
    ultimately have "settled_except {} (put_stream sid st' (put_stream sid st' c'))"
      using settled_put_new by blast
    then have s: "settled_except {} (put_stream sid st' c')"
      by (simp add: put_stream_def settled_except_def AList.update_Some_unfold update_same update_conv)
    let ?e = "maybe_send_100_continue lib st sid (put_stream sid st' c')"
    have "same_proto (put_stream sid st' c') ?e" by (simp add: same_proto_def)
    note sp = same_protoD [OF this]
    have "proto_inv ?e"
      unfolding sp(4) using base_put [OF b(1) sb'] b(2) s by (intro proto_quietI) (simp_all add: quiet_def)
    then show ?thesis using acct admitted by (simp add: good_def)
  next
    case ended
    then show ?thesis using good_complete [OF inv st(1)] by simp
  next
    case compression
    then show ?thesis using good_goaway [OF inv(1)] by simp
  next
    case list_too_large
    then show ?thesis using good_reject_too_large [OF inv] by simp
  next
    case malformed
    have d: "only_drops sid c (drop_receiving sid c)" by (rule drop_receiving_only_drops)
    have "settled_except {sid} (drop_receiving sid c)"
      using settled_mono [OF only_drops_settled [OF d inv(4)]] by blast
    then have "proto_inv (snd (rst now sid err_PROTOCOL_ERROR (drop_receiving sid c)))"
      using only_drops_base [OF d inv(2)] only_drops_quiet [OF d inv(3)]
      by (intro only_drops_proto [OF rst_only_drops])
    then show ?thesis using acct malformed by (simp add: good_def)
  qed
qed

lemma same_proto_dec [simp]: "same_proto c (c\<lparr>c_dec := d\<rparr>)"
  by (simp add: same_proto_def)

lemma good_discard_headers:
  assumes inv: "acct_inv others c" "base_inv c" "quiet c" "settled_except {} c"
    and gone: "\<not> drop_first \<Longrightarrow> get_stream c (fh_stream_id h) = None"
  shows "good others (discard_headers now h payload code drop_first c)"
proof (cases "headers_block (fh_flags h) payload")
  case None
  then show ?thesis using good_goaway [OF inv(1)] by (simp add: discard_headers_def)
next
  case (Some block)
  let ?sid = "fh_stream_id h"
  define c1 where "c1 = (if drop_first then drop_receiving ?sid c else c)"
  have a: "acct_inv others c1" using inv(1) by (simp add: c1_def acct_drop_receiving)
  have d: "only_drops ?sid c (drop_receiving ?sid c)" by (rule drop_receiving_only_drops)
  have b: "base_inv c1" "quiet c1" "settled_except {} c1"
    using inv only_drops_base [OF d] only_drops_quiet [OF d] only_drops_settled [OF d, of "{}"]
    by (simp_all add: c1_def)
  have g: "get_stream c1 ?sid = None"
    using gone by (simp add: c1_def get_stream_def drop_receiving_streams delete_conv)
  show ?thesis
  proof (cases "length block > MAX_HEADER_BLOCK")
    case True
    then show ?thesis using Some good_goaway [OF inv(1)] by (simp add: discard_headers_def)
  next
    case small: False
    show ?thesis
    proof (cases "flag_set (fh_flags h) flag_END_HEADERS")
      case True
      obtain k dd where dec: "decode_discard_header_block (c_dec c1) block = (k, dd)" by (metis surj_pair)
      have eq: "discard_headers now h payload code drop_first c =
          (if \<not> k then goaway err_COMPRESSION_ERROR (c1\<lparr>c_dec := dd\<rparr>) else rst now ?sid code (c1\<lparr>c_dec := dd\<rparr>))"
        using Some small True dec by (simp add: discard_headers_def c1_def [symmetric] Let_def)
      note sp = same_protoD [OF same_proto_dec [of c1 dd]]
      have "good others (rst now ?sid code (c1\<lparr>c_dec := dd\<rparr>))"
        using a b sp settled_mono [of "{}" c1 "{?sid}"] by (intro good_rst) simp_all
      then show ?thesis using eq a by (simp add: good_goaway)
    next
      case False
      let ?f = "\<lambda>r. r\<lparr>r_discard_header_block := block, r_discarding_header_block := True,
                                   r_discard_rst_code := code, r_open_header_block := Some ?sid\<rparr>"
      have eq: "discard_headers now h payload code drop_first c = (Some Continue, map_recv ?f c1)"
        using Some small False by (simp add: discard_headers_def c1_def [symmetric] Let_def)
      have "base_inv (map_recv ?f c1)"
        using base_recv [OF b(1)] small by - (rule base_map_recv [OF b(1)], simp_all add: recv_base_def)
      then have "proto_inv (map_recv ?f c1)" using b(3) g by (simp add: proto_inv_def)
      then show ?thesis using eq a by (simp add: good_def acct_map_recv)
    qed
  qed
qed

text \<open>The stream a HEADERS frame works on.\<close>

lemma good_open_headers:
  assumes inv: "acct_inv others c" "base_inv c" "quiet c" "settled_except {} c"
    and sid: "odd (unat (fh_stream_id h))" "fh_stream_id h \<le> r_last_client_stream (c_recv c)"
    and new: "get_stream c (fh_stream_id h) = None \<Longrightarrow> fh_stream_id h \<notin> c_inflight_sids c"
    and opens: "opens = (get_stream c (fh_stream_id h) = None)"
    and trailers: "get_stream c (fh_stream_id h) \<noteq> None \<Longrightarrow> flag_set (fh_flags h) flag_END_STREAM"
  shows "good others (open_headers lib now n acc opens h payload c)"
proof (cases "headers_block (fh_flags h) payload")
  case None
  then show ?thesis using good_goaway [OF inv(1)] by (simp add: open_headers_def)
next
  case (Some block)
  let ?sid = "fh_stream_id h"
  define refuse where "refuse = (opens \<and> (\<not> acc \<or>
             length (c_streams c) + length (c_inflight c) + n \<ge> r_max_concurrent (c_recv c)))"
  define st0 where "st0 = (case get_stream c ?sid of Some st \<Rightarrow> st
      | None \<Rightarrow> stream_new (hm_new lib) (r_our_initial_window (c_recv c)))"
  define st1 where "st1 = (if refuse then st0\<lparr>st_refused := True\<rparr> else st0)"
  define st2 where "st2 = (if flag_set (fh_flags h) flag_END_STREAM then st1\<lparr>st_end_stream := True\<rparr> else st1)"
  define c1 where "c1 = put_stream ?sid st1 c"
  have win: "0 \<le> r_our_initial_window (c_recv c)" using base_recv [OF inv(2)] by (simp add: recv_base_def)
  have old: "settled st \<and> stream_base (c_recv c) (c_inflight_sids c) ?sid st" if "get_stream c ?sid = Some st" for st
    using that inv(4) base_stream [OF inv(2) that] stream_in_table [OF that]
    by (auto simp: settled_except_def)
  have p0: "st_header_block st0 = [] \<and> stream_base (c_recv c) (c_inflight_sids c) ?sid st0 \<and>
      (st_headers_done st0 \<longleftrightarrow> \<not> opens) \<and> \<not> st_refused st0"
  proof (cases "get_stream c ?sid")
    case None
    then show ?thesis using new sid win opens by (simp add: st0_def stream_new_def stream_base_def)
  next
    case (Some st)
    then show ?thesis using old [OF Some] opens by (simp add: st0_def settled_def)
  qed
  have hb: "st_header_block st2 = []" "st_header_block st1 = []"
    using p0 by (simp_all add: st2_def st1_def)
  have sb: "stream_base (c_recv c) (c_inflight_sids c) ?sid st1" "stream_base (c_recv c) (c_inflight_sids c) ?sid st2"
    using p0 by (simp_all add: st2_def st1_def stream_base_def)
  have fresh: "st_headers_done st2 \<Longrightarrow> st_end_stream st2 \<and> \<not> st_refused st2"
    using p0 trailers opens by (auto simp: st2_def st1_def refuse_def split: if_splits)
  have bs: "block_stream st2"
    using sb(2) fresh by (auto simp: block_stream_def stream_base_def)
  have a1: "acct_inv others c1"
  proof (cases "get_stream c ?sid")
    case None
    then show ?thesis unfolding c1_def
      by (intro acct_inv_put_new [OF inv(1)]) (simp_all add: st1_def st0_def stream_new_def)
  next
    case (Some st)
    then show ?thesis unfolding c1_def
      by (intro acct_inv_put_same [OF inv(1) Some]) (simp_all add: st1_def st0_def)
  qed
  have g1: "get_stream c1 ?sid = Some st1" by (simp add: c1_def)
  have b1: "base_inv c1" "quiet c1" "settled_except {?sid} c1"
    using base_put [OF inv(2) sb(1)] inv(3) settled_put [OF settled_mono [OF inv(4)]]
    by (simp_all add: c1_def quiet_def)
  have unf: "open_headers lib now n acc opens h payload c =
      (if length block > MAX_HEADER_BLOCK then goaway err_COMPRESSION_ERROR c1
       else if flag_set (fh_flags h) flag_END_HEADERS then
         (case decode_block_from lib (c_dec c1) st2 block of (dcd, d, st3) \<Rightarrow>
            header_block_decoded lib now ?sid dcd
              (put_stream ?sid st3 ((map_recv (\<lambda>r. r\<lparr>r_open_header_block := None\<rparr>) c1)\<lparr>c_dec := d\<rparr>)))
       else (None, map_recv (\<lambda>r. r\<lparr>r_open_header_block := Some ?sid\<rparr>)
                (put_stream ?sid (st2\<lparr>st_header_block := block\<rparr>) c1)))"
    unfolding open_headers_def Let_def Some option.case refuse_def [symmetric] st0_def [symmetric] st1_def [symmetric]
      c1_def [symmetric] st2_def [symmetric]
    by (simp add: hb)
  show ?thesis
  proof (cases "length block > MAX_HEADER_BLOCK")
    case True
    then have "open_headers lib now n acc opens h payload c = goaway err_COMPRESSION_ERROR c1"
      by (simp add: unf)
    then show ?thesis using good_goaway [OF a1] by simp
  next
    case small: False
    show ?thesis
    proof (cases "flag_set (fh_flags h) flag_END_HEADERS")
      case True
      let ?c2 = "map_recv (\<lambda>r. r\<lparr>r_open_header_block := None\<rparr>) c1"
      obtain dcd d st3 where dec: "decode_block_from lib (c_dec c1) st2 block = (dcd, d, st3)" by (metis prod_cases3)
      let ?c3 = "put_stream ?sid st3 (?c2\<lparr>c_dec := d\<rparr>)"
      have eq: "open_headers lib now n acc opens h payload c = header_block_decoded lib now ?sid dcd ?c3"
        using small True dec by (simp add: unf)
      note fr = decode_block_from_frame [OF dec]
      have f3: "st_body st3 = st_body st2" "st_header_charge st3 = st_header_charge st2"
          "st_end_stream st3 = st_end_stream st2" "st_refused st3 = st_refused st2"
          "st_header_block st3 = []" "st_recv_window st3 = st_recv_window st2" "st_body_lease st3 = st_body_lease st2"
        using fr(1) hb by (simp_all add: same_frame_def)
      have same1: "st_body st2 = st_body st1" "st_header_charge st2 = st_header_charge st1"
          "st_body_lease st2 = st_body_lease st1" by (simp_all add: st2_def)
      have "acct_inv others (?c2\<lparr>c_dec := d\<rparr>)" using a1 by (simp add: acct_map_recv)
      moreover have "get_stream (?c2\<lparr>c_dec := d\<rparr>) ?sid = Some st1" using g1 by (simp add: get_stream_def)
      ultimately have a3: "acct_inv others ?c3"
        by (rule acct_inv_put_same) (simp_all add: f3 same1)
      have base2: "base_inv ?c2"
        using base_recv [OF b1(1)] by - (rule base_map_recv [OF b1(1)], simp_all add: recv_base_def)
      note sp = same_protoD [OF same_proto_dec [of ?c2 d]]
      have "stream_base (c_recv (?c2\<lparr>c_dec := d\<rparr>)) (c_inflight_sids (?c2\<lparr>c_dec := d\<rparr>)) ?sid st3"
        using sb(2) f3 fr(3) by (auto simp: stream_base_def c1_def)
      then have b3: "base_inv ?c3" using base2 sp(1) by (intro base_put) simp_all
      have "settled_except {?sid} (?c2\<lparr>c_dec := d\<rparr>)" using b1(3) sp(3) [of "{?sid}"] by simp
      then have s3: "settled_except {?sid} ?c3" by (rule settled_put) simp
      have "good others (header_block_decoded lib now ?sid dcd ?c3)"
      proof (rule good_header_block_decoded [OF a3 b3 _ s3])
        show "quiet ?c3" using b1(2) by (simp add: quiet_def)
        show "get_stream ?c3 ?sid = Some st3" by simp
        show "block_stream st3" using bs f3 by (simp add: block_stream_def)
        show "dcd = DecOk \<Longrightarrow> st_headers_done st3 \<and> st_header_block st3 = []" using fr(3) f3 by simp
      qed
      then show ?thesis using eq by simp
    next
      case False
      let ?st = "st2\<lparr>st_header_block := block\<rparr>"
      let ?d = "map_recv (\<lambda>r. r\<lparr>r_open_header_block := Some ?sid\<rparr>) (put_stream ?sid ?st c1)"
      have eq: "open_headers lib now n acc opens h payload c = (None, ?d)"
        using small False by (simp add: unf)
      have "acct_inv others (put_stream ?sid ?st c1)"
        by (rule acct_inv_put_same [OF a1 g1]) (simp_all add: st2_def)
      then have ad: "acct_inv others ?d" by (simp add: acct_map_recv)
      have "base_inv (put_stream ?sid ?st c1)"
        using sb(2) by (intro base_put [OF b1(1)]) (simp add: c1_def stream_base_def)
      then have bd: "base_inv ?d"
        using base_recv [of "put_stream ?sid ?st c1"] by - (rule base_map_recv, simp_all add: recv_base_def)
      have "settled_except {?sid} (put_stream ?sid ?st c1)" using b1(3) by (rule settled_put) simp
      moreover have "open_stream_ok ?st" using small fresh by (simp add: open_stream_ok_def)
      ultimately have "proto_inv ?d" using bd b1(2) by (simp add: proto_inv_def quiet_def)
      then show ?thesis using eq ad by (simp add: good_def)
    qed
  qed
qed

lemma base_new_id:
  assumes "base_inv c" "r_last_client_stream (c_recv c) < sid"
  shows "base_inv (map_recv (\<lambda>r. r\<lparr>r_last_client_stream := sid\<rparr>) c)" "sid \<notin> c_inflight_sids c"
proof -
  have le: "x \<le> r_last_client_stream (c_recv c) \<Longrightarrow> x \<le> sid" for x using assms(2) by simp
  show "base_inv (map_recv (\<lambda>r. r\<lparr>r_last_client_stream := sid\<rparr>) c)"
    using assms(1) by (auto simp: base_inv_def recv_base_def stream_base_def intro: le)
  show "sid \<notin> c_inflight_sids c" using assms by (auto simp: base_inv_def)
qed

lemma good_headers_frame:
  assumes inv: "acct_inv others c" "base_inv c" "quiet c" "settled_except {} c"
  shows "good others (headers_frame lib now n acc h payload c)"
proof -
  let ?sid = "fh_stream_id h" and ?opens = "get_stream c (fh_stream_id h) = None"
  consider (even) "?opens" "even (unat ?sid)"
    | (closed) "?opens" "odd (unat ?sid)" "?sid \<le> r_last_client_stream (c_recv c)"
    | (live) "\<not> ?opens \<or> (odd (unat ?sid) \<and> r_last_client_stream (c_recv c) < ?sid)"
    by (meson not_le)
  then show ?thesis
  proof cases
    case even
    then show ?thesis using good_goaway [OF inv(1)] by (simp add: headers_frame_def)
  next
    case closed
    then show ?thesis
      using good_goaway [OF inv(1)] good_discard_headers [OF inv, of False h]
      by (simp add: headers_frame_def)
  next
    case live
    define c1 where "c1 = (if ?opens then map_recv (\<lambda>r. r\<lparr>r_last_client_stream := ?sid\<rparr>) c else c)"
    have a1: "acct_inv others c1" using inv(1) by (simp add: c1_def acct_map_recv)
    have g1: "get_stream c1 ?sid = get_stream c ?sid" by (simp add: c1_def)
    have b1: "base_inv c1" "quiet c1" "settled_except {} c1"
      using inv live base_new_id(1) [OF inv(2)] by (auto simp: c1_def quiet_def)
    define unt where "unt = ((case get_stream c1 ?sid of None \<Rightarrow> False | Some st \<Rightarrow> st_headers_done st)
                   \<and> \<not> flag_set (fh_flags h) flag_END_STREAM)"
    have eq: "headers_frame lib now n acc h payload c =
        (if priority_dependency (fh_flags h) payload True = Some ?sid \<or> unt
         then discard_headers now h payload err_PROTOCOL_ERROR True c1
         else open_headers lib now n acc ?opens h payload c1)"
      using live unfolding headers_frame_def Let_def c1_def [symmetric] unt_def [symmetric] by auto
    have sid: "odd (unat ?sid) \<and> ?sid \<le> r_last_client_stream (c_recv c1)"
    proof (cases ?opens)
      case True
      then show ?thesis using live by (simp add: c1_def)
    next
      case False
      then obtain st where "get_stream c1 ?sid = Some st" using g1 by auto
      then show ?thesis using base_stream [OF b1(1)] by (auto simp: stream_base_def)
    qed
    have new: "get_stream c1 ?sid = None \<Longrightarrow> ?sid \<notin> c_inflight_sids c1"
      using live base_new_id(2) [OF inv(2)] g1 by (auto simp: c1_def)
    have trailers: "flag_set (fh_flags h) flag_END_STREAM" if u: "\<not> unt" and g: "get_stream c1 ?sid \<noteq> None"
    proof -
      from g obtain st where st: "get_stream c1 ?sid = Some st" by blast
      then have "settled st" using b1(3) stream_in_table [OF st] by (auto simp: settled_except_def)
      then show ?thesis using u st by (simp add: unt_def settled_def)
    qed
    have "good others (discard_headers now h payload err_PROTOCOL_ERROR True c1)"
      by (rule good_discard_headers [OF a1 b1]) simp
    moreover have "good others (open_headers lib now n acc ?opens h payload c1)" if "\<not> unt"
      using sid g1 new trailers [OF that] by (intro good_open_headers [OF a1 b1]) simp_all
    ultimately show ?thesis using eq by simp
  qed
qed

lemma good_continuation_frame:
  assumes inv: "acct_inv others c" "proto_inv c"
    and op: "r_open_header_block (c_recv c) = Some (fh_stream_id h)"
  shows "good others (continuation_frame lib now h payload c)"
proof -
  let ?sid = "fh_stream_id h" and ?r = "c_recv c"
  have base: "base_inv c" using inv(2) by (simp add: proto_inv_def)
  note rb = base_recv [OF base, unfolded recv_base_def]
  show ?thesis
  proof (cases "r_discarding_header_block ?r")
    case disc: True
    have set: "settled_except {} c" and gone: "get_stream c ?sid = None"
      using inv(2) op disc by (simp_all add: proto_inv_def)
    show ?thesis
    proof (cases "length (r_discard_header_block ?r) + length payload > MAX_HEADER_BLOCK")
      case True
      then show ?thesis using disc good_goaway [OF inv(1)] by (simp add: continuation_frame_def)
    next
      case small: False
      let ?block = "r_discard_header_block ?r @ payload"
      show ?thesis
      proof (cases "flag_set (fh_flags h) flag_END_HEADERS")
        case True
        obtain k d where dec: "decode_discard_header_block (c_dec c) ?block = (k, d)" by (metis surj_pair)
        let ?f = "\<lambda>r. r\<lparr>r_open_header_block := None, r_discarding_header_block := False,
                                               r_discard_header_block := []\<rparr>"
        let ?g = "\<lambda>r. r\<lparr>r_discard_rst_code := err_STREAM_CLOSED\<rparr>"
        let ?c1 = "map_recv ?f (c\<lparr>c_dec := d\<rparr>)"
        have eq: "continuation_frame lib now h payload c =
            (if \<not> k then goaway err_COMPRESSION_ERROR ?c1
             else rst now ?sid (r_discard_rst_code ?r) (map_recv ?g ?c1))"
          using disc small True dec by (simp add: continuation_frame_def Let_def)
        have a1: "acct_inv others ?c1" using inv(1) by (simp add: acct_map_recv)
        have b0: "base_inv (c\<lparr>c_dec := d\<rparr>)" using base by (simp add: base_inv_def)
        have b1: "base_inv ?c1" using rb by - (rule base_map_recv [OF b0], simp_all add: recv_base_def)
        have b2: "base_inv (map_recv ?g ?c1)"
          using rb by - (rule base_map_recv [OF b1], simp_all add: recv_base_def)
        have "good others (rst now ?sid (r_discard_rst_code ?r) (map_recv ?g ?c1))"
          using a1 b2 set by (intro good_rst) (auto simp: acct_map_recv quiet_def settled_except_def)
        then show ?thesis using eq a1 by (simp add: good_goaway)
      next
        case False
        let ?f = "\<lambda>r. r\<lparr>r_discard_header_block := ?block\<rparr>"
        have eq: "continuation_frame lib now h payload c = (Some Continue, map_recv ?f c)"
          using disc small False by (simp add: continuation_frame_def Let_def)
        have "base_inv (map_recv ?f c)"
          using rb small by - (rule base_map_recv [OF base], simp_all add: recv_base_def)
        then have "proto_inv (map_recv ?f c)" using set gone op disc by (simp add: proto_inv_def)
        then show ?thesis using eq inv(1) by (simp add: good_def acct_map_recv)
      qed
    qed
  next
    case live: False
    obtain st where st: "get_stream c ?sid = Some st" "open_stream_ok st" and set: "settled_except {?sid} c"
      using inv(2) op live by (auto simp: proto_inv_def)
    have sb: "stream_base ?r (c_inflight_sids c) ?sid st" by (rule base_stream [OF base st(1)])
    have trail: "st_headers_done st \<Longrightarrow> st_end_stream st \<and> \<not> st_refused st" using st(2) by (simp add: open_stream_ok_def)
    show ?thesis
    proof (cases "length (st_header_block st) + length payload > MAX_HEADER_BLOCK")
      case True
      then show ?thesis using live st good_goaway [OF inv(1)] by (simp add: continuation_frame_def)
    next
      case small: False
      define st1 where "st1 = st\<lparr>st_header_block := st_header_block st @ payload\<rparr>"
      show ?thesis
      proof (cases "flag_set (fh_flags h) flag_END_HEADERS")
        case True
        obtain dcd d st2 where dec: "decode_block lib (c_dec c) st1 = (dcd, d, st2)" by (metis prod_cases3)
        let ?c1 = "map_recv (\<lambda>r. r\<lparr>r_open_header_block := None\<rparr>) (c\<lparr>c_dec := d\<rparr>)"
        have eq: "continuation_frame lib now h payload c = header_block_decoded lib now ?sid dcd (put_stream ?sid st2 ?c1)"
          using live st small True dec by (simp add: continuation_frame_def Let_def st1_def)
        note fr = decode_block_from_frame [OF dec [unfolded decode_block_def]]
        have f2: "st_body st2 = st_body st" "st_header_charge st2 = st_header_charge st"
            "st_end_stream st2 = st_end_stream st" "st_refused st2 = st_refused st" "st_header_block st2 = []"
            "st_recv_window st2 = st_recv_window st" "st_body_lease st2 = st_body_lease st"
            "st_headers_done st2 = (st_headers_done st \<or> dcd = DecOk)"
          using fr by (simp_all add: same_frame_def st1_def)
        have a1: "acct_inv others ?c1" using inv(1) by (simp add: acct_map_recv)
        have g1: "get_stream ?c1 ?sid = Some st" using st(1) by (simp add: get_stream_def)
        have b0: "base_inv (c\<lparr>c_dec := d\<rparr>)" using base by (simp add: base_inv_def)
        have b1: "base_inv ?c1" using rb by - (rule base_map_recv [OF b0], simp_all add: recv_base_def)
        have "good others (header_block_decoded lib now ?sid dcd (put_stream ?sid st2 ?c1))"
        proof (rule good_header_block_decoded)
          show "acct_inv others (put_stream ?sid st2 ?c1)"
            by (rule acct_inv_put_same [OF a1 g1]) (simp_all add: f2)
          show "base_inv (put_stream ?sid st2 ?c1)"
            using sb f2 by (intro base_put [OF b1]) (auto simp: stream_base_def)
          show "quiet (put_stream ?sid st2 ?c1)" using live by (simp add: quiet_def)
          have "settled_except {?sid} ?c1" using set by (simp add: settled_except_def)
          then show "settled_except {?sid} (put_stream ?sid st2 ?c1)" by (rule settled_put) simp
          show "get_stream (put_stream ?sid st2 ?c1) ?sid = Some st2" by simp
          show "block_stream st2" using sb f2 trail by (auto simp: block_stream_def stream_base_def)
          show "dcd = DecOk \<Longrightarrow> st_headers_done st2 \<and> st_header_block st2 = []" using f2 by simp
        qed
        then show ?thesis using eq by simp
      next
        case False
        have eq: "continuation_frame lib now h payload c = (None, put_stream ?sid st1 c)"
          using live st small False by (simp add: continuation_frame_def Let_def st1_def)
        have "acct_inv others (put_stream ?sid st1 c)"
          by (rule acct_inv_put_same [OF inv(1) st(1)]) (simp_all add: st1_def)
        moreover have "base_inv (put_stream ?sid st1 c)"
          using sb by (intro base_put [OF base]) (simp add: st1_def stream_base_def)
        moreover have "settled_except {?sid} (put_stream ?sid st1 c)" using set by (rule settled_put) simp
        moreover have "open_stream_ok st1" using st(2) small by (simp add: st1_def open_stream_ok_def)
        ultimately show ?thesis using eq op live by (simp add: good_def proto_inv_def)
      qed
    qed
  qed
qed

section \<open>DATA\<close>

lemma reserve_body_frame:
  assumes "reserve_body n st c = (ok, st1, c1)"
  shows "st1 = st\<lparr>st_body_lease := st_body_lease st1\<rparr>" "c_streams c1 = c_streams c"
    "c_inflight c1 = c_inflight c" "c_inflight_sids c1 = c_inflight_sids c" "c_recv c1 = c_recv c"
    "c_dec c1 = c_dec c"
  using assms by (auto simp: reserve_body_def Let_def split: option.splits prod.splits)

lemma acct_reserve_body:
  assumes inv: "acct_inv others c" and st: "get_stream c sid = Some st"
    and res: "reserve_body n st c = (ok, st1, c1)"
    and d: "c_streams d = c_streams c1" "c_inflight d = c_inflight c1" "c_body_budget d = c_body_budget c1"
      "c_recv d = (c_recv c1)\<lparr>r_total_buffered := r_total_buffered (c_recv c) + (if ok then n else 0)\<rparr>"
    and fits: "ok \<Longrightarrow> r_total_buffered (c_recv c) + n \<le> r_per_conn_request_body (c_recv c)"
    and st': "st_body_lease st' = st_body_lease st1" "st_header_charge st' = st_header_charge st"
      "length (st_body st') = length (st_body st) + (if ok then n else 0)"
  shows "acct_inv others (put_stream sid st' d)"
proof -
  note fr = reserve_body_frame [OF res]
  have lim: "limits_ok (c_recv c)" "r_total_buffered (c_recv c) \<le> r_per_conn_request_body (c_recv c)"
    "r_pending_header_bytes (c_recv c) \<le> max (r_pending_header_mem (c_recv c)) (2 ^ 32 - 1)"
    and exact: "lease_exact (c_body_budget c) st"
    using inv stream_in_table [OF st] by (auto simp: acct_inv_def)
  have recv: "r_total_buffered (c_recv d) + length (st_body st) = r_total_buffered (c_recv c) + length (st_body st')"
    "r_pending_header_bytes (c_recv d) + st_header_charge st = r_pending_header_bytes (c_recv c) + st_header_charge st'"
    "r_total_buffered (c_recv d) \<le> r_per_conn_request_body (c_recv d)"
    "r_pending_header_bytes (c_recv d) \<le> max (r_pending_header_mem (c_recv d)) (2 ^ 32 - 1)"
    "limits_ok (c_recv d)"
    using lim fits d(4) st' fr(5) by (auto simp: limits_ok_def)
  show ?thesis
  proof (cases "c_body_budget c")
    case None
    then have "ok" "st1 = st" "c1 = c" using res by (simp_all add: reserve_body_def)
    then show ?thesis
      using None exact recv d st' by (intro acct_change [OF inv st]) (simp_all add: lease_exact_def)
  next
    case (Some b)
    define held where "held = lease_of (st_body_lease st)"
    obtain k b' held' where lr: "lease_reserve b held n = (k, b', held')" by (metis prod_cases3)
    have lease: "(case st_body_lease st of Some h \<Rightarrow> h | None \<Rightarrow> lease_new) = held"
      by (simp add: held_def lease_of_def lease_new_def split: option.splits)
    have eqs: "ok = k" "st_body_lease st1 = Some held'" "c_body_budget c1 = Some b'"
      using res Some lr lease by (auto simp: reserve_body_def)
    have led: "ledger_ok b' (t + held')" if "ledger_ok b (t + held)" for t
      using lease_reserve_ledger [OF that lr] by blast
    have held': "held' = (if k then held + n else held)"
      using lr by (auto simp: lease_reserve_def split: bool.splits prod.splits)
    have "lease_exact (Some b') st'"
      using exact Some eqs st' held' by (auto simp: lease_exact_def held_def)
    then show ?thesis
      using Some recv d fr eqs st' led held_def
      by (intro acct_change [OF inv st]) simp_all
  qed
qed

lemma good_buffer_data:
  assumes inv: "acct_inv others c" "base_inv c" "quiet c" "settled_except {} c"
    and st: "get_stream c (fh_stream_id h) = Some st"
    and len: "length (st_body st) + length data \<le> r_max_request_body (c_recv c)"
    and fits: "usize_sat_add (r_total_buffered (c_recv c)) (length data) \<le> r_per_conn_request_body (c_recv c)"
  shows "good others (buffer_data lib now h data st c)"
proof -
  let ?sid = "fh_stream_id h"
  define c0 where "c0 = (if data = [] then c else map_recv (\<lambda>r. r\<lparr>r_no_progress_frames := 0\<rparr>) c)"
  have a0: "acct_inv others c0" using inv(1) by (simp add: c0_def acct_map_recv)
  have b0: "base_inv c0" using inv(2) base_recv [OF inv(2)]
    by (auto simp: c0_def recv_base_def intro!: base_map_recv)
  have q0: "quiet c0" "settled_except {} c0" using inv by (simp_all add: c0_def quiet_def settled_except_def)
  have g0: "get_stream c0 ?sid = Some st" using st by (simp add: c0_def)
  have sb: "stream_base (c_recv c0) (c_inflight_sids c0) ?sid st" by (rule base_stream [OF b0 g0])
  have set: "settled st" using q0(2) stream_in_table [OF g0] by (auto simp: settled_except_def)
  have lens: "length (st_body st) + length data \<le> r_max_request_body (c_recv c0)"
    using len by (simp add: c0_def)
  have "limits_ok (c_recv c)" using inv(1) by (simp add: acct_inv_def)
  then have "usize_sat_add (r_total_buffered (c_recv c)) (length data) = r_total_buffered (c_recv c) + length data"
    using fits by (intro sat_add_within) (auto simp: limits_ok_def)
  moreover have "r_total_buffered (c_recv c0) = r_total_buffered (c_recv c)"
    "r_per_conn_request_body (c_recv c0) = r_per_conn_request_body (c_recv c)" by (simp_all add: c0_def)
  ultimately have
    sat: "usize_sat_add (r_total_buffered (c_recv c0)) (length data) = r_total_buffered (c_recv c0) + length data"
    and fit0: "r_total_buffered (c_recv c0) + length data \<le> r_per_conn_request_body (c_recv c0)"
    using fits by simp_all
  obtain ok st1 c1 where res: "reserve_body (length data) st c0 = (ok, st1, c1)" by (metis prod_cases3)
  note fr = reserve_body_frame [OF res]
  have s1: "st_body st1 = st_body st" "st_header_charge st1 = st_header_charge st"
    "st_recv_window st1 = st_recv_window st" "st_headers_done st1 = st_headers_done st"
    "st_header_block st1 = st_header_block st" "st_refused st1 = st_refused st" "st_end_stream st1 = st_end_stream st"
    by (subst fr(1), simp)+
  have same1: "same_proto c0 (c1)" using fr by (simp add: same_proto_def)
  have b1: "base_inv c1" "quiet c1" "settled_except {} c1"
    using b0 q0 same_protoD [OF same1] by simp_all
  show ?thesis
  proof (cases ok)
    case False
    have "acct_inv others (put_stream ?sid st1 c1)"
      by (rule acct_reserve_body [OF a0 g0 res]) (use False fr s1 in simp_all)
    moreover have "base_inv (put_stream ?sid st1 c1)"
      using sb fr s1 by (intro base_put [OF b1(1)]) (simp add: stream_base_def)
    moreover have "settled_except {?sid} (put_stream ?sid st1 c1)"
      using b1(3) by (intro settled_put) (auto simp: settled_except_def)
    ultimately have "good others (rst now ?sid err_REFUSED_STREAM (put_stream ?sid st1 c1))"
      using b1(2) by (intro good_rst) (simp_all add: quiet_def)
    then show ?thesis using False res unfolding buffer_data_def Let_def c0_def [symmetric] by simp
  next
    case True
    define c2 where "c2 = map_recv (\<lambda>r. r\<lparr>r_total_buffered := usize_sat_add (r_total_buffered r) (length data)\<rparr>) c1"
    define st2 where "st2 = st1\<lparr>st_body := st_body st1 @ data\<rparr>"
    define iw where "iw = r_our_initial_window (c_recv c2)"
    define grant where "grant = (\<not> flag_set (fh_flags h) flag_END_STREAM \<and> st_recv_window st2 \<le> iw div 2)"
    define st3 where "st3 = (if grant then st2\<lparr>st_recv_window := iw\<rparr> else st2)"
    define c3 where "c3 = (if grant then out_frames (\<lambda>b. write_window_update b ?sid
                                 (word_of_int (iw - st_recv_window st2))) c2 else c2)"
    have eq: "buffer_data lib now h data st c =
        (if flag_set (fh_flags h) flag_END_STREAM \<and> st_headers_done st3
         then complete lib now ?sid (put_stream ?sid st3 c3) else (None, put_stream ?sid st3 c3))"
      using True unfolding buffer_data_def Let_def c0_def [symmetric] res prod.case c2_def [symmetric]
        st2_def [symmetric] iw_def [symmetric] grant_def [symmetric] st3_def [symmetric] c3_def [symmetric]
      by simp
    have s3: "st_body_lease st3 = st_body_lease st1" "st_header_charge st3 = st_header_charge st"
        "st_body st3 = st_body st @ data" "st_headers_done st3" "settled st3"
        "st_recv_window st3 = (if grant then iw else st_recv_window st)"
      using s1 set by (simp_all add: st3_def st2_def settled_def)
    have c3: "c_streams c3 = c_streams c1" "c_inflight c3 = c_inflight c1" "c_body_budget c3 = c_body_budget c1"
        "c_inflight_sids c3 = c_inflight_sids c1"
        "c_recv c3 = (c_recv c1)\<lparr>r_total_buffered := r_total_buffered (c_recv c0) + length data\<rparr>"
      using sat fr(5) by (simp_all add: c3_def c2_def)
    have "base_inv c2" using base_recv [OF b1(1)]
      by (auto simp: c2_def recv_base_def intro!: base_map_recv [OF b1(1)])
    then have b3: "base_inv c3" by (simp add: c3_def same_protoD(1) [OF same_proto_out])
    have a: "acct_inv others (put_stream ?sid st3 c3)"
      by (rule acct_reserve_body [OF a0 g0 res]) (use True c3 s3 fit0 in simp_all)
    have "iw = r_our_initial_window (c_recv c0)" "0 \<le> iw"
      using fr(5) base_recv [OF b0] by (simp_all add: iw_def c2_def recv_base_def)
    then have b: "base_inv (put_stream ?sid st3 c3)"
      using sb c3 s3 fr(4,5) lens by (intro base_put [OF b3]) (simp add: stream_base_def)
    have q: "quiet (put_stream ?sid st3 c3)" using b1(2) c3(5) by (simp add: quiet_def)
    have s: "settled_except {} (put_stream ?sid st3 c3)"
      using b1(3) c3(1) s3(5) by (intro settled_put) (simp_all add: settled_except_def)
    have "good others (complete lib now ?sid (put_stream ?sid st3 c3))"
      using settled_mono [OF s] by (intro good_complete [OF a b q]) simp_all
    then show ?thesis using eq a proto_quietI [OF b q s] by (simp add: good_def)
  qed
qed

lemma good_conn_flow:
  assumes inv: "acct_inv others c" "base_inv c" "quiet c" "settled_except {} c"
    and step: "conn_flow (int n) c = (out, c1)"
  shows "acct_inv others c1" "out = None \<or> out = Some StopReading"
    "out = None \<Longrightarrow> base_inv c1 \<and> quiet c1 \<and> settled_except {} c1 \<and> get_stream c1 sid = get_stream c sid"
proof -
  let ?f = "\<lambda>r. r\<lparr>r_conn_recv_window := r_conn_recv_window r - int n\<rparr>"
  let ?g = "\<lambda>r. r\<lparr>r_conn_recv_window := max (r_our_initial_window (c_recv c)) 65535\<rparr>"
  define w where "w = r_conn_recv_window (c_recv c) - int n"
  define c2 where "c2 = map_recv ?f c"
  define c3 where "c3 = map_recv ?g c2"
  have rb: "recv_base (c_recv c)" by (rule base_recv [OF inv(2)])
  have a2: "acct_inv others c2" "acct_inv others c3" using inv(1) by (simp_all add: c2_def c3_def acct_map_recv)
  have b2: "0 \<le> w \<Longrightarrow> base_inv c2" using rb unfolding c2_def
    by - (rule base_map_recv [OF inv(2)], auto simp: recv_base_def w_def)
  have b3: "0 \<le> w \<Longrightarrow> base_inv c3" using rb unfolding c3_def
    by - (rule base_map_recv [OF b2], auto simp: recv_base_def c2_def)
  have q: "quiet c2" "quiet c3" "settled_except {} c2" "settled_except {} c3"
      "get_stream c2 sid = get_stream c sid" "get_stream c3 sid = get_stream c sid"
    using inv(3,4) by (simp_all add: c2_def c3_def quiet_def settled_except_def)
  have w2: "r_conn_recv_window (c_recv c2) = w"
    "r_our_initial_window (c_recv c2) = r_our_initial_window (c_recv c)" by (simp_all add: c2_def w_def)
  have step': "(out, c1) = (if w < 0 then goaway err_FLOW_CONTROL_ERROR c2
      else if w \<le> max (r_our_initial_window (c_recv c)) 65535 div 2
      then (None, out_frames (\<lambda>b. write_window_update b 0
             (word_of_int (max (r_our_initial_window (c_recv c)) 65535 - w))) c3)
      else (None, c2))"
    using step [symmetric] unfolding conn_flow_def Let_def c2_def [symmetric] w2 c3_def .
  consider "w < 0" "(out, c1) = goaway err_FLOW_CONTROL_ERROR c2"
    | f where "0 \<le> w" "out = None" "c1 = out_frames f c3" | "0 \<le> w" "out = None" "c1 = c2"
    using step' by (auto split: if_splits)
  then show "acct_inv others c1" "out = None \<or> out = Some StopReading"
    "out = None \<Longrightarrow> base_inv c1 \<and> quiet c1 \<and> settled_except {} c1 \<and> get_stream c1 sid = get_stream c sid"
    using a2 b2 b3 q same_protoD [OF same_proto_out [of c3]] acct_goaway [of others err_FLOW_CONTROL_ERROR c2]
      goaway_simps(1) [of err_FLOW_CONTROL_ERROR c2]
    by (cases; metis fst_conv snd_conv acct_inv_out option.distinct(1))+
qed

lemma good_data_frame:
  assumes inv: "acct_inv others c" "base_inv c" "quiet c" "settled_except {} c"
  shows "good others (data_frame lib now h payload c)"
proof (cases "data_block (fh_flags h) payload")
  case None
  then show ?thesis using good_goaway [OF inv(1)] by (simp add: data_frame_def)
next
  case (Some data)
  let ?sid = "fh_stream_id h"
  obtain out c0 where flow: "conn_flow (int (length payload)) c = (out, c0)" by (metis surj_pair)
  note fl = good_conn_flow [OF inv flow]
  show ?thesis
  proof (cases out)
    case o: (Some x)
    then show ?thesis using fl flow Some by (simp add: data_frame_def good_def)
  next
    case None
    then have i0: "acct_inv others c0" "base_inv c0" "quiet c0" "settled_except {} c0" using fl by blast+
    have i0': "settled_except {?sid} c0" using settled_mono [OF i0(4)] by simp
    show ?thesis
    proof (cases "get_stream c0 ?sid")
      case g: None
      have "good others (rst now ?sid err_STREAM_CLOSED c0)" by (rule good_rst [OF i0(1,2,3) i0'])
      moreover have "good others (Some Continue, c0)" using i0 proto_quietI by (auto simp: good_def)
      ultimately show ?thesis using g None Some flow i0(1) by (simp add: data_frame_def Let_def good_goaway)
    next
      case g: (Some st0)
      define st where "st = st0\<lparr>st_recv_window := st_recv_window st0 - int (length payload)\<rparr>"
      define c1 where "c1 = put_stream ?sid st c0"
      have eq: "data_frame lib now h payload c =
          (if st_recv_window st < 0 then rst now ?sid err_FLOW_CONTROL_ERROR (drop_receiving ?sid c1)
           else if (case st_content_length st of None \<Rightarrow> False | Some cl \<Rightarrow> length (st_body st) + length data > cl)
           then rst now ?sid err_PROTOCOL_ERROR c1
           else if length (st_body st) + length data > r_max_request_body (c_recv c1)
           then reject_too_large now ?sid (str_bytes ''413'') (\<not> flag_set (fh_flags h) flag_END_STREAM) c1
           else if usize_sat_add (r_total_buffered (c_recv c1)) (length data) > r_per_conn_request_body (c_recv c1)
           then goaway err_ENHANCE_YOUR_CALM c1
           else buffer_data lib now h data st c1)"
        using Some None g flow unfolding data_frame_def Let_def
        by (simp only: option.case and_then_None st_def [symmetric] c1_def [symmetric])
      have a1: "acct_inv others c1" unfolding c1_def
        by (rule acct_inv_put_same [OF i0(1) g]) (simp_all add: st_def)
      have s1: "settled_except {} c1" unfolding c1_def
        using i0(4) stream_in_table [OF g]
        by (intro settled_put [OF i0(4)]) (auto simp: settled_except_def settled_def st_def)
      have s1': "settled_except {?sid} c1" using settled_mono [OF s1] by simp
      have q1: "quiet c1" using i0(3) by (simp add: c1_def quiet_def)
      have g1: "get_stream c1 ?sid = Some st" by (simp add: c1_def)
      have gone: "acct_inv others (drop_receiving ?sid c1)" by (rule acct_drop_receiving [OF a1])
      show ?thesis
      proof (cases "st_recv_window st < 0")
        case True
        \<comment> \<open>the stream with the overdrawn window is gone before the reset is written\<close>
        have "only_drops ?sid c0 (drop_receiving ?sid c1)"
          using drop_receiving_only_drops [of ?sid c1]
          by (simp add: only_drops_def c1_def delete_update_same)
        note od = this
        have p: "base_inv (drop_receiving ?sid c1)" "quiet (drop_receiving ?sid c1)"
            "settled_except {} (drop_receiving ?sid c1)"
          using only_drops_base [OF od i0(2)] only_drops_quiet [OF od i0(3)] only_drops_settled [OF od i0(4)]
          by simp_all
        have "good others (rst now ?sid err_FLOW_CONTROL_ERROR (drop_receiving ?sid c1))"
          using settled_mono [OF p(3)] by (intro good_rst [OF gone p(1,2)]) simp
        then show ?thesis using eq True by simp
      next
        case False
        have "base_inv c1" unfolding c1_def
          using base_stream [OF i0(2) g] False
          by (intro base_put [OF i0(2)]) (auto simp: stream_base_def st_def)
        note i1 = a1 this q1
        have "good others (rst now ?sid err_PROTOCOL_ERROR c1)" by (rule good_rst [OF i1 s1'])
        moreover have "good others (reject_too_large now ?sid (str_bytes ''413'') b c1)" for b
          by (rule good_reject_too_large [OF i1 s1'])
        moreover have "good others (goaway err_ENHANCE_YOUR_CALM c1)" by (rule good_goaway [OF a1])
        moreover have "good others (buffer_data lib now h data st c1)"
          if "length (st_body st) + length data \<le> r_max_request_body (c_recv c1)"
            "usize_sat_add (r_total_buffered (c_recv c1)) (length data) \<le> r_per_conn_request_body (c_recv c1)"
          using that by (intro good_buffer_data [OF i1 s1 g1])
        ultimately show ?thesis using eq False by auto
      qed
    qed
  qed
qed

section \<open>The other frames\<close>

lemma good_proto: "acct_inv others c \<Longrightarrow> proto_inv c \<Longrightarrow> good others (out, c)"
  by (simp add: good_def)

lemma good_rst_stream_frame:
  assumes inv: "acct_inv others c" "base_inv c" "quiet c" "settled_except {} c"
  shows "good others (rst_stream_frame now h c)"
proof -
  let ?sid = "fh_stream_id h"
  define c1 where "c1 = map_recv (note_reset ?sid) (drop_receiving ?sid c)"
  have a: "acct_inv others (snd (abort_handler now ?sid c1))"
    using acct_drop_receiving [OF inv(1)] by (simp add: c1_def acct_inv_same [OF same_acct_note(1)])
  have d: "only_drops ?sid c c1" unfolding c1_def
    by (rule only_drops_trans_same [OF drop_receiving_only_drops]) (simp_all add: note_reset_def recv_core_def)
  have "only_drops ?sid c (snd (abort_handler now ?sid c1))"
    using only_drops_trans_same [OF d, of "snd (abort_handler now ?sid c1)"] abort_goaway
    by (auto simp: abort_handler_result)
  then have "proto_inv (snd (abort_handler now ?sid c1))"
    using inv settled_mono [OF inv(4)] by (blast intro: only_drops_proto)
  then have "good others (and_then (abort_handler now ?sid c1) (\<lambda>c. (Some (ResetStream ?sid), c)))"
    using a by (cases "abort_handler now ?sid c1") (auto simp: and_then_def good_def split: option.splits)
  then show ?thesis using good_goaway [OF inv(1)] unfolding rst_stream_frame_def Let_def c1_def by simp
qed

lemma good_priority_frame:
  assumes inv: "acct_inv others c" "base_inv c" "quiet c" "settled_except {} c"
  shows "good others (priority_frame now h payload c)"
  using inv settled_mono [OF inv(4)] by (auto simp: priority_frame_def intro!: good_rst good_proto proto_quietI)

lemma good_ping_frame:
  assumes "acct_inv others c" "proto_inv c"
  shows "good others (ping_frame h payload c)"
  using assms by (simp add: ping_frame_def good_proto same_protoD(4) [OF same_proto_out])

lemma good_goaway_frame:
  assumes "acct_inv others c" "proto_inv c"
  shows "good others (goaway_frame payload c)"
  using assms by (simp add: goaway_frame_def good_goaway good_proto)

lemma good_window_update_frame:
  assumes inv: "acct_inv others c" "base_inv c" "quiet c" "settled_except {} c"
  shows "good others (window_update_frame now h payload c)"
  using inv settled_mono [OF inv(4)]
  by (auto simp: window_update_frame_def Let_def intro!: good_goaway good_rst good_proto proto_quietI
      split: option.splits)

lemma apply_setting_same:
  assumes "apply_setting p (delta, hts, c) = s"
  shows "case s of Inl out \<Rightarrow> fst out = Some StopReading \<and> (\<forall>others. acct_inv others (snd out) = acct_inv others c)
     | Inr (delta', hts', c') \<Rightarrow> same_proto c c' \<and> same_acct c c'"
  using assms by (auto simp: apply_setting_def same_proto_def same_acct_def split: prod.splits if_splits)

lemma apply_settings_same:
  "case apply_settings ps (delta, hts, c) of
     Inl out \<Rightarrow> fst out = Some StopReading \<and> (\<forall>others. acct_inv others (snd out) = acct_inv others c)
   | Inr (delta', hts', c') \<Rightarrow> same_proto c c' \<and> same_acct c c'"
proof (induction ps arbitrary: delta hts c)
  case Nil
  then show ?case by (simp add: same_proto_def same_acct_def)
next
  case (Cons p ps)
  show ?case
  proof (cases "apply_setting p (delta, hts, c)")
    case (Inl out)
    then show ?thesis using apply_setting_same [OF Inl] by simp
  next
    case (Inr t)
    obtain d' h' c' where t: "t = (d', h', c')" by (metis prod_cases3)
    have s: "same_proto c c' \<and> same_acct c c'" using apply_setting_same [OF Inr] t by simp
    then have "acct_inv others c' = acct_inv others c" for others by (simp add: acct_inv_same)
    then show ?thesis
      using Cons.IH [where delta = d' and hts = h' and c = c'] Inr t s
      by (auto simp: same_proto_def same_acct_def split: sum.splits)
  qed
qed

lemma good_settings_frame:
  assumes inv: "acct_inv others c" "proto_inv c"
  shows "good others (settings_frame h payload c)"
proof -
  have bad: "good others (goaway err_FRAME_SIZE_ERROR c)" by (rule good_goaway [OF inv(1)])
  show ?thesis
  proof (cases "flag_set (fh_flags h) flag_ACK \<or> \<not> 6 dvd unat (fh_length h) \<or> parse_settings payload = None")
    case True
    then show ?thesis using bad good_proto [OF inv] by (auto simp: settings_frame_def)
  next
    case False
    then obtain ps where ps: "parse_settings payload = Some ps" by blast
    note sets = apply_settings_same [where ps = ps and delta = 0 and hts = None and c = c]
    show ?thesis
    proof (cases "apply_settings ps (0, None, c)")
      case (Inl out)
      then show ?thesis
        using sets False ps inv by (simp add: settings_frame_def good_def)
    next
      case (Inr t)
      obtain delta hts c1 where t: "t = (delta, hts, c1)" by (metis prod_cases3)
      have s1: "same_proto c c1" "same_acct c c1" using sets Inr t by simp_all
      define c2 where "c2 = (if p_first_settings_recorded (c_peer c1) then c1
                          else c1\<lparr>c_peer := (c_peer c1)\<lparr>p_first_settings_recorded := True\<rparr>,
                                  c_peer_settings_seen := c_peer_settings_seen c1 @
                                    [(nat (p_initial_window (c_peer c1)),
                                      case hts of None \<Rightarrow> 4096 | Some v \<Rightarrow> unat v,
                                      unat (p_max_frame_size (c_peer c1)))]\<rparr>)"
      have eq: "settings_frame h payload c = (if delta \<noteq> 0
          then (Some (InitialWindowDelta delta), out_frames write_settings_ack c2)
          else (None, out_frames write_settings_ack c2))"
        using False ps Inr t unfolding settings_frame_def Let_def c2_def by simp
      have c2: "same_proto c1 c2" "same_acct c1 c2" by (simp_all add: c2_def same_proto_def same_acct_def)
      have "proto_inv c2" "acct_inv others c2"
        using same_protoD(4) [OF s1(1)] same_protoD(4) [OF c2(1)] acct_inv_same [OF s1(2)]
          acct_inv_same [OF c2(2)] inv by simp_all
      then show ?thesis unfolding eq by (simp add: good_proto same_protoD(4) [OF same_proto_out])
    qed
  qed
qed

section \<open>process\_frame keeps the invariant\<close>

text \<open>The connection after the counters at the head of \<open>process_frame\<close>.\<close>

definition tick :: "'h conn \<Rightarrow> 'h conn" where
  "tick c = map_recv (\<lambda>r. r\<lparr>r_seen_settings := True,
     r_no_progress_frames := min (r_no_progress_frames r + 1) (2 ^ 32 - 1)\<rparr>) c"

lemma tick_simps [simp]:
  "c_streams (tick c) = c_streams c" "get_stream (tick c) sid = get_stream c sid"
  "c_inflight (tick c) = c_inflight c" "c_inflight_sids (tick c) = c_inflight_sids c"
  "c_dec (tick c) = c_dec c" "c_enc (tick c) = c_enc c" "c_out (tick c) = c_out c"
  "r_open_header_block (c_recv (tick c)) = r_open_header_block (c_recv c)"
  "r_discarding_header_block (c_recv (tick c)) = r_discarding_header_block (c_recv c)"
  "r_last_client_stream (c_recv (tick c)) = r_last_client_stream (c_recv c)"
  "r_goaway_last (c_recv (tick c)) = r_goaway_last (c_recv c)"
  "acct_inv others (tick c) = acct_inv others c" "settled_except X (tick c) = settled_except X c"
  by (simp_all add: tick_def acct_map_recv settled_except_def)

lemma and_then_goaway [simp]: "and_then (goaway code c) f = goaway code c"
  using goaway_simps(1) [of code c] by (cases "goaway code c") simp

lemma frame_checks_cases:
  obtains (stop) code c' where "frame_checks h c = goaway code c'" "c' = c \<or> c' = tick c"
  | (pass) "frame_checks h c = (None, tick c)"
      "r_no_progress_frames (c_recv (tick c)) \<le> NO_PROGRESS_BUDGET"
      "fh_kind h = kind_CONTINUATION \<longleftrightarrow> r_open_header_block (c_recv c) \<noteq> None"
      "\<And>op. r_open_header_block (c_recv c) = Some op \<Longrightarrow> op = fh_stream_id h"
      "r_seen_settings (c_recv c) \<or> fh_kind h = kind_SETTINGS"
proof -
  let ?k = "fh_kind h" and ?s = "fh_stream_id h" and ?r = "c_recv c"
  define first where "first = (\<not> r_seen_settings ?r \<and> (?k \<noteq> kind_SETTINGS \<or> flag_set (fh_flags h) flag_ACK))"
  define flood where "flood = (r_no_progress_frames (c_recv (tick c)) > NO_PROGRESS_BUDGET)"
  define block where "block = (case r_open_header_block ?r of
      Some op \<Rightarrow> ?k \<noteq> kind_CONTINUATION \<or> ?s \<noteq> op | None \<Rightarrow> ?k = kind_CONTINUATION)"
  define id where "id = ((?k \<in> {kind_DATA, kind_HEADERS, kind_PRIORITY, kind_RST_STREAM, kind_CONTINUATION} \<and> ?s = 0)
                     \<or> (?k \<in> {kind_SETTINGS, kind_PING, kind_GOAWAY} \<and> ?s \<noteq> 0)
                     \<or> ?k = kind_PUSH_PROMISE)"
  define len where "len = ((?k \<in> {kind_RST_STREAM, kind_WINDOW_UPDATE} \<and> fh_length h \<noteq> 4)
                     \<or> (?k = kind_PRIORITY \<and> fh_length h \<noteq> 5) \<or> (?k = kind_PING \<and> fh_length h \<noteq> 8))"
  have eq: "frame_checks h c =
      (if first then goaway err_PROTOCOL_ERROR c
       else if flood then goaway err_ENHANCE_YOUR_CALM (tick c)
       else if block then goaway err_PROTOCOL_ERROR (tick c)
       else if id then goaway err_PROTOCOL_ERROR (tick c)
       else if len then goaway err_FRAME_SIZE_ERROR (tick c)
       else (None, tick c))"
    unfolding frame_checks_def Let_def first_def flood_def block_def id_def len_def tick_def by (rule refl)
  show thesis
  proof (cases "first \<or> flood \<or> block \<or> id \<or> len")
    case True
    then show thesis using eq stop by (metis (full_types))
  next
    case False
    then show thesis using eq
      by (intro pass) (auto simp: first_def flood_def block_def split: option.splits)
  qed
qed

lemma proto_tick:
  assumes "proto_inv c" "r_no_progress_frames (c_recv (tick c)) \<le> NO_PROGRESS_BUDGET"
  shows "proto_inv (tick c)"
proof -
  have "base_inv c" using assms(1) by (simp add: proto_inv_def)
  note b = this base_recv [OF this]
  have "base_inv (tick c)" using b(2) assms(2) unfolding tick_def by - (rule base_map_recv [OF b(1)], auto simp: recv_base_def)
  then show ?thesis using assms(1) by (simp add: proto_inv_def split: option.splits)
qed

lemma good_frame_arm:
  assumes inv: "acct_inv others c" "proto_inv c"
    and kind: "fh_kind h = kind_CONTINUATION \<longleftrightarrow> r_open_header_block (c_recv c) \<noteq> None"
    and op: "\<And>op. r_open_header_block (c_recv c) = Some op \<Longrightarrow> op = fh_stream_id h"
  shows "good others (frame_arm lib now n acc h payload c)"
proof (cases "r_open_header_block (c_recv c)")
  case None
  with proto_quietD [OF inv(2)] have q: "base_inv c" "quiet c" "settled_except {} c" by simp_all
  have "fh_kind h \<noteq> kind_CONTINUATION" using kind None by simp
  then show ?thesis using inv
    by (simp add: frame_arm_def good_settings_frame good_ping_frame good_goaway_frame good_proto
        good_window_update_frame [OF inv(1) q] good_headers_frame [OF inv(1) q]
        good_data_frame [OF inv(1) q] good_rst_stream_frame [OF inv(1) q] good_priority_frame [OF inv(1) q])
next
  case (Some s)
  then have "frame_arm lib now n acc h payload c = continuation_frame lib now h payload c"
    using kind by (simp add: frame_arm_def h2_consts)
  then show ?thesis using good_continuation_frame [OF inv] op [OF Some] Some by simp
qed

lemma process_frame_good:
  assumes inv: "conn_inv others c"
    and run: "process_frame lib now n acc h payload c = (out, c')"
  shows "acct_inv others c'" "out \<noteq> StopReading \<Longrightarrow> conn_inv others c'"
proof -
  have a: "acct_inv others c" and p: "proto_inv c" using inv by (simp_all add: conn_inv_def)
  let ?s = "and_then (frame_checks h c) (frame_arm lib now n acc h payload)"
  have "good others ?s"
  proof (cases rule: frame_checks_cases [of h c])
    case (stop code d)
    then show ?thesis using a by (auto intro!: good_goaway)
  next
    case pass
    have "good others (frame_arm lib now n acc h payload (tick c))"
      using pass a by (intro good_frame_arm proto_tick [OF p]) auto
    then show ?thesis using pass by simp
  qed
  moreover have "(out, c') = (case ?s of (None, c') \<Rightarrow> (Continue, c') | (Some out, c') \<Rightarrow> (out, c'))"
    using run by (simp add: process_frame_def)
  ultimately show "acct_inv others c'" "out \<noteq> StopReading \<Longrightarrow> conn_inv others c'"
    by (auto simp: good_def conn_inv_def split: prod.splits option.splits)
qed

section \<open>The start\<close>

lemma conn_start_inv:
  assumes "config_ok others cfg"
  shows "conn_inv others (conn_start cfg memo)"
proof -
  have "int (unat (max (cfg_initial_window_size cfg) 65535)) = max (int (unat (cfg_initial_window_size cfg))) 65535"
    by (cases "cfg_initial_window_size cfg \<le> 65535") (auto simp: max_def word_le_def)
  then have "proto_inv (conn_start cfg memo)"
    by (simp add: proto_inv_def base_inv_def recv_base_def conn_start_def recv_start_def settled_except_def)
  then show ?thesis unfolding conn_inv_def by (intro conjI conn_start_acct [OF assms])
qed

text \<open>
  C21. The invariant of a connection is kept by every frame, whatever its header and payload: the
  counters of buffered octets and waiting headers are the sums over the open streams and stay
  within their limits, every stream has an odd id no larger than the highest seen and no running
  handler, its body and windows are within bounds, only the stream with the open header block is
  unsettled, and the server-wide budget records exactly what this connection holds. A frame that
  ends the connection keeps the accounting.
\<close>

theorem process_frame_invariant:
  assumes "conn_inv others c"
    and "process_frame lib now n acc h payload c = (out, c')"
  shows "acct_inv others c' \<and> (out = StopReading \<or> conn_inv others c')"
  using process_frame_good [OF assms] by blast

lemma settings_frame_run:
  "\<exists>c'. process_frame assoc_lib now 0 True
      \<lparr>fh_length = 0, fh_kind = kind_SETTINGS, fh_flags = 0, fh_stream_id = 0\<rparr> []
      (conn_start config_default memo) = (Continue, c')"
  by (simp add: process_frame_def frame_checks_def frame_arm_def settings_frame_def Let_def h2_consts
      conn_start_def recv_start_def NO_PROGRESS_BUDGET_def flag_set_def parse_settings_def
      map_recv_def peer_default_def)

theorem process_frame_invariant_witness:
  "\<exists>c'. process_frame assoc_lib 0 0 True
      \<lparr>fh_length = 0, fh_kind = kind_SETTINGS, fh_flags = 0, fh_stream_id = 0\<rparr> []
      (conn_start config_default memo_empty) = (Continue, c') \<and> conn_inv 0 c'"
proof -
  obtain c' where run: "process_frame assoc_lib 0 0 True
      \<lparr>fh_length = 0, fh_kind = kind_SETTINGS, fh_flags = 0, fh_stream_id = 0\<rparr> []
      (conn_start config_default memo_empty) = (Continue, c')" using settings_frame_run by blast
  then show ?thesis
    using process_frame_invariant [OF conn_start_inv [OF config_default_ok] run] by simp
qed

end
