(* ===== verification/H2_Ids.thy ===== *)
theory H2_Ids
  imports H2_Invariant
begin

text \<open>
  How the streams of a connection change with a frame: ids only grow, a stream leaves the table for
  good, a request is dispatched once and only for a stream that was in the table or was opened by the
  frame, and the last stream announced in a GOAWAY never grows. \<open>evo\<close> is that relation between two
  states of a connection; it is transitive, so each arm of \<open>process_frame\<close> is a chain of small steps.
\<close>

abbreviation last_id :: "'h conn \<Rightarrow> u32" where
  "last_id c \<equiv> r_last_client_stream (c_recv c)"

definition stream_ids :: "'h conn \<Rightarrow> u32 set" where
  "stream_ids c = fst ` set (c_streams c)"

definition dispatched :: "'h conn \<Rightarrow> u32 set" where
  "dispatched c = fst ` set (c_inflight c)"

text \<open>The ids a connection knows: no stream is beyond the highest id seen, a dispatched stream has left
  the table, no stream is dispatched twice, and a handler is running, was aborted, or is neither and
  its response will not be looked at.\<close>

definition ids_ok :: "'h conn \<Rightarrow> bool" where
  "ids_ok c \<longleftrightarrow>
     (\<forall>i \<in> stream_ids c. i \<le> last_id c) \<and>
     (\<forall>i \<in> dispatched c. i \<le> last_id c \<and> i \<notin> stream_ids c) \<and> distinct (map fst (c_inflight c)) \<and>
     c_inflight_sids c \<subseteq> dispatched c \<and> c_cancelled c \<subseteq> dispatched c - c_inflight_sids c"

definition goaway_mono :: "recv \<Rightarrow> recv \<Rightarrow> bool" where
  "goaway_mono r r' \<longleftrightarrow> (\<forall>g. r_goaway_last r = Some g \<longrightarrow> (\<exists>g'. r_goaway_last r' = Some g' \<and> g' \<le> g))"

definition evolves :: "'h conn \<Rightarrow> (u32 \<times> bool \<times> 'h request) list \<Rightarrow> 'h conn \<Rightarrow> bool" where
  "evolves c new c' \<longleftrightarrow>
     last_id c \<le> last_id c' \<and> goaway_mono (c_recv c) (c_recv c') \<and>
     stream_ids c' \<subseteq> stream_ids c \<union> {last_id c <.. last_id c'} \<and>
     c_inflight c' = c_inflight c @ new \<and> distinct (map fst new) \<and>
     fst ` set new \<subseteq> stream_ids c \<union> {last_id c <..} \<and>
     (\<forall>i \<in> fst ` set new. i \<le> last_id c' \<and> i \<notin> stream_ids c') \<and>
     c_inflight_sids c' \<subseteq> c_inflight_sids c \<union> fst ` set new"

definition evo :: "'h conn \<Rightarrow> 'h conn \<Rightarrow> bool" where
  "evo c c' \<longleftrightarrow> (ids_ok c \<longrightarrow> ids_ok c' \<and> (\<exists>new. evolves c new c'))"

section \<open>Chains\<close>

lemma goaway_mono_refl [simp]: "goaway_mono r r"
  by (auto simp: goaway_mono_def)

lemma goaway_mono_eq: "r_goaway_last r' = r_goaway_last r \<Longrightarrow> goaway_mono r r'"
  by (auto simp: goaway_mono_def)

lemma goaway_mono_trans: "goaway_mono a b \<Longrightarrow> goaway_mono b c \<Longrightarrow> goaway_mono a c"
  unfolding goaway_mono_def by (meson order_trans)

lemma evolvesD:
  assumes "evolves c new c'"
  shows "last_id c \<le> last_id c'" "goaway_mono (c_recv c) (c_recv c')"
    "stream_ids c' \<subseteq> stream_ids c \<union> {last_id c <.. last_id c'}"
    "c_inflight c' = c_inflight c @ new" "distinct (map fst new)"
    "fst ` set new \<subseteq> stream_ids c \<union> {last_id c <..}"
    "i \<in> fst ` set new \<Longrightarrow> i \<le> last_id c'" "i \<in> fst ` set new \<Longrightarrow> i \<notin> stream_ids c'"
    "c_inflight_sids c' \<subseteq> c_inflight_sids c \<union> fst ` set new"
  using assms unfolding evolves_def by blast+

lemma evolves_trans:
  assumes "evolves c a d" "evolves d b e"
  shows "evolves c (a @ b) e"
proof -
  note c = evolvesD [OF assms(1)] and d = evolvesD [OF assms(2)]
  have ids: "stream_ids e \<subseteq> stream_ids c \<union> {last_id c <.. last_id e}"
    using c(1,3) d(1,3) by fastforce
  have new: "fst ` set (a @ b) \<subseteq> stream_ids c \<union> {last_id c <..}"
    using c(1,3,6) d(6) by fastforce
  have once: "i \<notin> fst ` set b" and gone: "i \<notin> stream_ids e" if "i \<in> fst ` set a" for i
    using c(7,8) [OF that] d(3,6) by (force dest: subsetD)+
  have "i \<le> last_id e" if "i \<in> fst ` set a" for i
    using c(7) [OF that] d(1) by simp
  with gone have bound: "\<forall>i \<in> fst ` set (a @ b). i \<le> last_id e \<and> i \<notin> stream_ids e"
    using d(7,8) unfolding set_append image_Un by blast
  have "distinct (map fst (a @ b))"
    using once c(5) d(5) by auto
  moreover have "c_inflight_sids e \<subseteq> c_inflight_sids c \<union> fst ` set (a @ b)"
    using c(9) d(9) unfolding set_append image_Un by blast
  ultimately show ?thesis
    unfolding evolves_def using ids new bound c(1,4) d(1,4) goaway_mono_trans [OF c(2) d(2)] by simp
qed

lemma evo_trans: "evo c d \<Longrightarrow> evo d e \<Longrightarrow> evo c e"
  unfolding evo_def using evolves_trans by blast

lemma evo_quiet:
  assumes "stream_ids c' \<subseteq> stream_ids c" "c_inflight c' = c_inflight c" "c_inflight_sids c' \<subseteq> c_inflight_sids c"
    "c_cancelled c' \<subseteq> c_cancelled c \<union> (c_inflight_sids c - c_inflight_sids c')"
    "last_id c' = last_id c" "goaway_mono (c_recv c) (c_recv c')"
  shows "evo c c'"
proof -
  have "evolves c [] c'" using assms by (auto simp: evolves_def)
  moreover have "ids_ok c'" if "ids_ok c" using assms that by (auto simp: ids_ok_def dispatched_def)
  ultimately show ?thesis unfolding evo_def by blast
qed

lemma evo_refl [simp]: "evo c c"
  by (rule evo_quiet) simp_all

lemma ids_simps [simp]:
  "stream_ids (map_recv f c) = stream_ids c" "stream_ids (out_frames g c) = stream_ids c"
  "stream_ids (drop_state st c) = stream_ids c" "stream_ids (remove_stream sid c) = stream_ids c - {sid}"
  "stream_ids (put_stream sid st c) = insert sid (stream_ids c)"
  "stream_ids (c\<lparr>c_dec := d\<rparr>) = stream_ids c" "stream_ids (c\<lparr>c_enc := e\<rparr>) = stream_ids c"
  "stream_ids (c\<lparr>c_peer := p\<rparr>) = stream_ids c" "stream_ids (c\<lparr>c_body_budget := b\<rparr>) = stream_ids c"
  "stream_ids (drop_receiving sid c) = stream_ids c - {sid}"
  by (auto simp: stream_ids_def dom_update drop_receiving_streams set_delete)

lemma last_drop_receiving [simp]: "last_id (drop_receiving sid c) = last_id c"
  using recv_core_eqD(2) drop_receiving_simps(9) .

lemma get_stream_ids: "get_stream c sid = Some st \<Longrightarrow> sid \<in> stream_ids c"
  by (metis get_stream_def image_eqI map_of_SomeD prod.sel(1) stream_ids_def)

lemma evo_and_then:
  "evo c (snd s) \<Longrightarrow> (\<And>c'. s = (None, c') \<Longrightarrow> evo c' (snd (f c'))) \<Longrightarrow> evo c (snd (and_then s f))"
  by (cases s) (auto simp: and_then_def split: option.splits intro: evo_trans)

section \<open>The macros\<close>

lemma evo_core:
  assumes "stream_ids c' \<subseteq> stream_ids c" "c_inflight c' = c_inflight c" "c_inflight_sids c' \<subseteq> c_inflight_sids c"
    "c_cancelled c' \<subseteq> c_cancelled c \<union> (c_inflight_sids c - c_inflight_sids c')"
    "recv_core (c_recv c') = recv_core (c_recv c)" "goaway_mono (c_recv c) (c_recv c')"
  shows "evo c c'"
  by (rule evo_quiet [OF assms(1-4) recv_core_eqD(2) [OF assms(5)] assms(6)])

lemma evo_map_recv:
  "r_last_client_stream (f (c_recv c)) = last_id c \<Longrightarrow> r_goaway_last (f (c_recv c)) = r_goaway_last (c_recv c) \<Longrightarrow>
     evo c (map_recv f c)"
  by (rule evo_quiet) (simp_all add: goaway_mono_eq)

lemma evo_out [simp]: "evo c (out_frames f c)"
  by (rule evo_quiet) simp_all

lemma evo_remove [simp]: "evo c (remove_stream sid c)"
  by (rule evo_quiet) auto

lemma evo_drop_state [simp]: "evo c (drop_state st c)"
  by (rule evo_quiet) auto

lemma evo_drop_receiving [simp]: "evo c (drop_receiving sid c)"
  by (rule evo_core) (auto simp: goaway_mono_eq)

lemma evo_put: "sid \<in> stream_ids c \<Longrightarrow> evo c (put_stream sid st c)"
  by (rule evo_quiet) auto

lemma cancelled_simps [simp]:
  "c_cancelled (snd (goaway code c)) = c_cancelled c"
  "c_cancelled (teardown_receiving sid c) = c_cancelled c"
  by (simp_all add: goaway_def goaway_last_stream_id_def teardown_receiving_def Let_def)

lemma evo_goaway [simp]: "evo c (snd (goaway code c))"
proof (rule evo_core)
  show "goaway_mono (c_recv c) (c_recv (snd (goaway code c)))"
    by (auto simp: goaway_mono_def goaway_def goaway_last_stream_id_def Let_def)
qed (simp_all add: stream_ids_def)

lemma evo_teardown [simp]: "evo c (teardown_receiving sid c)"
proof (rule evo_core)
  show "goaway_mono (c_recv c) (c_recv (teardown_receiving sid c))"
    by (rule goaway_mono_eq) (simp add: teardown_receiving_def Let_def note_reset_def)
qed (use teardown_only_drops [of sid c] in \<open>auto simp: only_drops_def stream_ids_def set_delete\<close>)

lemma evo_abort [simp]: "evo c (snd (abort_handler now sid c))"
proof -
  define c1 where "c1 = c\<lparr>c_inflight_sids := c_inflight_sids c - {sid}\<rparr>"
  define c2 where "c2 = (if card (c_cancelled c1) < usize_sat_mul (r_max_concurrent (c_recv c1)) 2
                   then c1\<lparr>c_cancelled := insert sid (c_cancelled c1)\<rparr> else c1)"
  obtain e c3 where ch: "charge_inflight_reset now c2 = (e, c3)" by (metis surj_pair)
  have "evo c c3" if "sid \<in> c_inflight_sids c"
    using ch that by (intro evo_quiet)
      (auto simp: c1_def c2_def stream_ids_def charge_inflight_reset_def charge_inflight_reset_at_def Let_def
        goaway_mono_eq split: if_splits)
  then show ?thesis
    using ch by (auto simp: abort_handler_def Let_def c1_def [symmetric] c2_def [symmetric] intro: evo_trans)
qed

lemma evo_rst [simp]: "evo c (snd (rst now sid code c))"
proof -
  let ?d = "teardown_receiving sid (out_frames (\<lambda>b. write_rst_stream b sid code) c)"
  have "snd (rst now sid code c) = snd (abort_handler now sid ?d)"
    by (simp add: rst_def Let_def) (rule and_then_cases; simp)
  then show ?thesis
    by (simp only:) (rule evo_trans [OF evo_out evo_trans [OF evo_teardown evo_abort]])
qed

lemma evo_rst_after: "evo c d \<Longrightarrow> evo c (snd (rst now sid code d))"
  by (rule evo_trans [OF _ evo_rst])

lemma evo_goaway_after: "evo c d \<Longrightarrow> evo c (snd (goaway code d))"
  by (rule evo_trans [OF _ evo_goaway])

lemma evo_encode:
  assumes "encode_fields hs c = (block, c')"
  shows "evo c c'"
proof -
  have "c_cancelled c' = c_cancelled c" using assms by (auto simp: encode_fields_def split: prod.splits)
  then show ?thesis by (intro evo_quiet) (simp_all add: encode_fields_simps(1-7) [OF assms] stream_ids_def)
qed

lemma evo_reject_too_large [simp]: "evo c (snd (reject_too_large now sid status client_open c))"
proof -
  obtain block c1 where e: "encode_fields [(str_bytes '':status'', status),
      (str_bytes ''content-length'', str_bytes ''0'')] c = (block, c1)" by (metis surj_pair)
  let ?c2 = "out_frames (\<lambda>b. write_frame b kind_HEADERS (flag_END_HEADERS OR flag_END_STREAM) sid block) c1"
  have "evo c ?c2" by (rule evo_trans [OF evo_encode [OF e] evo_out])
  then show ?thesis
    by (simp add: reject_too_large_def e Let_def evo_rst_after evo_trans [OF _ evo_drop_receiving])
qed

lemma evo_reject_early [simp]: "evo c (snd (reject_early lib now sid c))"
  by (auto simp: reject_early_def Let_def split: option.splits prod.splits
      intro!: evo_rst_after evo_trans [OF evo_encode evo_out])

lemma admit_ids:
  assumes "admit_pending_headers st charge c = (ok, st', c')" "sid \<in> stream_ids c"
  shows "evo c (put_stream sid st' c')"
  using assms by (intro evo_quiet)
    (auto simp: admit_pending_headers_def Let_def goaway_mono_eq insert_absorb
      split: if_splits option.splits prod.splits bool.splits)

text \<open>A stream that completes leaves the table and enters the list of handlers.\<close>

lemma evo_dispatch:
  assumes "sid \<in> stream_ids c" "stream_ids c' = stream_ids c - {sid}" "c_inflight c' = c_inflight c @ [(sid, x)]"
    "c_inflight_sids c' = insert sid (c_inflight_sids c)" "c_cancelled c' = c_cancelled c" "last_id c' = last_id c"
    "r_goaway_last (c_recv c') = r_goaway_last (c_recv c)"
  shows "evo c c'"
proof -
  have "evolves c [(sid, x)] c'" if "ids_ok c"
    using assms that by (auto simp: evolves_def ids_ok_def goaway_mono_eq)
  moreover have "ids_ok c'" if "ids_ok c"
    using assms that by (auto simp: ids_ok_def dispatched_def)
  ultimately show ?thesis unfolding evo_def by blast
qed

lemma evo_complete [simp]: "evo c (snd (complete lib now sid c))"
proof (cases "get_stream c sid")
  case None
  then show ?thesis by (simp add: complete_def)
next
  case (Some st)
  define c1 where "c1 = map_recv (release_stream st) (map_recv (\<lambda>r. r\<lparr>r_no_progress_frames := 0\<rparr>) (remove_stream sid c))"
  define hint where "hint = min (hm_len lib (st_headers st) + (if st_authority st = None then 0 else 1))
                              HEADER_COUNT_HINT_MAX"
  define c2 where "c2 = map_recv (\<lambda>r. r\<lparr>r_header_count_hint := hint\<rparr>) c1"
  have c2: "stream_ids c2 = stream_ids c - {sid}" "c_inflight c2 = c_inflight c" "c_inflight_sids c2 = c_inflight_sids c"
      "c_cancelled c2 = c_cancelled c" "last_id c2 = last_id c" "r_goaway_last (c_recv c2) = r_goaway_last (c_recv c)"
    by (simp_all add: c1_def c2_def goaway_release)
  have e1: "evo c (drop_state st c1)"
    by (rule evo_quiet) (auto simp: c1_def goaway_release intro!: goaway_mono_eq)
  obtain rq bo where br: "build_request lib st (c_body_budget c2) = (rq, bo)" by (metis surj_pair)
  have e2: "evo c (c2\<lparr>c_body_budget := bo\<rparr>)"
    by (rule evo_quiet) (use c2 in \<open>auto intro: goaway_mono_eq\<close>)
  have "evo c (c2\<lparr>c_body_budget := bo, c_inflight := c_inflight c2 @ [(sid, x)],
                  c_inflight_sids := insert sid (c_inflight_sids c2)\<rparr>)" for x
    by (rule evo_dispatch [OF get_stream_ids [OF Some]]) (use c2 in \<open>simp_all add: stream_ids_def\<close>)
  with e1 e2 show ?thesis
    unfolding complete_def Some option.case Let_def c1_def [symmetric] hint_def [symmetric] c2_def [symmetric] br
    by (cases rq) (auto intro!: evo_rst_after)
qed

section \<open>The arms\<close>

lemma evo_header_block_decoded:
  assumes "get_stream c sid = Some st"
  shows "evo c (snd (header_block_decoded lib now sid dcd c))"
  using assms
proof (cases rule: header_block_decodedE [where lib = lib and now = now and dcd = dcd])
  case refused
  then show ?thesis by (simp add: evo_rst_after evo_trans [OF evo_remove evo_drop_state])
next
  case (no_memory st' c')
  then show ?thesis by (simp add: evo_rst_after admit_ids get_stream_ids [OF assms])
next
  case (admitted st' c')
  have "evo c (put_stream sid st' c')" using admitted(4) get_stream_ids [OF assms] by (rule admit_ids)
  moreover have "evo d (maybe_send_100_continue lib st sid d)" for d :: "'a conn"
    by (rule evo_quiet) (auto simp: maybe_send_100_continue_def Let_def stream_ids_def split: prod.splits)
  ultimately show ?thesis using admitted evo_trans by (simp only: snd_conv) blast
next
  case (early out c')
  then show ?thesis by (metis evo_reject_early)
qed (simp_all add: evo_rst_after)

lemma evo_discard_headers:
  "evo c (snd (discard_headers now h payload code drop_first c))"
  by (auto simp: discard_headers_def Let_def split: option.splits prod.splits
      intro!: evo_rst_after evo_goaway_after evo_quiet goaway_mono_eq)

text \<open>Putting the stream a HEADERS frame names, whether it is in the table or new.\<close>

lemma evo_open:
  assumes "(sid \<in> stream_ids c0 \<and> last_id c = last_id c0) \<or> (last_id c0 < sid \<and> last_id c = sid)"
    "stream_ids c \<subseteq> insert sid (stream_ids c0)" "c_inflight c = c_inflight c0" "c_inflight_sids c = c_inflight_sids c0"
    "c_cancelled c = c_cancelled c0" "r_goaway_last (c_recv c) = r_goaway_last (c_recv c0)"
  shows "evo c0 c"
proof -
  have "evolves c0 [] c" using assms by (auto simp: evolves_def goaway_mono_eq)
  moreover have "ids_ok c" if ok: "ids_ok c0"
  proof -
    have le: "last_id c0 \<le> last_id c" "sid \<le> last_id c"
      using assms(1) ok by (auto simp: ids_ok_def)
    have "sid \<notin> dispatched c0" using assms(1) ok by (auto simp: ids_ok_def)
    then have "i \<le> last_id c \<and> i \<notin> stream_ids c" if "i \<in> dispatched c0" for i
      using ok le(1) assms(2) that unfolding ids_ok_def by (metis insertE order_trans subsetD)
    moreover have "i \<le> last_id c" if "i \<in> stream_ids c" for i
      using ok le assms(2) that unfolding ids_ok_def by (metis insertE order_trans subsetD)
    moreover have "dispatched c = dispatched c0" using assms(3) by (simp add: dispatched_def)
    ultimately show ?thesis using ok assms(3-5) unfolding ids_ok_def by simp
  qed
  ultimately show ?thesis unfolding evo_def by blast
qed

lemma evo_open_headers:
  assumes "(sid \<in> stream_ids c0 \<and> last_id c = last_id c0) \<or> (last_id c0 < sid \<and> last_id c = sid)"
    "stream_ids c = stream_ids c0" "c_inflight c = c_inflight c0" "c_inflight_sids c = c_inflight_sids c0"
    "c_cancelled c = c_cancelled c0" "r_goaway_last (c_recv c) = r_goaway_last (c_recv c0)" "sid = fh_stream_id h"
  shows "evo c0 (snd (open_headers lib now n accept opens h payload c))"
proof -
  have put: "evo c0 c'" if "stream_ids c' = insert sid (stream_ids c)" "c_inflight c' = c_inflight c"
      "c_inflight_sids c' = c_inflight_sids c" "c_cancelled c' = c_cancelled c" "last_id c' = last_id c"
      "r_goaway_last (c_recv c') = r_goaway_last (c_recv c)" for c'
    using assms(1-6) that by (intro evo_open [of sid]) auto
  have dec: "evo c0 (snd (header_block_decoded lib now sid dcd c'))"
    if "stream_ids c' = insert sid (stream_ids c)" "c_inflight c' = c_inflight c"
      "c_inflight_sids c' = c_inflight_sids c" "c_cancelled c' = c_cancelled c" "last_id c' = last_id c"
      "r_goaway_last (c_recv c') = r_goaway_last (c_recv c)" "get_stream c' sid = Some st" for dcd c' st
    by (rule evo_trans [OF put [OF that(1-6)] evo_header_block_decoded [OF that(7)]])
  have none: "evo c0 c" using assms(1-6) by (intro evo_open [of sid]) auto
  show ?thesis
  proof (cases "headers_block (fh_flags h) payload")
    case None
    then show ?thesis by (simp add: open_headers_def Let_def evo_goaway_after none)
  next
    case (Some block)
    define st0 where "st0 = (case get_stream c sid of Some st \<Rightarrow> st
      | None \<Rightarrow> stream_new (hm_new lib) (r_our_initial_window (c_recv c)))"
    define st1 where "st1 = (if opens \<and> (\<not> accept \<or>
      length (c_streams c) + length (c_inflight c) + n \<ge> r_max_concurrent (c_recv c))
      then st0\<lparr>st_refused := True\<rparr> else st0)"
    define st2 where "st2 = (if flag_set (fh_flags h) flag_END_STREAM then st1\<lparr>st_end_stream := True\<rparr> else st1)"
    define c1 where "c1 = put_stream sid st1 c"
    define c2 where "c2 = map_recv (\<lambda>r. r\<lparr>r_open_header_block := None\<rparr>) c1"
    define D where "D = (if st_header_block st2 = [] then decode_block_from lib (c_dec c2) st2 block
      else decode_block lib (c_dec c2) (st2\<lparr>st_header_block := st_header_block st2 @ block\<rparr>))"
    obtain dcd d st3 where D: "D = (dcd, d, st3)" by (metis prod_cases3)
    have "evo c0 c1" by (rule put) (simp_all add: c1_def)
    moreover have "evo c0 (snd (header_block_decoded lib now sid dcd (put_stream sid st3 (c2\<lparr>c_dec := d\<rparr>))))"
      by (rule dec) (simp_all add: c1_def c2_def stream_ids_def dom_update)
    moreover have "evo c0 (map_recv (\<lambda>r. r\<lparr>r_open_header_block := Some sid\<rparr>) (put_stream sid st c1))" for st
      by (rule put) (simp_all add: c1_def)
    ultimately show ?thesis
      unfolding open_headers_def Let_def assms(7) [symmetric] Some option.case st0_def [symmetric]
        st1_def [symmetric] st2_def [symmetric] c1_def [symmetric] c2_def [symmetric] D_def [symmetric] D prod.case
      by (simp add: evo_goaway_after)
  qed
qed

lemma evo_headers_frame: "evo c (snd (headers_frame lib now n accept h payload c))"
proof -
  define sid where "sid = fh_stream_id h"
  define c1 where "c1 = (if get_stream c sid = None then map_recv (\<lambda>r. r\<lparr>r_last_client_stream := sid\<rparr>) c else c)"
  have c1: "stream_ids c1 = stream_ids c" "c_inflight c1 = c_inflight c" "c_inflight_sids c1 = c_inflight_sids c"
      "c_cancelled c1 = c_cancelled c" "r_goaway_last (c_recv c1) = r_goaway_last (c_recv c)"
    by (simp_all add: c1_def)
  have last: "(sid \<in> stream_ids c \<and> last_id c1 = last_id c) \<or> (last_id c < sid \<and> last_id c1 = sid)"
    if "\<not> (get_stream c sid = None \<and> sid \<le> last_id c)"
    using that get_stream_ids by (cases "get_stream c sid") (auto simp: c1_def)
  have "evo c c1" if "\<not> (get_stream c sid = None \<and> sid \<le> last_id c)"
    using last [OF that] c1 by (intro evo_open [of sid]) auto
  then have "evo c (snd (discard_headers now h payload code True c1))"
    if "\<not> (get_stream c sid = None \<and> sid \<le> last_id c)" for code
    using that evo_trans evo_discard_headers by blast
  moreover have "evo c (snd (open_headers lib now n accept opens h payload c1))"
    if "\<not> (get_stream c sid = None \<and> sid \<le> last_id c)" for opens
    by (rule evo_open_headers [OF last [OF that] c1 sid_def])
  ultimately show ?thesis
    unfolding headers_frame_def Let_def sid_def [symmetric] c1_def [symmetric]
    by (simp add: evo_discard_headers)
qed

lemma evo_continuation_frame: "evo c (snd (continuation_frame lib now h payload c))"
proof -
  have dec: "evo c (snd (header_block_decoded lib now sid dcd c'))"
    if "evo c c'" "get_stream c' sid = Some st" for sid dcd c' st
    by (rule evo_trans [OF that(1) evo_header_block_decoded [OF that(2)]])
  have put: "evo c c'" if "get_stream c sid = Some st" "stream_ids c' = insert sid (stream_ids c)"
      "c_inflight c' = c_inflight c" "c_inflight_sids c' = c_inflight_sids c" "c_cancelled c' = c_cancelled c"
      "last_id c' = last_id c"
      "r_goaway_last (c_recv c') = r_goaway_last (c_recv c)" for c' sid st
    using that get_stream_ids [OF that(1)] by (intro evo_quiet) (auto simp: goaway_mono_eq)
  show ?thesis
    unfolding continuation_frame_def Let_def
    by (auto split: option.splits prod.splits
        intro!: evo_goaway_after evo_rst_after evo_map_recv dec put evo_quiet [of "map_recv _ (map_recv _ _)"]
          evo_quiet [of "map_recv _ (_\<lparr>c_dec := _\<rparr>)"] goaway_mono_eq)
qed

lemma evo_conn_flow: "evo c (snd (conn_flow flow c))"
  by (auto simp: conn_flow_def Let_def intro!: evo_goaway_after evo_trans [OF _ evo_out] evo_quiet goaway_mono_eq)

lemma conn_flow_None:
  "conn_flow flow c = (None, c') \<Longrightarrow> c_streams c' = c_streams c"
  by (auto simp: conn_flow_def Let_def split: if_splits)

lemma reserve_body_ids:
  assumes "reserve_body n st c = (ok, st', c')"
  shows "stream_ids c' = stream_ids c" "c_inflight c' = c_inflight c" "c_inflight_sids c' = c_inflight_sids c"
    "c_recv c' = c_recv c" "c_cancelled c' = c_cancelled c"
  using assms by (auto simp: reserve_body_def Let_def split: option.splits prod.splits)

lemma evo_buffer_data:
  assumes "get_stream c (fh_stream_id h) = Some st"
  shows "evo c (snd (buffer_data lib now h data st' c))"
proof -
  define sid where "sid = fh_stream_id h"
  define c0 where "c0 = (if data = [] then c else map_recv (\<lambda>r. r\<lparr>r_no_progress_frames := 0\<rparr>) c)"
  obtain ok st1 c1 where r: "reserve_body (length data) st' c0 = (ok, st1, c1)" by (metis prod_cases3)
  note rs = reserve_body_ids [OF r]
  have put: "evo c c'" if "stream_ids c' = insert sid (stream_ids c1)"
      "c_inflight c' = c_inflight c1" "c_inflight_sids c' = c_inflight_sids c1" "c_cancelled c' = c_cancelled c1" "last_id c' = last_id c1"
      "r_goaway_last (c_recv c') = r_goaway_last (c_recv c1)" for c'
    using that rs get_stream_ids [OF assms] by (intro evo_quiet) (auto simp: c0_def sid_def intro!: goaway_mono_eq)
  then have fin: "evo c (snd (complete lib now sid c'))" if "stream_ids c' = insert sid (stream_ids c1)"
      "c_inflight c' = c_inflight c1" "c_inflight_sids c' = c_inflight_sids c1" "c_cancelled c' = c_cancelled c1" "last_id c' = last_id c1"
      "r_goaway_last (c_recv c') = r_goaway_last (c_recv c1)" for c'
    using that evo_trans evo_complete by blast
  show ?thesis
    unfolding buffer_data_def Let_def sid_def [symmetric] c0_def [symmetric] r prod.case
    by (auto intro!: evo_rst_after put fin)
qed

lemma evo_data_frame: "evo c (snd (data_frame lib now h payload c))"
proof -
  have put: "evo c (put_stream sid st' c)" if "get_stream c sid = Some st" for c :: "'a conn" and sid st st'
    using get_stream_ids [OF that] by (rule evo_put)
  have buf: "evo c (snd (buffer_data lib now h data st' (put_stream (fh_stream_id h) st' c)))"
    if "get_stream c (fh_stream_id h) = Some st" for c st st' data
    by (rule evo_trans [OF put [OF that] evo_buffer_data]) simp
  show ?thesis
    unfolding data_frame_def Let_def
    by (auto split: option.splits intro!: evo_and_then evo_conn_flow evo_rst_after evo_goaway_after
        evo_trans [OF put evo_reject_too_large] evo_trans [OF put evo_drop_receiving] put buf)
qed

lemma evo_window_update_frame: "evo c (snd (window_update_frame now h payload c))"
  by (auto simp: window_update_frame_def Let_def split: option.splits)

lemma evo_rst_stream_frame: "evo c (snd (rst_stream_frame now h c))"
proof -
  let ?c1 = "map_recv (note_reset (fh_stream_id h)) (drop_receiving (fh_stream_id h) c)"
  have "evo c ?c1"
    by (rule evo_trans [OF evo_drop_receiving evo_map_recv]) (simp_all add: note_reset_def)
  then have "evo c (snd (and_then (abort_handler now (fh_stream_id h) ?c1) (\<lambda>c. (Some (ResetStream (fh_stream_id h)), c))))"
    by (intro evo_and_then) (auto intro: evo_trans [OF _ evo_abort])
  then show ?thesis by (simp add: rst_stream_frame_def Let_def)
qed

lemma evo_apply_settings:
  "case apply_settings ps (delta, hts, c) of Inl out \<Rightarrow> evo c (snd out) | Inr (delta', hts', c') \<Rightarrow> evo c c'"
proof (induction ps arbitrary: delta hts c)
  case (Cons p ps)
  obtain i v where p: "p = (i, v)" by (metis surj_pair)
  show ?case
  proof (cases "apply_setting p (delta, hts, c)")
    case (Inl out)
    then show ?thesis by (auto simp: apply_setting_def p split: if_splits)
  next
    case (Inr s)
    obtain d' t' c' where s: "s = (d', t', c')" by (metis prod_cases3)
    have "evo c c'"
      using Inr by (intro evo_quiet) (auto simp: apply_setting_def p s stream_ids_def split: if_splits)
    then show ?thesis
      using Cons.IH [where delta = d' and hts = t' and c = c'] Inr by (auto simp: s split: sum.splits elim: evo_trans)
  qed
qed simp

lemma evo_settings_frame: "evo c (snd (settings_frame h payload c))"
proof -
  have "evo c (snd out)" if "apply_settings ps (0, None, c) = Inl out" for ps out
    using evo_apply_settings [where ps = ps and delta = 0 and hts = None and c = c] that by simp
  moreover have "evo c d" if "apply_settings ps (0, None, c) = Inr (x, y, c1)"
      "c_streams d = c_streams c1" "c_inflight d = c_inflight c1" "c_inflight_sids d = c_inflight_sids c1" "c_cancelled d = c_cancelled c1"
      "c_recv d = c_recv c1" for ps x y c1 d
    using evo_apply_settings [where ps = ps and delta = 0 and hts = None and c = c] that
    by (auto intro!: evo_trans [of c c1 d] evo_quiet simp: stream_ids_def)
  ultimately show ?thesis
    by (auto simp: settings_frame_def Let_def split: option.splits sum.splits)
qed

text \<open>How a frame changes the streams of a connection. The highest stream id only grows, the last
  stream announced in a GOAWAY never grows, a stream that left the table does not come back (a new
  stream has an id above every earlier one), and the requests the frame dispatches are appended to the
  handlers: each is a stream that was in the table or is new, at most once, and it has left the table.\<close>

lemma process_frame_evolves:
  assumes "ids_ok c" "process_frame lib now outstreams_len accept h payload c = (out, c')"
  shows "ids_ok c'" "\<exists>new. evolves c new c'"
proof -
  let ?s = "and_then (frame_checks h c) (frame_arm lib now outstreams_len accept h payload)"
  have arm: "evo d (snd (frame_arm lib now outstreams_len accept h payload d))" for d
    by (auto simp: frame_arm_def ping_frame_def goaway_frame_def priority_frame_def evo_settings_frame
        evo_window_update_frame evo_headers_frame evo_continuation_frame evo_data_frame evo_rst_stream_frame)
  have tick: "evo c (tick c)"
    by (rule evo_quiet) (auto simp: tick_def intro: goaway_mono_eq)
  have "evo c (snd ?s)"
  proof (cases rule: frame_checks_cases [of h c])
    case (stop code d)
    have "evo c (snd (frame_checks h c))" using stop tick by (auto intro: evo_goaway_after)
    then show ?thesis by (rule evo_and_then) (rule arm)
  next
    case pass
    then show ?thesis using evo_trans [OF tick arm] by simp
  qed
  moreover have "c' = snd ?s"
    using assms(2) by (auto simp: process_frame_def split: prod.splits option.splits)
  ultimately show "ids_ok c'" "\<exists>new. evolves c new c'" using assms(1) by (simp_all add: evo_def)
qed

section \<open>Streams that await a response\<close>

text \<open>A stream awaits its response while its request arrives and while its handler runs; a stream whose
  header block is being discarded awaits its reset. It stops only by a reset that the outcome of the
  frame names, or with the connection.\<close>

definition discarding_ids :: "recv \<Rightarrow> u32 set" where
  "discarding_ids r = (if r_discarding_header_block r then set_option (r_open_header_block r) else {})"

definition awaiting :: "'h conn \<Rightarrow> u32 set" where
  "awaiting c = stream_ids c \<union> c_inflight_sids c \<union> discarding_ids (c_recv c)"

definition keeps :: "'h conn \<Rightarrow> 'h step \<Rightarrow> bool" where
  "keeps c s \<longleftrightarrow>
     (\<forall>i \<in> awaiting c. i \<in> awaiting (snd s) \<or> fst s = Some (ResetStream i) \<or> fst s = Some StopReading)"

lemma keeps_same: "awaiting c \<subseteq> awaiting (snd s) \<Longrightarrow> keeps c s"
  by (auto simp: keeps_def)

lemma keeps_None: "keeps c (None, d) \<longleftrightarrow> awaiting c \<subseteq> awaiting d"
  by (auto simp: keeps_def)

lemma keeps_goaway [simp]: "keeps c (goaway code d)"
  by (simp add: keeps_def)

lemma keeps_after: "awaiting c \<subseteq> awaiting d \<Longrightarrow> keeps d s \<Longrightarrow> keeps c s"
  unfolding keeps_def by blast

lemma keeps_and_then:
  "keeps c s \<Longrightarrow> (\<And>c'. s = (None, c') \<Longrightarrow> keeps c' (f c')) \<Longrightarrow> keeps c (and_then s f)"
  by (cases s; cases "fst s") (auto simp: and_then_def keeps_None intro: keeps_after)

lemma discarding_core: "recv_core r' = recv_core r \<Longrightarrow> discarding_ids r' = discarding_ids r"
  using recv_core_eqD(3,4) [of r' r] by (simp add: discarding_ids_def)

lemma discarding_updates [simp]:
  "discarding_ids (r\<lparr>r_no_progress_frames := n\<rparr>) = discarding_ids r"
  "discarding_ids (r\<lparr>r_header_count_hint := n\<rparr>) = discarding_ids r"
  "discarding_ids (r\<lparr>r_conn_recv_window := w\<rparr>) = discarding_ids r"
  "discarding_ids (r\<lparr>r_total_buffered := n\<rparr>) = discarding_ids r"
  "discarding_ids (r\<lparr>r_pending_header_bytes := n\<rparr>) = discarding_ids r"
  "discarding_ids (r\<lparr>r_last_client_stream := i\<rparr>) = discarding_ids r"
  "discarding_ids (release_stream st r) = discarding_ids r"
  "discarding_ids (note_reset sid r) = discarding_ids r"
  by (simp_all add: discarding_ids_def release_stream_def note_reset_def)

lemma discarding_drop_receiving [simp]: "discarding_ids (c_recv (drop_receiving sid c)) = discarding_ids (c_recv c)"
  by (rule discarding_core) simp

lemma awaiting_rst: "awaiting d - {sid} \<subseteq> awaiting (snd (rst now sid code d))"
proof -
  let ?d = "teardown_receiving sid (out_frames (\<lambda>b. write_rst_stream b sid code) d)"
  have eq: "snd (rst now sid code d) = snd (abort_handler now sid ?d)"
    by (simp add: rst_def Let_def) (rule and_then_cases; simp)
  have "stream_ids ?d = stream_ids d - {sid}" "c_inflight_sids ?d = c_inflight_sids d"
    by (simp_all add: teardown_receiving_def Let_def)
  moreover have "discarding_ids (c_recv (snd (rst now sid code d))) = discarding_ids (c_recv d)"
    using rst_only_drops [of sid d now code] by (intro discarding_core) (simp add: only_drops_def)
  ultimately show ?thesis
    unfolding eq by (auto simp: awaiting_def abort_handler_result stream_ids_def)
qed

lemma keeps_rst:
  assumes "awaiting c - {sid} \<subseteq> awaiting d"
  shows "keeps c (rst now sid code d)"
  using assms awaiting_rst [of d sid now code] rst_outcome [of now sid code d] by (auto simp: keeps_def)

lemma keeps_rst_same [simp]: "keeps c (rst now sid code c)"
  by (rule keeps_rst) auto

lemma awaiting_simps [simp]:
  "discarding_ids (f (c_recv c)) = discarding_ids (c_recv c) \<Longrightarrow> awaiting (map_recv f c) = awaiting c"
  "awaiting (out_frames g c) = awaiting c"
  "awaiting (drop_state st c) = awaiting c" "awaiting (put_stream sid st c) = insert sid (awaiting c)"
  "awaiting (c\<lparr>c_dec := d\<rparr>) = awaiting c" "awaiting (c\<lparr>c_body_budget := b\<rparr>) = awaiting c"
  by (auto simp: awaiting_def)

lemma awaiting_remove: "awaiting c - {sid} \<subseteq> awaiting (remove_stream sid c)"
  "awaiting c - {sid} \<subseteq> awaiting (drop_receiving sid c)"
  by (auto simp: awaiting_def)

lemma awaiting_encode: "encode_fields hs c = (block, c') \<Longrightarrow> awaiting c' = awaiting c"
  by (auto simp: encode_fields_def awaiting_def stream_ids_def split: prod.splits)

lemma keeps_reject_too_large:
  assumes "awaiting c - {sid} \<subseteq> awaiting d"
  shows "keeps c (reject_too_large now sid status client_open d)"
proof -
  obtain block c1 where e: "encode_fields [(str_bytes '':status'', status),
      (str_bytes ''content-length'', str_bytes ''0'')] d = (block, c1)" by (metis surj_pair)
  show ?thesis
    using awaiting_encode [OF e] assms awaiting_remove(2) [of c1 sid]
    by (auto simp: reject_too_large_def e Let_def intro!: keeps_rst) (auto simp: keeps_def awaiting_def)
qed

lemma keeps_reject_early: "keeps c (reject_early lib now sid c)"
  by (auto simp: reject_early_def Let_def keeps_None awaiting_encode split: option.splits prod.splits intro!: keeps_rst)

lemma admit_awaiting:
  assumes "admit_pending_headers st charge c = (ok, st', c')"
  shows "awaiting c' = awaiting c"
  using assms by (auto simp: admit_pending_headers_def Let_def
      split: if_splits option.splits prod.splits bool.splits)

lemma keeps_complete: "keeps c (complete lib now sid c)"
proof (cases "get_stream c sid")
  case None
  then show ?thesis by (simp add: complete_def keeps_None)
next
  case (Some st)
  define c1 where "c1 = map_recv (release_stream st) (map_recv (\<lambda>r. r\<lparr>r_no_progress_frames := 0\<rparr>) (remove_stream sid c))"
  define hint where "hint = min (hm_len lib (st_headers st) + (if st_authority st = None then 0 else 1))
                              HEADER_COUNT_HINT_MAX"
  define c2 where "c2 = map_recv (\<lambda>r. r\<lparr>r_header_count_hint := hint\<rparr>) c1"
  obtain rq bo where br: "build_request lib st (c_body_budget c2) = (rq, bo)" by (metis surj_pair)
  have aw: "awaiting c - {sid} \<subseteq> awaiting c1" "awaiting c - {sid} \<subseteq> awaiting c2"
    using awaiting_remove(1) [of c sid] by (simp_all add: c2_def c1_def)
  have "awaiting c \<subseteq> awaiting (c2\<lparr>c_body_budget := bo, c_inflight := c_inflight c2 @ [(sid, x)],
                  c_inflight_sids := insert sid (c_inflight_sids c2)\<rparr>)" for x
    using aw(2) by (auto simp: awaiting_def stream_ids_def)
  with aw show ?thesis
    unfolding complete_def Some option.case Let_def c1_def [symmetric] hint_def [symmetric] c2_def [symmetric] br
    by (cases rq) (auto intro!: keeps_rst simp: keeps_None)
qed

lemma keeps_header_block_decoded:
  assumes "get_stream c sid = Some st"
  shows "keeps c (header_block_decoded lib now sid dcd c)"
  using assms
proof (cases rule: header_block_decodedE [where lib = lib and now = now and dcd = dcd])
  case refused
  then show ?thesis using awaiting_remove(1) [of c sid] by (simp add: keeps_rst)
next
  case (early out c')
  then show ?thesis by (metis keeps_reject_early)
next
  case (no_memory st' c')
  then show ?thesis by (auto simp: admit_awaiting intro!: keeps_rst)
next
  case (admitted st' c')
  have "awaiting (maybe_send_100_continue lib st sid d) = awaiting d" for d :: "'a conn"
    by (auto simp: maybe_send_100_continue_def Let_def awaiting_def stream_ids_def split: prod.splits)
  then show ?thesis using admitted by (auto simp: keeps_None admit_awaiting)
next
  case malformed
  then show ?thesis using awaiting_remove(2) [of c sid] by (simp add: keeps_rst)
qed (auto simp: keeps_complete intro!: keeps_reject_too_large)

lemma keeps_discard_headers:
  assumes "discarding_ids (c_recv c) = {}"
  shows "keeps c (discard_headers now h payload code drop_first c)"
proof -
  have discarding_new: "discarding_ids (r\<lparr>r_discard_header_block := block, r_discarding_header_block := True,
      r_discard_rst_code := code, r_open_header_block := Some sid\<rparr>) = {sid}" for r block sid
    by (simp add: discarding_ids_def)
  have open': "awaiting c \<subseteq> awaiting (map_recv (\<lambda>r. r\<lparr>r_discard_header_block := block, r_discarding_header_block := True,
      r_discard_rst_code := code, r_open_header_block := Some (fh_stream_id h)\<rparr>) d)"
    if "d = c \<or> d = drop_receiving (fh_stream_id h) c" for d block
    using that assms by (auto simp: awaiting_def discarding_new)
  show ?thesis
    using awaiting_remove(2) [of c "fh_stream_id h"]
    by (auto simp: discard_headers_def Let_def split: option.splits prod.splits
        intro!: keeps_rst keeps_same [of c "(Some Continue, d)" for d, simplified] open')
qed

lemma keeps_open_headers:
  assumes "discarding_ids (c_recv c) = {}"
  shows "keeps c (open_headers lib now n accept opens h payload c)"
proof (cases "headers_block (fh_flags h) payload")
  case None
  then show ?thesis by (simp add: open_headers_def Let_def)
next
  case (Some block)
  define sid where "sid = fh_stream_id h"
  define st0 where "st0 = (case get_stream c sid of Some st \<Rightarrow> st
    | None \<Rightarrow> stream_new (hm_new lib) (r_our_initial_window (c_recv c)))"
  define st1 where "st1 = (if opens \<and> (\<not> accept \<or>
    length (c_streams c) + length (c_inflight c) + n \<ge> r_max_concurrent (c_recv c))
    then st0\<lparr>st_refused := True\<rparr> else st0)"
  define st2 where "st2 = (if flag_set (fh_flags h) flag_END_STREAM then st1\<lparr>st_end_stream := True\<rparr> else st1)"
  define c1 where "c1 = put_stream sid st1 c"
  define c2 where "c2 = map_recv (\<lambda>r. r\<lparr>r_open_header_block := None\<rparr>) c1"
  define D where "D = (if st_header_block st2 = [] then decode_block_from lib (c_dec c2) st2 block
    else decode_block lib (c_dec c2) (st2\<lparr>st_header_block := st_header_block st2 @ block\<rparr>))"
  obtain dcd d st3 where D: "D = (dcd, d, st3)" by (metis prod_cases3)
  have c1: "awaiting c \<subseteq> awaiting c1" "awaiting c \<subseteq> awaiting (map_recv f (put_stream sid st c1))" for f st
    using assms by (auto simp: c1_def awaiting_def)
  have "awaiting c \<subseteq> awaiting (put_stream sid st3 (c2\<lparr>c_dec := d\<rparr>))"
    using assms by (auto simp: c1_def c2_def awaiting_def)
  then have "keeps c (header_block_decoded lib now sid dcd (put_stream sid st3 (c2\<lparr>c_dec := d\<rparr>)))"
    by (rule keeps_after) (rule keeps_header_block_decoded, simp)
  with c1 show ?thesis
    unfolding open_headers_def Let_def sid_def [symmetric] Some option.case st0_def [symmetric]
      st1_def [symmetric] st2_def [symmetric] c1_def [symmetric] c2_def [symmetric] D_def [symmetric] D prod.case
    by (simp add: keeps_None)
qed

lemma keeps_headers_frame:
  assumes "discarding_ids (c_recv c) = {}"
  shows "keeps c (headers_frame lib now n accept h payload c)"
proof -
  define sid where "sid = fh_stream_id h"
  define c1 where "c1 = (if get_stream c sid = None then map_recv (\<lambda>r. r\<lparr>r_last_client_stream := sid\<rparr>) c else c)"
  have c1: "discarding_ids (c_recv c1) = {}" "awaiting c \<subseteq> awaiting c1" using assms by (simp_all add: c1_def)
  note arms = keeps_after [OF c1(2) keeps_open_headers [OF c1(1)]] keeps_after [OF c1(2) keeps_discard_headers [OF c1(1)]]
  show ?thesis
    unfolding headers_frame_def Let_def sid_def [symmetric] c1_def [symmetric]
    by (simp add: keeps_discard_headers [OF assms] arms)
qed

lemma keeps_continuation_frame:
  assumes "\<And>op. r_open_header_block (c_recv c) = Some op \<Longrightarrow> op = fh_stream_id h"
  shows "keeps c (continuation_frame lib now h payload c)"
proof -
  have disc: "discarding_ids (c_recv c) \<subseteq> {fh_stream_id h}"
    using assms by (auto simp: discarding_ids_def split: if_splits)
  have dec: "keeps c (header_block_decoded lib now sid dcd (put_stream sid st
      (map_recv (\<lambda>r. r\<lparr>r_open_header_block := None\<rparr>) (c\<lparr>c_dec := d\<rparr>))))"
    if "\<not> r_discarding_header_block (c_recv c)" for sid dcd d st
    using that by (intro keeps_after [OF _ keeps_header_block_decoded]) (auto simp: awaiting_def discarding_ids_def)
  have end': "awaiting c - {fh_stream_id h} \<subseteq> awaiting (map_recv f (map_recv g (c\<lparr>c_dec := d\<rparr>)))" for f g d
    using disc by (auto simp: awaiting_def)
  show ?thesis
    unfolding continuation_frame_def Let_def
    by (auto split: option.splits prod.splits simp: keeps_None discarding_ids_def
        intro!: keeps_rst dec end' keeps_same [of c "(Some Continue, d)" for d, simplified])
qed

lemma keeps_conn_flow: "keeps c (conn_flow flow c)"
  by (auto simp: conn_flow_def Let_def keeps_None)

lemma awaiting_reserve: "reserve_body n st c = (ok, st', c') \<Longrightarrow> awaiting c' = awaiting c"
  by (auto simp: reserve_body_def Let_def split: option.splits prod.splits)

lemma keeps_buffer_data: "keeps c (buffer_data lib now h data st c)"
proof -
  define c0 where "c0 = (if data = [] then c else map_recv (\<lambda>r. r\<lparr>r_no_progress_frames := 0\<rparr>) c)"
  obtain ok st1 c1 where r: "reserve_body (length data) st c0 = (ok, st1, c1)" by (metis prod_cases3)
  have c1: "awaiting c1 = awaiting c" using awaiting_reserve [OF r] by (simp add: c0_def)
  have fin: "keeps c (complete lib now sid d)" if "awaiting c \<subseteq> awaiting d" for sid d
    by (rule keeps_after [OF that keeps_complete])
  show ?thesis
    unfolding buffer_data_def Let_def c0_def [symmetric] r prod.case
    by (auto simp: keeps_None c1 intro!: keeps_rst fin)
qed

lemma keeps_data_frame: "keeps c (data_frame lib now h payload c)"
proof -
  have buf: "keeps c (buffer_data lib now h data st (put_stream sid st' c))" for c data st sid st'
    by (rule keeps_after [OF _ keeps_buffer_data]) auto
  have drop: "awaiting c - {sid} \<subseteq> awaiting (drop_receiving sid (put_stream sid st c))" for c :: "'a conn" and sid st
    using awaiting_remove(2) [of "put_stream sid st c" sid] by auto
  show ?thesis
    unfolding data_frame_def Let_def
    by (auto split: option.splits simp: keeps_same
        intro!: keeps_and_then keeps_conn_flow keeps_rst keeps_reject_too_large buf drop)
qed

lemma awaiting_apply_setting:
  "apply_setting p (delta, hts, c) = Inr (delta', hts', c') \<Longrightarrow> awaiting c' = awaiting c"
  by (cases p) (auto simp: apply_setting_def awaiting_def stream_ids_def split: if_splits)

lemma awaiting_apply_settings:
  "case apply_settings ps (delta, hts, c) of
     Inl out \<Rightarrow> fst out = Some StopReading | Inr (delta', hts', c') \<Rightarrow> awaiting c' = awaiting c"
proof (induction ps arbitrary: delta hts c)
  case (Cons p ps)
  show ?case
  proof (cases "apply_setting p (delta, hts, c)")
    case (Inl out)
    then show ?thesis by (cases p) (auto simp: apply_setting_def split: if_splits)
  next
    case (Inr s)
    obtain d' t' c' where s: "s = (d', t', c')" by (metis prod_cases3)
    show ?thesis
      using Cons.IH [where delta = d' and hts = t' and c = c'] Inr awaiting_apply_setting [OF Inr [unfolded s]]
      by (auto simp: s split: sum.splits)
  qed
qed simp

lemma keeps_settings_frame: "keeps c (settings_frame h payload c)"
proof -
  have "keeps c out" if "apply_settings ps (0, None, c) = Inl out" for ps out
    using awaiting_apply_settings [where ps = ps and delta = 0 and hts = None and c = c] that by (simp add: keeps_def)
  moreover have "awaiting c = awaiting c1" if "apply_settings ps (0, None, c) = Inr (x, y, c1)" for ps x y c1
    using awaiting_apply_settings [where ps = ps and delta = 0 and hts = None and c = c] that by simp
  moreover have "awaiting (c\<lparr>c_peer := p, c_peer_settings_seen := q\<rparr>) = awaiting c" for c :: "'a conn" and p q
    by (simp add: awaiting_def stream_ids_def)
  ultimately show ?thesis
    by (auto simp: settings_frame_def Let_def keeps_same split: option.splits sum.splits)
qed

lemma keeps_rst_stream_frame: "keeps c (rst_stream_frame now h c)"
proof -
  define sid where "sid = fh_stream_id h"
  define c1 where "c1 = map_recv (note_reset sid) (drop_receiving sid c)"
  have "awaiting c - {sid} \<subseteq> awaiting c1" using awaiting_remove(2) [of c sid] by (simp add: c1_def)
  moreover have "discarding_ids (c_recv (snd (abort_handler now sid c1))) = discarding_ids (c_recv c1)"
    by (rule discarding_core) (rule abort_handler_result(8))
  ultimately have "awaiting c - {sid} \<subseteq> awaiting (snd (abort_handler now sid c1))"
    by (auto simp: awaiting_def abort_handler_result stream_ids_def)
  moreover have "fst (abort_handler now sid c1) \<in> {None, Some StopReading}" by (rule abort_handler_result(1))
  ultimately have "keeps c (and_then (abort_handler now sid c1) (\<lambda>c. (Some (ResetStream sid), c)))"
    by (cases "abort_handler now sid c1") (auto simp: keeps_def and_then_def split: option.splits)
  then show ?thesis by (simp add: rst_stream_frame_def Let_def sid_def [symmetric] c1_def [symmetric])
qed

lemma keeps_other_frames:
  "keeps c (ping_frame h payload c)" "keeps c (goaway_frame payload c)" "keeps c (priority_frame now h payload c)"
  "keeps c (window_update_frame now h payload c)" "keeps c (None, c)"
  by (auto simp: ping_frame_def goaway_frame_def priority_frame_def window_update_frame_def Let_def keeps_same
      split: option.splits)

lemma process_frame_keeps:
  assumes "process_frame lib now n accept h payload c = (out, c')"
    "out \<noteq> StopReading" "i \<in> awaiting c" "out \<noteq> ResetStream i"
  shows "i \<in> awaiting c'"
proof -
  let ?s = "and_then (frame_checks h c) (frame_arm lib now n accept h payload)"
  have "keeps c ?s"
  proof (cases rule: frame_checks_cases [of h c])
    case (stop code d)
    then show ?thesis using keeps_and_then [of c "frame_checks h c"] by (metis goaway_not_None keeps_goaway)
  next
    case pass
    have "awaiting (tick c) = awaiting c" by (simp add: tick_def awaiting_def discarding_ids_def)
    moreover have "keeps (tick c) (frame_arm lib now n accept h payload (tick c))"
    proof (cases "fh_kind h = kind_CONTINUATION")
      case True
      have "keeps (tick c) (continuation_frame lib now h payload (tick c))"
        by (rule keeps_continuation_frame) (simp add: pass(4) tick_def)
      then show ?thesis using True by (simp add: frame_arm_def h2_consts)
    next
      case False
      then have "discarding_ids (c_recv (tick c)) = {}"
        using pass(3) by (simp add: discarding_ids_def tick_def)
      then show ?thesis using False
        by (simp add: frame_arm_def keeps_other_frames keeps_settings_frame keeps_headers_frame keeps_data_frame
            keeps_rst_stream_frame)
    qed
    ultimately show ?thesis using pass(1) by (simp add: keeps_def)
  qed
  moreover obtain o' c'' where s: "?s = (o', c'')" by (metis surj_pair)
  moreover have "c'' = c'" "out = (case o' of None \<Rightarrow> Continue | Some x \<Rightarrow> x)"
    using assms(1) s by (cases o'; simp add: process_frame_def)+
  ultimately show ?thesis using assms(2-4) by (cases o') (auto simp: keeps_def)
qed

end
