(* ===== verification/Out_Queue.thy ===== *)
theory Out_Queue
  imports HJ_Prelude
begin

text \<open>
  The output side of a connection down to the socket: \<open>OutQueue\<close> with its vectored flush
  (\<open>hj-h2/src/server/mod.rs\<close>) and the owned vectors of \<open>hj-h2/src/owned_iovec.rs\<close>. A queue keeps small
  frames in one inline buffer and bodies by reference; its segments say in which order they go out.

  A socket is the list of octet counts it accepts, one per write; a write takes at most what is
  offered. \<open>write_all\<close> of a stream is the library's: it writes everything it is given. Pointers into an
  allocation are the index of the allocation and an offset.
\<close>

section \<open>The queue\<close>

datatype seg = Inline nat nat | Body bytes

record 'k out_queue =
  oq_inline :: bytes
  oq_segs :: "seg list"
  oq_completions :: "'k list"

datatype response_end = Complete | Error | Cancelled

primrec seg_bytes :: "bytes \<Rightarrow> seg \<Rightarrow> bytes" where
  "seg_bytes inl (Inline off len) = take len (drop off inl)"
| "seg_bytes inl (Body b) = b"

primrec seg_len :: "seg \<Rightarrow> nat" where
  "seg_len (Inline off len) = len"
| "seg_len (Body b) = length b"

definition oq_default :: "'k out_queue" where
  "oq_default = \<lparr>oq_inline = [], oq_segs = [], oq_completions = []\<rparr>"

definition oq_finish_responses :: "bool \<Rightarrow> 'k out_queue \<Rightarrow> ('k \<times> response_end) list \<times> 'k out_queue" where
  "oq_finish_responses success q =
     (if oq_completions q = [] then ([], q)
      else (map (\<lambda>k. (k, if success then Complete else Error)) (oq_completions q),
            q\<lparr>oq_completions := []\<rparr>))"

definition oq_is_empty :: "'k out_queue \<Rightarrow> bool" where
  "oq_is_empty q = (oq_segs q = [])"

definition oq_total_bytes :: "'k out_queue \<Rightarrow> nat" where
  "oq_total_bytes q = sum_list (map seg_len (oq_segs q))"

definition oq_frames :: "(bytes \<Rightarrow> bytes) \<Rightarrow> 'k out_queue \<Rightarrow> 'k out_queue" where
  "oq_frames f q =
     (let start = length (oq_inline q);
          inl = f (oq_inline q);
          len = length inl - start
      in q\<lparr>oq_inline := inl, oq_segs := (if len > 0 then oq_segs q @ [Inline start len] else oq_segs q)\<rparr>)"

definition oq_body :: "bytes \<Rightarrow> 'k out_queue \<Rightarrow> 'k out_queue" where
  "oq_body b q = (if b \<noteq> [] then q\<lparr>oq_segs := oq_segs q @ [Body b]\<rparr> else q)"

definition oq_clear :: "'k out_queue \<Rightarrow> 'k out_queue" where
  "oq_clear q = q\<lparr>oq_inline := [], oq_segs := []\<rparr>"

section \<open>Write loops\<close>

text \<open>How a loop of writes ends: everything was written, the socket accepted nothing, the buffer
  refused the count, or the socket has not accepted the rest yet.\<close>

datatype 'b write_end = Done 'b bytes | WriteZero bytes | Refused bytes | Waiting 'b bytes

text \<open>The loop both transports share: offer what is left, record what was accepted, advance.\<close>

fun drive :: "('b \<Rightarrow> bool) \<Rightarrow> ('b \<Rightarrow> bytes) \<Rightarrow> (nat \<Rightarrow> 'b \<Rightarrow> 'b option) \<Rightarrow> nat list \<Rightarrow> 'b \<Rightarrow> bytes \<Rightarrow> 'b write_end" where
  "drive emp left consume [] b sent = (if emp b then Done b sent else Waiting b sent)"
| "drive emp left consume (w # ws) b sent =
     (if emp b then Done b sent
      else let n = min w (length (left b)) in
        if n = 0 then WriteZero sent
        else case consume n b of
               None \<Rightarrow> Refused (sent @ take n (left b))
             | Some b' \<Rightarrow> drive emp left consume ws b' (sent @ take n (left b)))"

section \<open>IoSlice lists\<close>

text \<open>\<open>IoSlice::advance_slices\<close>; it panics when asked to advance past the end.\<close>

fun advance_slices :: "nat \<Rightarrow> bytes list \<Rightarrow> bytes list option" where
  "advance_slices n [] = (if n = 0 then Some [] else None)"
| "advance_slices n (b # bs) =
     (if length b \<le> n then advance_slices (n - length b) bs else Some (drop n b # bs))"

definition oq_slices :: "'k out_queue \<Rightarrow> bytes list" where
  "oq_slices q = map (seg_bytes (oq_inline q)) (oq_segs q)"

definition flush_inner :: "nat list \<Rightarrow> 'k out_queue \<Rightarrow> bytes list write_end \<times> 'k out_queue" where
  "flush_inner ws q =
     (if oq_is_empty q then (Done [] [], q)
      else case drive (\<lambda>bufs. bufs = []) concat advance_slices ws (oq_slices q) [] of
             Done b sent \<Rightarrow> (Done b sent, oq_clear q)
           | r \<Rightarrow> (r, q))"

text \<open>The outcome of \<open>flush\<close> is reported to the completions of the batch; while the socket has not
  accepted everything the future is still pending and nothing is reported.\<close>

definition flush ::
  "nat list \<Rightarrow> 'k out_queue \<Rightarrow> bytes list write_end \<times> ('k \<times> response_end) list \<times> 'k out_queue" where
  "flush ws q =
     (case flush_inner ws q of
        (Waiting b sent, q') \<Rightarrow> (Waiting b sent, [], q')
      | (r, q') \<Rightarrow>
          (case oq_finish_responses (case r of Done _ _ \<Rightarrow> True | _ \<Rightarrow> False) q' of
             (ends, q'') \<Rightarrow> (r, ends, q'')))"

section \<open>Owned vectors\<close>

record iovec_span =
  sp_backing :: nat
  sp_offset :: nat
  sp_len :: nat

record owned_iovec =
  oi_iovecs :: "iovec_span list"
  oi_backings :: "bytes list"
  oi_first :: nat
  oi_remaining :: nat

datatype iovec_error = PayloadTooLarge | BadIndex | RangeOverflow | RangeExceeds | ExceededQueued | MissingIovec

definition usize_checked_add :: "nat \<Rightarrow> nat \<Rightarrow> nat option" where
  "usize_checked_add a b = (if a + b \<le> usize_max then Some (a + b) else None)"

primrec iovecs_of_bytes :: "nat \<Rightarrow> bytes list \<Rightarrow> nat \<Rightarrow> iovec_error + (iovec_span list \<times> nat)" where
  "iovecs_of_bytes i [] remaining = Inr ([], remaining)"
| "iovecs_of_bytes i (b # bs) remaining =
     (if b = [] then iovecs_of_bytes (Suc i) bs remaining
      else case usize_checked_add remaining (length b) of
             None \<Rightarrow> Inl PayloadTooLarge
           | Some r \<Rightarrow>
               (case iovecs_of_bytes (Suc i) bs r of
                  Inl e \<Rightarrow> Inl e
                | Inr (vs, r') \<Rightarrow> Inr (\<lparr>sp_backing = i, sp_offset = 0, sp_len = length b\<rparr> # vs, r')))"

definition oiv_from_bytes :: "bytes list \<Rightarrow> iovec_error + owned_iovec" where
  "oiv_from_bytes backings =
     (case iovecs_of_bytes 0 backings 0 of
        Inl e \<Rightarrow> Inl e
      | Inr (vs, r) \<Rightarrow> Inr \<lparr>oi_iovecs = vs, oi_backings = backings, oi_first = 0, oi_remaining = r\<rparr>)"

primrec iovecs_of_spans :: "bytes list \<Rightarrow> iovec_span list \<Rightarrow> nat \<Rightarrow> iovec_error + (iovec_span list \<times> nat)" where
  "iovecs_of_spans backings [] remaining = Inr ([], remaining)"
| "iovecs_of_spans backings (s # ss) remaining =
     (if sp_len s = 0 then iovecs_of_spans backings ss remaining
      else case list_get backings (sp_backing s) of
        None \<Rightarrow> Inl BadIndex
      | Some backing \<Rightarrow>
          (case usize_checked_add (sp_offset s) (sp_len s) of
             None \<Rightarrow> Inl RangeOverflow
           | Some end_of \<Rightarrow>
               if end_of > length backing then Inl RangeExceeds
               else case usize_checked_add remaining (sp_len s) of
                 None \<Rightarrow> Inl PayloadTooLarge
               | Some r \<Rightarrow>
                   (case iovecs_of_spans backings ss r of
                      Inl e \<Rightarrow> Inl e
                    | Inr (vs, r') \<Rightarrow> Inr (s # vs, r'))))"

definition oiv_from_backings :: "bytes list \<Rightarrow> iovec_span list \<Rightarrow> iovec_error + owned_iovec" where
  "oiv_from_backings backings spans =
     (case iovecs_of_spans backings spans 0 of
        Inl e \<Rightarrow> Inl e
      | Inr (vs, r) \<Rightarrow> Inr \<lparr>oi_iovecs = vs, oi_backings = backings, oi_first = 0, oi_remaining = r\<rparr>)"

definition oiv_is_empty :: "owned_iovec \<Rightarrow> bool" where
  "oiv_is_empty v = (oi_remaining v = 0)"

definition span_bytes :: "bytes list \<Rightarrow> iovec_span \<Rightarrow> bytes" where
  "span_bytes backings s = take (sp_len s) (drop (sp_offset s) (backings ! sp_backing s))"

text \<open>What \<open>read_iovec_ptr\<close> and \<open>read_iovec_len\<close> offer to the kernel.\<close>

definition oiv_left :: "owned_iovec \<Rightarrow> bytes" where
  "oiv_left v = concat (map (span_bytes (oi_backings v)) (drop (oi_first v) (oi_iovecs v)))"

function consume_loop :: "nat \<Rightarrow> owned_iovec \<Rightarrow> iovec_error + owned_iovec" where
  "consume_loop written v =
     (if written = 0 then Inr v
      else if \<not> oi_first v < length (oi_iovecs v) then Inl MissingIovec
      else
        (let io = oi_iovecs v ! oi_first v;
             consumed = min written (sp_len io);
             io' = io\<lparr>sp_offset := sp_offset io + consumed, sp_len := sp_len io - consumed\<rparr>;
             v1 = v\<lparr>oi_iovecs := (oi_iovecs v)[oi_first v := io']\<rparr>
         in consume_loop (written - consumed)
              (if sp_len io' = 0 then v1\<lparr>oi_first := oi_first v + 1\<rparr> else v1)))"
  by pat_completeness auto
termination
  by (relation "measures [\<lambda>(written, v). length (oi_iovecs v) - oi_first v, \<lambda>(written, v). written]")
    (auto simp: Let_def)

declare consume_loop.simps [simp del]

definition oiv_consume :: "nat \<Rightarrow> owned_iovec \<Rightarrow> iovec_error + owned_iovec" where
  "oiv_consume written v =
     (if written > oi_remaining v then Inl ExceededQueued
      else consume_loop written (v\<lparr>oi_remaining := oi_remaining v - written\<rparr>))"

definition sum_option :: "'e + 'a \<Rightarrow> 'a option" where
  "sum_option r = (case r of Inl _ \<Rightarrow> None | Inr x \<Rightarrow> Some x)"

definition write_all_owned :: "nat list \<Rightarrow> owned_iovec \<Rightarrow> owned_iovec write_end" where
  "write_all_owned ws v = drive oiv_is_empty oiv_left (\<lambda>n v. sum_option (oiv_consume n v)) ws v []"

section \<open>The monoio flush\<close>

text \<open>The part of the queue behind the octets one \<open>writev\<close> accepted on a kTLS socket.\<close>

fun ktls_rest :: "bytes \<Rightarrow> seg list \<Rightarrow> nat \<Rightarrow> bytes" where
  "ktls_rest inl [] skip = []"
| "ktls_rest inl (s # ss) skip =
     (let b = seg_bytes inl s
      in if skip \<ge> length b then ktls_rest inl ss (skip - length b)
         else drop skip b @ ktls_rest inl ss 0)"

definition ktls_flush :: "int \<Rightarrow> 'k out_queue \<Rightarrow> bytes" where
  "ktls_flush n q =
     (let total = oq_total_bytes q;
          written = (if n \<ge> 0 then nat n else 0)
      in take written (concat (oq_slices q)) @
         (if written < total then ktls_rest (oq_inline q) (oq_segs q) written else []))"

text \<open>The backing allocations and spans of the vectored write: backing 0 is the inline buffer.\<close>

fun owned_parts :: "seg list \<Rightarrow> bytes list \<Rightarrow> iovec_span list \<Rightarrow> bytes list \<times> iovec_span list" where
  "owned_parts [] backings spans = (backings, spans)"
| "owned_parts (Inline offset len # ss) backings spans =
     owned_parts ss backings (spans @ [\<lparr>sp_backing = 0, sp_offset = offset, sp_len = len\<rparr>])"
| "owned_parts (Body b # ss) backings spans =
     owned_parts ss (backings @ [b])
       (spans @ [\<lparr>sp_backing = length backings, sp_offset = 0, sp_len = length b\<rparr>])"

definition FLUSH_CAP :: nat where
  "FLUSH_CAP = 256 * 1024"

text \<open>The batches of the coalescing fallback.\<close>

fun coalesce_batches :: "bytes \<Rightarrow> seg list \<Rightarrow> bytes \<Rightarrow> bytes list" where
  "coalesce_batches inl [] pending = (if pending \<noteq> [] then [pending] else [])"
| "coalesce_batches inl (s # ss) pending =
     (let p = pending @ seg_bytes inl s
      in if length p \<ge> FLUSH_CAP then p # coalesce_batches inl ss [] else coalesce_batches inl ss p)"

definition monoio_flush_inner :: "bool \<Rightarrow> int \<Rightarrow> nat list \<Rightarrow> 'k out_queue \<Rightarrow> bytes option" where
  "monoio_flush_inner ktls n ws q =
     (if oq_is_empty q then Some []
      else if ktls \<and> length (oq_segs q) \<le> 1024 then Some (ktls_flush n q)
      else if length (oq_segs q) \<le> 1024 then
        (case owned_parts (oq_segs q) [oq_inline q] [] of
           (backings, spans) \<Rightarrow>
             (case oiv_from_backings backings spans of
                Inl e \<Rightarrow> None
              | Inr buffer \<Rightarrow>
                  (case write_all_owned ws buffer of Done _ sent \<Rightarrow> Some sent | _ \<Rightarrow> None)))
      else Some (concat (coalesce_batches (oq_inline q) (oq_segs q) [])))"

section \<open>What a queue stands for\<close>

definition seg_ok :: "bytes \<Rightarrow> seg \<Rightarrow> bool" where
  "seg_ok inl s = (case s of Inline off len \<Rightarrow> 0 < len \<and> off + len \<le> length inl | Body b \<Rightarrow> b \<noteq> [])"

definition oq_ok :: "'k out_queue \<Rightarrow> bool" where
  "oq_ok q = (\<forall>s \<in> set (oq_segs q). seg_ok (oq_inline q) s)"

definition oq_wire :: "'k out_queue \<Rightarrow> bytes" where
  "oq_wire q = concat (oq_slices q)"

text \<open>The closures passed to \<open>OutQueue::frames\<close> append octets that do not depend on the buffer.\<close>

definition frame_writer :: "(bytes \<Rightarrow> bytes) \<Rightarrow> bool" where
  "frame_writer f = (\<forall>b. f b = b @ f [])"

lemma frame_writerD: "frame_writer f \<Longrightarrow> f b = b @ f []"
  unfolding frame_writer_def by blast

datatype oq_op = QFrames "bytes \<Rightarrow> bytes" | QBody bytes

primrec oq_apply :: "oq_op \<Rightarrow> 'k out_queue \<Rightarrow> 'k out_queue" where
  "oq_apply (QFrames f) = oq_frames f"
| "oq_apply (QBody b) = oq_body b"

primrec op_bytes :: "oq_op \<Rightarrow> bytes" where
  "op_bytes (QFrames f) = f []"
| "op_bytes (QBody b) = b"

primrec op_ok :: "oq_op \<Rightarrow> bool" where
  "op_ok (QFrames f) = frame_writer f"
| "op_ok (QBody b) = True"

lemma seg_bytes_ok: "seg_ok inl s \<Longrightarrow> seg_bytes inl s \<noteq> [] \<and> length (seg_bytes inl s) = seg_len s"
  by (cases s) (auto simp: seg_ok_def)

lemma seg_append: "seg_ok inl s \<Longrightarrow> seg_ok (inl @ x) s \<and> seg_bytes (inl @ x) s = seg_bytes inl s"
  by (cases s) (auto simp: seg_ok_def)

lemma oq_frames_ok:
  assumes "oq_ok q" "frame_writer f"
  shows "oq_ok (oq_frames f q) \<and> oq_wire (oq_frames f q) = oq_wire q @ f []"
proof -
  have f: "f (oq_inline q) = oq_inline q @ f []" by (rule frame_writerD [OF assms(2)])
  have eq: "concat (map (seg_bytes (oq_inline q @ f [])) (oq_segs q)) = concat (map (seg_bytes (oq_inline q)) (oq_segs q))"
    using assms(1) seg_append by (intro arg_cong [where f = concat]) (auto simp: oq_ok_def)
  have "\<forall>s \<in> set (oq_segs q). seg_ok (oq_inline q @ f []) s"
    using assms(1) seg_append by (auto simp: oq_ok_def)
  then show ?thesis
    using f eq by (auto simp: oq_frames_def oq_ok_def oq_wire_def oq_slices_def Let_def seg_ok_def)
qed

lemma oq_body_ok: "oq_ok q \<Longrightarrow> oq_ok (oq_body b q) \<and> oq_wire (oq_body b q) = oq_wire q @ b"
  by (auto simp: oq_body_def oq_ok_def oq_wire_def oq_slices_def seg_ok_def split: seg.splits)

lemma oq_apply_ok: "oq_ok q \<Longrightarrow> op_ok op \<Longrightarrow> oq_ok (oq_apply op q) \<and> oq_wire (oq_apply op q) = oq_wire q @ op_bytes op"
  by (cases op) (simp_all add: oq_frames_ok oq_body_ok)

lemma oq_fold_ok:
  "oq_ok q \<Longrightarrow> list_all op_ok ops \<Longrightarrow>
     oq_ok (fold oq_apply ops q) \<and> oq_wire (fold oq_apply ops q) = oq_wire q @ concat (map op_bytes ops)"
proof (induction ops arbitrary: q)
  case (Cons op ops)
  then have "oq_ok (oq_apply op q) \<and> oq_wire (oq_apply op q) = oq_wire q @ op_bytes op"
    using oq_apply_ok by auto
  then show ?case using Cons by simp
qed simp

lemma oq_default_ok [simp]: "oq_ok oq_default" "oq_wire oq_default = []"
  by (simp_all add: oq_ok_def oq_default_def oq_wire_def oq_slices_def)

lemma length_concat_sum: "length (concat xss) = sum_list (map length xss)"
  by (induction xss) simp_all

lemma oq_total: "oq_ok q \<Longrightarrow> oq_total_bytes q = length (oq_wire q)"
  using seg_bytes_ok
  by (auto simp: oq_total_bytes_def oq_wire_def oq_slices_def oq_ok_def length_concat_sum
      intro!: arg_cong [where f = sum_list])

section \<open>Every write loop delivers what was offered\<close>

text \<open>A buffer for vectored writes: what is left of it, and how accepted octets are taken off.\<close>

locale vectored_buffer =
  fixes inv :: "'b \<Rightarrow> bool" and emp :: "'b \<Rightarrow> bool" and left :: "'b \<Rightarrow> bytes"
    and consume :: "nat \<Rightarrow> 'b \<Rightarrow> 'b option"
  assumes emp_iff: "inv b \<Longrightarrow> emp b \<longleftrightarrow> left b = []"
    and consume_left: "inv b \<Longrightarrow> n \<le> length (left b) \<Longrightarrow>
          \<exists>b'. consume n b = Some b' \<and> inv b' \<and> left b' = drop n (left b)"
begin

text \<open>What was accepted is always a prefix, in order, and nothing is refused.\<close>

lemma drive_prefix:
  "inv b \<Longrightarrow>
     (case drive emp left consume ws b sent of
        Done b' s \<Rightarrow> inv b' \<and> left b' = [] \<and> s = sent @ left b
      | Waiting b' s \<Rightarrow> inv b' \<and> s @ left b' = sent @ left b
      | WriteZero s \<Rightarrow> (\<exists>rest. s @ rest = sent @ left b) \<and> 0 \<in> set ws
      | Refused s \<Rightarrow> False)"
proof (induction ws arbitrary: b sent)
  case Nil
  then show ?case using emp_iff by simp
next
  case (Cons w ws)
  define n where "n = min w (length (left b))"
  obtain b' where b': "consume n b = Some b'" "inv b'" "left b' = drop n (left b)"
    using consume_left [OF Cons.prems, of n] by (auto simp: n_def)
  have IH: "case drive emp left consume ws b' (sent @ take n (left b)) of
        Done b' s \<Rightarrow> inv b' \<and> left b' = [] \<and> s = sent @ left b
      | Waiting b' s \<Rightarrow> inv b' \<and> s @ left b' = sent @ left b
      | WriteZero s \<Rightarrow> (\<exists>rest. s @ rest = sent @ left b) \<and> 0 \<in> set ws
      | Refused s \<Rightarrow> False"
    using Cons.IH [OF b'(2), of "sent @ take n (left b)"] b'(3) by (simp split: write_end.splits)
  consider "emp b" | "\<not> emp b" "n = 0" | "\<not> emp b" "n \<noteq> 0" by blast
  then show ?case
  proof cases
    case 1
    then show ?thesis using emp_iff [OF Cons.prems] Cons.prems by simp
  next
    case 2
    then have "w = 0" using emp_iff [OF Cons.prems] by (auto simp: n_def min_def split: if_splits)
    then show ?thesis using 2 by (simp add: n_def)
  next
    case 3
    then have "drive emp left consume (w # ws) b sent = drive emp left consume ws b' (sent @ take n (left b))"
      using b'(1) by (simp add: n_def [symmetric])
    then show ?thesis using IH by (auto split: write_end.splits)
  qed
qed

text \<open>A socket that keeps accepting ends the loop.\<close>

lemma drive_done:
  "inv b \<Longrightarrow> 0 \<notin> set ws \<Longrightarrow> length (left b) \<le> sum_list ws \<Longrightarrow>
     \<exists>b'. drive emp left consume ws b sent = Done b' (sent @ left b) \<and> inv b' \<and> left b' = []"
proof (induction ws arbitrary: b sent)
  case Nil
  then show ?case using emp_iff by simp
next
  case (Cons w ws)
  define n where "n = min w (length (left b))"
  obtain b' where b': "consume n b = Some b'" "inv b'" "left b' = drop n (left b)"
    using consume_left [OF Cons.prems(1), of n] by (auto simp: n_def)
  show ?case
  proof (cases "emp b")
    case True
    then show ?thesis using emp_iff [OF Cons.prems(1)] Cons.prems(1) by simp
  next
    case False
    then have "n \<noteq> 0" using emp_iff [OF Cons.prems(1)] Cons.prems(2) by (auto simp: n_def)
    moreover have "length (left b') \<le> sum_list ws" using b'(3) Cons.prems(3) by (simp add: n_def)
    ultimately show ?thesis
      using Cons.IH [OF b'(2), of "sent @ take n (left b)"] Cons.prems(2) b' False
      by (simp add: n_def [symmetric])
  qed
qed

end

subsection \<open>IoSlice lists\<close>

lemma advance_slices_drop:
  "n \<le> length (concat bufs) \<Longrightarrow> [] \<notin> set bufs \<Longrightarrow>
     \<exists>bufs'. advance_slices n bufs = Some bufs' \<and> [] \<notin> set bufs' \<and> concat bufs' = drop n (concat bufs)"
  by (induction n bufs rule: advance_slices.induct) auto

interpretation io_slices: vectored_buffer "\<lambda>bufs. [] \<notin> set bufs" "\<lambda>bufs. bufs = []" concat advance_slices
proof
  fix b :: "bytes list" and n :: nat
  assume "[] \<notin> set b"
  then show "(b = []) = (concat b = [])" by (cases b) auto
  show "\<exists>b'. advance_slices n b = Some b' \<and> [] \<notin> set b' \<and> concat b' = drop n (concat b)"
    if "n \<le> length (concat b)" using advance_slices_drop [OF that] \<open>[] \<notin> set b\<close> by blast
qed

lemma oq_slices_ok: "oq_ok q \<Longrightarrow> [] \<notin> set (oq_slices q)"
  using seg_bytes_ok by (force simp: oq_ok_def oq_slices_def)

subsection \<open>Owned vectors\<close>

definition span_ok :: "bytes list \<Rightarrow> iovec_span \<Rightarrow> bool" where
  "span_ok backings s =
     (0 < sp_len s \<and> sp_backing s < length backings \<and>
      sp_offset s + sp_len s \<le> length (backings ! sp_backing s))"

definition oiv_ok :: "owned_iovec \<Rightarrow> bool" where
  "oiv_ok v =
     (oi_first v \<le> length (oi_iovecs v) \<and>
      list_all (span_ok (oi_backings v)) (drop (oi_first v) (oi_iovecs v)) \<and>
      oi_remaining v = length (oiv_left v))"

lemma length_span_bytes: "span_ok bs s \<Longrightarrow> length (span_bytes bs s) = sp_len s"
  by (auto simp: span_ok_def span_bytes_def min_def)

lemma span_bytes_advance:
  "n \<le> sp_len s \<Longrightarrow>
     span_bytes bs (s\<lparr>sp_offset := sp_offset s + n, sp_len := sp_len s - n\<rparr>) = drop n (span_bytes bs s)"
  by (simp add: span_bytes_def drop_take add.commute)

lemma consume_loop_ok:
  "oi_first v \<le> length (oi_iovecs v) \<Longrightarrow>
   list_all (span_ok (oi_backings v)) (drop (oi_first v) (oi_iovecs v)) \<Longrightarrow>
   written \<le> length (oiv_left v) \<Longrightarrow>
   \<exists>v'. consume_loop written v = Inr v' \<and> oi_first v' \<le> length (oi_iovecs v') \<and>
     oi_backings v' = oi_backings v \<and> oi_remaining v' = oi_remaining v \<and>
     list_all (span_ok (oi_backings v')) (drop (oi_first v') (oi_iovecs v')) \<and>
     oiv_left v' = drop written (oiv_left v)"
proof (induction written v rule: consume_loop.induct)
  case (1 written v)
  show ?case
  proof (cases "written = 0")
    case True
    then show ?thesis using "1.prems" by (simp add: consume_loop.simps)
  next
    case pos: False
    have lt: "oi_first v < length (oi_iovecs v)"
    proof (rule ccontr)
      assume "\<not> ?thesis"
      then have "oiv_left v = []" by (simp add: oiv_left_def)
      then show False using pos "1.prems"(3) by simp
    qed
    define io where "io = oi_iovecs v ! oi_first v"
    define rest where "rest = drop (Suc (oi_first v)) (oi_iovecs v)"
    have split: "drop (oi_first v) (oi_iovecs v) = io # rest"
      using lt by (simp add: io_def rest_def Cons_nth_drop_Suc)
    have ok: "span_ok (oi_backings v) io" "list_all (span_ok (oi_backings v)) rest"
      using "1.prems"(2) split by simp_all
    define consumed where "consumed = min written (sp_len io)"
    define io' where "io' = io\<lparr>sp_offset := sp_offset io + consumed, sp_len := sp_len io - consumed\<rparr>"
    define v1 where "v1 = v\<lparr>oi_iovecs := (oi_iovecs v)[oi_first v := io']\<rparr>"
    define v2 where "v2 = (if sp_len io' = 0 then v1\<lparr>oi_first := oi_first v + 1\<rparr> else v1)"
    have left: "oiv_left v = span_bytes (oi_backings v) io @ concat (map (span_bytes (oi_backings v)) rest)"
      using split by (simp add: oiv_left_def)
    have iov': "drop (oi_first v) (oi_iovecs v1) = io' # rest"
      using lt by (simp add: v1_def rest_def drop_update_swap Cons_nth_drop_Suc [symmetric])
    have io'_bytes: "span_bytes (oi_backings v) io' = drop consumed (span_bytes (oi_backings v) io)"
      unfolding io'_def by (rule span_bytes_advance) (simp add: consumed_def)
    have len: "length (span_bytes (oi_backings v) io) = sp_len io" by (rule length_span_bytes [OF ok(1)])
    have cs: "consumed \<le> sp_len io" "consumed \<le> written" by (simp_all add: consumed_def)
    have drop2: "drop (oi_first v2) (oi_iovecs v2) = (if sp_len io' = 0 then rest else io' # rest)"
    proof (cases "sp_len io' = 0")
      case True
      have "drop (Suc (oi_first v)) (oi_iovecs v1) = rest" using iov' by (metis drop_Suc list.sel(3) tl_drop)
      then show ?thesis using True by (simp add: v2_def v1_def)
    next
      case False
      then show ?thesis using iov' by (simp add: v2_def v1_def)
    qed
    have left2: "oiv_left v2 = drop consumed (oiv_left v)"
    proof -
      have "oi_backings v2 = oi_backings v" by (simp add: v2_def v1_def)
      then have "oiv_left v2 = concat (map (span_bytes (oi_backings v)) (drop (oi_first v2) (oi_iovecs v2)))"
        by (simp add: oiv_left_def)
      also have "\<dots> = span_bytes (oi_backings v) io' @ concat (map (span_bytes (oi_backings v)) rest)"
        using drop2 by (simp add: span_bytes_def)
      finally show ?thesis using io'_bytes left len cs by simp
    qed
    have ok2: "list_all (span_ok (oi_backings v2)) (drop (oi_first v2) (oi_iovecs v2))"
      using ok drop2 cs by (auto simp: v2_def v1_def io'_def span_ok_def)
    have fst2: "oi_first v2 \<le> length (oi_iovecs v2)" using lt by (simp add: v2_def v1_def)
    have eq: "consume_loop written v = consume_loop (written - consumed) v2"
      unfolding v2_def v1_def io'_def consumed_def io_def
      using pos lt by (subst consume_loop.simps) (simp add: Let_def)
    have "written - consumed \<le> length (oiv_left v2)" using left2 "1.prems"(3) by simp
    then obtain v' where v': "consume_loop (written - consumed) v2 = Inr v'" "oi_first v' \<le> length (oi_iovecs v')"
        "oi_backings v' = oi_backings v2" "oi_remaining v' = oi_remaining v2"
        "list_all (span_ok (oi_backings v')) (drop (oi_first v') (oi_iovecs v'))"
        "oiv_left v' = drop (written - consumed) (oiv_left v2)"
      using "1.IH" [OF pos _ io_def consumed_def io'_def v1_def] lt fst2 ok2 unfolding v2_def by blast
    then show ?thesis using eq left2 cs by (auto simp: v2_def v1_def)
  qed
qed

lemma oiv_consume_ok:
  assumes "oiv_ok v" "n \<le> length (oiv_left v)"
  shows "\<exists>v'. sum_option (oiv_consume n v) = Some v' \<and> oiv_ok v' \<and> oiv_left v' = drop n (oiv_left v)"
proof -
  let ?v = "v\<lparr>oi_remaining := oi_remaining v - n\<rparr>"
  have left: "oiv_left ?v = oiv_left v" by (simp add: oiv_left_def)
  obtain v' where "consume_loop n ?v = Inr v'" "oi_first v' \<le> length (oi_iovecs v')"
      "oi_remaining v' = oi_remaining ?v"
      "list_all (span_ok (oi_backings v')) (drop (oi_first v') (oi_iovecs v'))" "oiv_left v' = drop n (oiv_left v)"
    using consume_loop_ok [of ?v n] assms left by (auto simp: oiv_ok_def)
  then show ?thesis using assms by (auto simp: oiv_consume_def oiv_ok_def sum_option_def)
qed

interpretation owned_vec: vectored_buffer oiv_ok oiv_is_empty oiv_left "\<lambda>n v. sum_option (oiv_consume n v)"
proof
  fix b :: owned_iovec and n :: nat
  assume ok: "oiv_ok b"
  then show "oiv_is_empty b = (oiv_left b = [])" by (auto simp: oiv_ok_def oiv_is_empty_def)
  show "\<exists>b'. sum_option (oiv_consume n b) = Some b' \<and> oiv_ok b' \<and> oiv_left b' = drop n (oiv_left b)"
    if "n \<le> length (oiv_left b)" using oiv_consume_ok [OF ok that] .
qed

section \<open>The flushes\<close>

lemma flush_inner_done:
  assumes "oq_ok q" "0 \<notin> set ws" "length (oq_wire q) \<le> sum_list ws"
  shows "flush_inner ws q = (Done [] (oq_wire q), if oq_is_empty q then q else oq_clear q)"
proof (cases "oq_is_empty q")
  case True
  then show ?thesis by (simp add: flush_inner_def oq_is_empty_def oq_wire_def oq_slices_def)
next
  case False
  obtain b' where b': "drive (\<lambda>bufs. bufs = []) concat advance_slices ws (oq_slices q) [] = Done b' (oq_wire q)"
      "[] \<notin> set b'" "concat b' = []"
    using io_slices.drive_done [OF oq_slices_ok [OF assms(1)] assms(2), of "[]"] assms(3)
    by (auto simp: oq_wire_def)
  then have "b' = []" by (cases b') auto
  then show ?thesis using b'(1) False by (simp add: flush_inner_def)
qed

lemma ktls_rest_drop: "ktls_rest inl ss skip = drop skip (concat (map (seg_bytes inl) ss))"
  by (induction inl ss skip rule: ktls_rest.induct) (auto simp: Let_def)

lemma ktls_flush_wire: "oq_ok q \<Longrightarrow> n \<le> int (length (oq_wire q)) \<Longrightarrow> ktls_flush n q = oq_wire q"
  by (auto simp: ktls_flush_def Let_def oq_total ktls_rest_drop oq_wire_def oq_slices_def)

lemma coalesce_wire: "concat (coalesce_batches inl ss pending) = pending @ concat (map (seg_bytes inl) ss)"
  by (induction inl ss pending rule: coalesce_batches.induct) (auto simp: Let_def)

lemma owned_parts_spans:
  "owned_parts ss backings spans = (bk, sp) \<Longrightarrow> backings \<noteq> [] \<Longrightarrow> hd backings = inl \<Longrightarrow>
   \<forall>s \<in> set ss. seg_ok inl s \<Longrightarrow>
   \<exists>more sps. bk = backings @ more \<and> sp = spans @ sps \<and> list_all (span_ok bk) sps \<and>
     map (span_bytes bk) sps = map (seg_bytes inl) ss \<and> set more \<subseteq> {b. Body b \<in> set ss}"
proof (induction ss backings spans rule: owned_parts.induct)
  case (1 backings spans)
  then show ?case by simp
next
  case (2 offset len ss backings spans)
  let ?s = "\<lparr>sp_backing = 0, sp_offset = offset, sp_len = len\<rparr>"
  obtain more sps where ih: "bk = backings @ more" "sp = (spans @ [?s]) @ sps" "list_all (span_ok bk) sps"
      "map (span_bytes bk) sps = map (seg_bytes inl) ss" "set more \<subseteq> {b. Body b \<in> set ss}"
    using "2.IH" "2.prems" by auto
  have hd0: "bk ! 0 = inl" "0 < length bk" using ih(1) "2.prems"(2,3) by (auto simp: hd_conv_nth nth_append)
  have "span_ok bk ?s" "span_bytes bk ?s = seg_bytes inl (Inline offset len)"
    using hd0 "2.prems"(4) by (auto simp: span_ok_def span_bytes_def seg_ok_def)
  then show ?case using ih by (intro exI [of _ more] exI [of _ "?s # sps"]) auto
next
  case (3 b ss backings spans)
  let ?s = "\<lparr>sp_backing = length backings, sp_offset = 0, sp_len = length b\<rparr>"
  obtain more sps where ih: "bk = (backings @ [b]) @ more" "sp = (spans @ [?s]) @ sps" "list_all (span_ok bk) sps"
      "map (span_bytes bk) sps = map (seg_bytes inl) ss" "set more \<subseteq> {b. Body b \<in> set ss}"
    using "3.IH" "3.prems" by auto
  have "bk ! length backings = b" using ih(1) by (simp add: nth_append)
  then have "span_ok bk ?s" "span_bytes bk ?s = seg_bytes inl (Body b)"
    using ih(1) "3.prems"(4) by (auto simp: span_ok_def span_bytes_def seg_ok_def)
  then show ?case using ih by (intro exI [of _ "b # more"] exI [of _ "?s # sps"]) auto
qed

lemma iovecs_of_spans_ok:
  "list_all (span_ok bk) sps \<Longrightarrow> \<forall>b \<in> set bk. length b \<le> usize_max \<Longrightarrow>
   r + length (concat (map (span_bytes bk) sps)) \<le> usize_max \<Longrightarrow>
   iovecs_of_spans bk sps r = Inr (sps, r + length (concat (map (span_bytes bk) sps)))"
proof (induction sps arbitrary: r)
  case (Cons s sps)
  have ok: "span_ok bk s" using Cons.prems(1) by simp
  have len: "length (span_bytes bk s) = sp_len s" by (rule length_span_bytes [OF ok])
  have "bk ! sp_backing s \<in> set bk" using ok by (simp add: span_ok_def)
  then have big: "sp_offset s + sp_len s \<le> usize_max"
    using Cons.prems(2) ok by (meson le_trans span_ok_def)
  have "iovecs_of_spans bk sps (r + sp_len s) = Inr (sps, r + sp_len s + length (concat (map (span_bytes bk) sps)))"
    using Cons.prems len by (intro Cons.IH) auto
  then show ?case
    using ok big len Cons.prems(3) by (auto simp: usize_checked_add_def list_get_def span_ok_def)
qed simp

lemma owned_flush_wire:
  assumes ok: "oq_ok q" and parts: "owned_parts (oq_segs q) [oq_inline q] [] = (bk, sp)"
    and small: "length (oq_wire q) \<le> usize_max" "length (oq_inline q) \<le> usize_max"
  shows "\<exists>v. oiv_from_backings bk sp = Inr v \<and> oiv_ok v \<and> oiv_left v = oq_wire q"
proof -
  obtain more sps where p: "bk = [oq_inline q] @ more" "sp = sps" "list_all (span_ok bk) sps"
      "map (span_bytes bk) sps = map (seg_bytes (oq_inline q)) (oq_segs q)" "set more \<subseteq> {b. Body b \<in> set (oq_segs q)}"
    using owned_parts_spans [OF parts, of "oq_inline q"] ok by (auto simp: oq_ok_def)
  have wire: "concat (map (span_bytes bk) sps) = oq_wire q" using p(4) by (simp add: oq_wire_def oq_slices_def)
  have "length b \<le> length (oq_wire q)" if "Body b \<in> set (oq_segs q)" for b
  proof -
    have "b \<in> set (oq_slices q)" using that by (force simp: oq_slices_def)
    then obtain xs ys where "oq_slices q = xs @ b # ys" by (meson split_list)
    then show ?thesis by (simp add: oq_wire_def)
  qed
  then have "\<forall>b \<in> set bk. length b \<le> usize_max" using p(1,5) small by fastforce
  then have "iovecs_of_spans bk sp 0 = Inr (sps, length (oq_wire q))"
    using iovecs_of_spans_ok [OF p(3), of 0] wire small p(2) by simp
  then show ?thesis using p wire by (simp add: oiv_from_backings_def oiv_ok_def oiv_left_def)
qed

lemma oq_inline_le: "list_all op_ok ops \<Longrightarrow> length (oq_inline q) \<le> length (oq_wire q) \<Longrightarrow> oq_ok q \<Longrightarrow>
   length (oq_inline (fold oq_apply ops q)) \<le> length (oq_wire (fold oq_apply ops q))"
proof (induction ops arbitrary: q)
  case (Cons op ops)
  have "length (oq_inline (oq_apply op q)) \<le> length (oq_wire (oq_apply op q))"
  proof (cases op)
    case (QFrames f)
    then have "oq_inline (oq_apply op q) = oq_inline q @ f []"
      using frame_writerD [of f "oq_inline q"] Cons.prems(1) by (simp add: oq_frames_def Let_def)
    then show ?thesis using Cons.prems oq_apply_ok [OF Cons.prems(3), of op] QFrames by simp
  next
    case (QBody b)
    then show ?thesis
      using Cons.prems oq_apply_ok [OF Cons.prems(3), of op] by (simp add: oq_body_def split: if_splits)
  qed
  then show ?case using Cons oq_apply_ok [OF Cons.prems(3), of op] by simp
qed simp

text \<open>
  C10. Whatever is queued as frames and bodies reaches the socket as the same octets in the same
  order, on every path: the vectored write of the tokio loop, and on the io\_uring transport the kTLS
  write, the owned vector and the coalescing fallback. The writes may be as short as the socket
  likes, as long as each accepts something.
\<close>

theorem flush_exact:
  assumes "list_all op_ok ops" "0 \<notin> set ws"
    and "length (concat (map op_bytes ops)) \<le> sum_list ws" "length (concat (map op_bytes ops)) \<le> usize_max"
    and "n \<le> int (length (concat (map op_bytes ops)))"
  shows "fst (flush ws (fold oq_apply ops oq_default)) = Done [] (concat (map op_bytes ops)) \<and>
    monoio_flush_inner ktls n ws (fold oq_apply ops oq_default) = Some (concat (map op_bytes ops))"
proof -
  define q :: "'a out_queue" where "q = fold oq_apply ops oq_default"
  define q' :: "'b out_queue" where "q' = fold oq_apply ops oq_default"
  define w where "w = concat (map op_bytes ops)"
  have ok: "oq_ok q" "oq_wire q = w" "oq_ok q'" "oq_wire q' = w"
    by (simp_all add: q_def q'_def w_def oq_fold_ok [OF oq_default_ok(1) assms(1)])
  have inl: "length (oq_inline q') \<le> usize_max"
  proof -
    have "length (oq_inline (oq_default :: 'b out_queue)) \<le> length (oq_wire (oq_default :: 'b out_queue))"
      by (simp add: oq_default_def)
    then have "length (oq_inline q') \<le> length (oq_wire q')"
      unfolding q'_def by (rule oq_inline_le [OF assms(1) _ oq_default_ok(1)])
    then show ?thesis using ok(4) assms(4) by (simp add: w_def)
  qed
  have "flush_inner ws q = (Done [] w, if oq_is_empty q then q else oq_clear q)"
    using flush_inner_done [OF ok(1) assms(2)] assms(3) ok(2) by (simp add: w_def)
  then have 1: "fst (flush ws q) = Done [] w" by (simp add: flush_def split: prod.splits)
  obtain bk sp where parts: "owned_parts (oq_segs q') [oq_inline q'] [] = (bk, sp)" by (metis surj_pair)
  obtain v where v: "oiv_from_backings bk sp = Inr v" "oiv_ok v" "oiv_left v = w"
    using owned_flush_wire [OF ok(3) parts _ inl] ok(4) assms(4) by (auto simp: w_def)
  obtain b' where "write_all_owned ws v = Done b' w"
    using owned_vec.drive_done [OF v(2) assms(2), of "[]"] v(3) assms(3) by (auto simp: write_all_owned_def w_def)
  moreover have "concat (coalesce_batches (oq_inline q') (oq_segs q') []) = w"
    using ok(4) by (simp add: coalesce_wire oq_wire_def oq_slices_def)
  moreover have "ktls_flush n q' = w" using ktls_flush_wire [OF ok(3)] ok(4) assms(5) by (simp add: w_def)
  moreover have "oq_is_empty q' \<Longrightarrow> w = []" using ok(4) by (simp add: oq_is_empty_def oq_wire_def oq_slices_def)
  ultimately have "monoio_flush_inner ktls n ws q' = Some w"
    using parts v(1) by (simp add: monoio_flush_inner_def)
  then show ?thesis using 1 by (simp add: q_def q'_def w_def)
qed

theorem flush_exact_witness:
  "fst (flush [2, 3, 1] (fold oq_apply [QFrames (\<lambda>b. b @ [1, 2, 3]), QBody [7, 8], QFrames (\<lambda>b. b @ [9])]
      (oq_default :: nat out_queue))) = Done [] [1, 2, 3, 7, 8, 9] \<and>
   monoio_flush_inner False 0 [2, 3, 1] (fold oq_apply [QFrames (\<lambda>b. b @ [1, 2, 3]), QBody [7, 8],
      QFrames (\<lambda>b. b @ [9])] (oq_default :: nat out_queue)) = Some [1, 2, 3, 7, 8, 9]"
  using flush_exact [of "[QFrames (\<lambda>b. b @ [1, 2, 3]), QBody [7, 8], QFrames (\<lambda>b. b @ [9])]" "[2, 3, 1]" 0 False]
  by (simp add: frame_writer_def usize_max_def)



end
