(* ===== verification/H2_Send.thy ===== *)
theory H2_Send
  imports H2_Recv Out_Queue
begin

text \<open>
  The sending side of an HTTP/2 connection, \<open>hj-h2/src/server/send.rs\<close> from \<open>pump_one_frame\<close> on:
  responses are written as DATA frames in a round-robin schedule under the connection and the stream
  windows, chunks of streaming bodies are pulled when a stream has nothing left to send, and streams
  that stall are reset.

  The arguments the functions share are the fields of one record \<open>sender\<close>. The output queue is the
  octets queued so far, which is what \<open>frames\<close> and \<open>body\<close> of \<open>OutQueue\<close> append to (\<open>oq_frames_ok\<close>,
  \<open>oq_body_ok\<close> of \<open>Out_Queue\<close>), with the completions of the responses that ended. A streaming body is of
  the abstract type \<open>'b\<close>, a completion of type \<open>'k\<close>. A running pull is the body it holds and whether its
  cancellation token has fired, which dropping its \<open>OutStream\<close> does. The instant of a pass is an argument.
\<close>

section \<open>State\<close>

record send_stall =
  ss_since :: nat
  ss_progressed :: nat

record ('b, 'k) out_stream =
  os_completion :: "'k option"
  os_pending :: bytes
  os_body :: "'b option"
  os_pulling :: bool
  os_eof :: bool
  os_done :: bool
  os_window :: int
  os_cancel :: bool
  os_stall :: "send_stall option"
  os_send_blocked :: bool

record ('b, 'k) sender =
  sd_outstreams :: "(u32 \<times> ('b, 'k) out_stream) list"
  sd_schedule :: "u32 list"
  sd_out :: bytes
  sd_completions :: "'k list"
  sd_ends :: "('k \<times> response_end) list"
  sd_send_conn :: int
  sd_pulls :: "(u32 \<times> 'b \<times> bool) list"
  sd_blocked_conn :: nat
  sd_blocked_stream :: nat
  sd_stall_resets :: nat

definition out_write :: "(bytes \<Rightarrow> bytes) \<Rightarrow> ('b, 'k) sender \<Rightarrow> ('b, 'k) sender" where
  "out_write f s = s\<lparr>sd_out := f (sd_out s)\<rparr>"

definition get_out :: "('b, 'k) sender \<Rightarrow> u32 \<Rightarrow> ('b, 'k) out_stream option" where
  "get_out s sid = map_of (sd_outstreams s) sid"

definition put_out :: "u32 \<Rightarrow> ('b, 'k) out_stream \<Rightarrow> ('b, 'k) sender \<Rightarrow> ('b, 'k) sender" where
  "put_out sid st s = s\<lparr>sd_outstreams := AList.update sid st (sd_outstreams s)\<rparr>"

text \<open>\<open>cancel.cancel()\<close> on the token that the stream's pull holds.\<close>

definition fire_cancel :: "u32 \<Rightarrow> ('b, 'k) out_stream \<Rightarrow> ('b, 'k) sender \<Rightarrow> ('b, 'k) sender" where
  "fire_cancel sid st s =
     (if os_cancel st then s\<lparr>sd_pulls := map (\<lambda>(i, b, c). (i, b, c \<or> i = sid)) (sd_pulls s)\<rparr> else s)"

text \<open>\<open>outstreams.remove(&sid)\<close>: the stream is dropped, and \<open>Drop for OutStream\<close> fires its token.\<close>

definition remove_out :: "u32 \<Rightarrow> ('b, 'k) sender \<Rightarrow> ('b, 'k) sender" where
  "remove_out sid s =
     (case get_out s sid of
        None \<Rightarrow> s
      | Some st \<Rightarrow> fire_cancel sid st (s\<lparr>sd_outstreams := AList.delete sid (sd_outstreams s)\<rparr>))"

definition cancel_outstream :: "u32 \<Rightarrow> ('b, 'k) sender \<Rightarrow> ('b, 'k) sender" where
  "cancel_outstream sid s =
     (case get_out s sid of None \<Rightarrow> s | Some st \<Rightarrow> fire_cancel sid st (remove_out sid s))"

section \<open>Writing DATA\<close>

definition note_send_blocked ::
  "('b, 'k) out_stream \<Rightarrow> bool \<Rightarrow> ('b, 'k) sender \<Rightarrow> bool \<times> ('b, 'k) out_stream \<times> ('b, 'k) sender" where
  "note_send_blocked st conn_starved s =
     (if os_send_blocked st then (False, st, s)
      else (True, st\<lparr>os_send_blocked := True\<rparr>,
            if conn_starved then s\<lparr>sd_blocked_conn := sd_blocked_conn s + 1\<rparr>
            else s\<lparr>sd_blocked_stream := sd_blocked_stream s + 1\<rparr>))"

text \<open>\<open>if let Some(completion) = st.completion.take() { out.completions.push(completion) }\<close>\<close>

definition finish_stream :: "('b, 'k) out_stream \<Rightarrow> ('b, 'k) sender \<Rightarrow> ('b, 'k) out_stream \<times> ('b, 'k) sender" where
  "finish_stream st s =
     (st\<lparr>os_done := True, os_completion := None\<rparr>,
      s\<lparr>sd_completions := sd_completions s @ (case os_completion st of None \<Rightarrow> [] | Some k \<Rightarrow> [k])\<rparr>)"

definition data_header :: "u32 \<Rightarrow> nat \<Rightarrow> bool \<Rightarrow> frame_header" where
  "data_header sid n end_stream =
     \<lparr>fh_length = of_nat n, fh_kind = kind_DATA,
      fh_flags = (if end_stream then flag_END_STREAM else 0), fh_stream_id = sid\<rparr>"

definition pump_one_frame ::
  "u32 \<Rightarrow> ('b, 'k) out_stream \<Rightarrow> nat \<Rightarrow> ('b, 'k) sender \<Rightarrow> bool \<times> ('b, 'k) out_stream \<times> ('b, 'k) sender" where
  "pump_one_frame sid st max_frame s =
     (if os_pending st \<noteq> [] then
        (let allow = min (min (sd_send_conn s) (os_window st)) (int max_frame)
         in if allow \<le> 0 then
              (case note_send_blocked st (sd_send_conn s \<le> 0) s of (counted, st', s') \<Rightarrow> (False, st', s'))
            else
              (let n = min (nat allow) (length (os_pending st));
                   chunk = take n (os_pending st);
                   rest = drop n (os_pending st);
                   last = (os_eof st \<and> rest = []);
                   s1 = out_write (\<lambda>b. b @ chunk) (out_write (frame_write (data_header sid n last)) s);
                   s2 = s1\<lparr>sd_send_conn := sd_send_conn s1 - int n\<rparr>;
                   st1 = st\<lparr>os_send_blocked := False, os_pending := rest, os_window := os_window st - int n\<rparr>
               in if last then (True, finish_stream st1 s2) else (True, st1, s2)))
      else if os_eof st \<and> \<not> os_done st then
        (True, finish_stream st (out_write (frame_write (data_header sid 0 True)) s))
      else (False, st, s))"

section \<open>The stall clock\<close>

definition SEND_STALL_MIN_PROGRESS :: nat where
  "SEND_STALL_MIN_PROGRESS = 16 * 1024"

definition advance_stall :: "nat \<Rightarrow> send_stall option \<Rightarrow> nat \<Rightarrow> bool \<Rightarrow> send_stall option" where
  "advance_stall now stall sent waiting =
     (if \<not> waiting then None
      else case stall of
        Some ss \<Rightarrow>
          if u64_sat_add (ss_progressed ss) sent < SEND_STALL_MIN_PROGRESS
          then Some (ss\<lparr>ss_progressed := ss_progressed ss + sent\<rparr>)
          else Some \<lparr>ss_since = now, ss_progressed = 0\<rparr>
      | None \<Rightarrow> Some \<lparr>ss_since = now, ss_progressed = 0\<rparr>)"

section \<open>The schedule\<close>

text \<open>A stream that has drained its buffer hands its body to a pull.\<close>

definition start_pull ::
  "u32 \<Rightarrow> ('b, 'k) out_stream \<Rightarrow> ('b, 'k) sender \<Rightarrow> ('b, 'k) out_stream \<times> ('b, 'k) sender" where
  "start_pull sid st s =
     (if \<not> os_done st \<and> os_pending st = [] \<and> \<not> os_eof st \<and> \<not> os_pulling st then
        (case os_body st of
           None \<Rightarrow> (st, s)
         | Some body \<Rightarrow>
             (st\<lparr>os_body := None, os_pulling := True, os_cancel := True\<rparr>,
              s\<lparr>sd_pulls := sd_pulls s @ [(sid, body, False)]\<rparr>))
      else (st, s))"

text \<open>One visit: whether the stream stays in the schedule and whether a frame was written.\<close>

definition pump_visit ::
  "nat \<Rightarrow> nat \<Rightarrow> u32 \<Rightarrow> ('b, 'k) sender \<Rightarrow> bool \<times> bool \<times> ('b, 'k) sender" where
  "pump_visit now max_frame sid s =
     (case get_out s sid of
        None \<Rightarrow> (False, False, s)
      | Some st \<Rightarrow>
          if os_done st then (False, False, s)
          else
            (case pump_one_frame sid st max_frame s of
               (wrote, st1, s1) \<Rightarrow>
                 (case start_pull sid st1 s1 of
                    (st2, s2) \<Rightarrow>
                      (let st3 = (if os_done st2 then st2
                                  else st2\<lparr>os_stall := advance_stall now (os_stall st2)
                                         (nat (max (os_window st - os_window st2) 0)) (os_pending st2 \<noteq> [])\<rparr>)
                       in (\<not> os_done st3, wrote, put_out sid st3 s2)))))"

definition pump_step :: "nat \<Rightarrow> nat \<Rightarrow> u32 \<Rightarrow> ('b, 'k) sender \<Rightarrow> bool \<times> ('b, 'k) sender" where
  "pump_step now max_frame sid s =
     (case pump_visit now max_frame sid s of
        (keep, wrote, s1) \<Rightarrow>
          (wrote, if keep then s1\<lparr>sd_schedule := sd_schedule s1 @ [sid]\<rparr> else remove_out sid s1))"

text \<open>What is left to do: octets to send and streams to end.\<close>

definition out_weight :: "('b, 'k) sender \<Rightarrow> nat" where
  "out_weight s = sum_list (map (\<lambda>(sid, st). length (os_pending st) + (if os_done st then 0 else 1)) (sd_outstreams s))"

lemma sender_simps [simp]:
  "get_out (s\<lparr>sd_schedule := x1\<rparr>) i = get_out s i" "get_out (s\<lparr>sd_out := x2\<rparr>) i = get_out s i"
  "get_out (s\<lparr>sd_completions := x3\<rparr>) i = get_out s i" "get_out (s\<lparr>sd_send_conn := x4\<rparr>) i = get_out s i"
  "get_out (s\<lparr>sd_pulls := x5\<rparr>) i = get_out s i" "get_out (s\<lparr>sd_blocked_conn := x6\<rparr>) i = get_out s i"
  "get_out (s\<lparr>sd_blocked_stream := x7\<rparr>) i = get_out s i"
  "get_out (put_out sid st s) i = (if i = sid then Some st else get_out s i)"
  "sd_schedule (put_out sid st s) = sd_schedule s" "sd_out (put_out sid st s) = sd_out s"
  "sd_completions (put_out sid st s) = sd_completions s" "sd_send_conn (put_out sid st s) = sd_send_conn s"
  "sd_pulls (put_out sid st s) = sd_pulls s"
  "sd_outstreams (put_out sid st s) = AList.update sid st (sd_outstreams s)"
  by (simp_all add: get_out_def put_out_def update_conv')

lemma fire_cancel_simps [simp]:
  "sd_schedule (fire_cancel sid st s) = sd_schedule s" "sd_out (fire_cancel sid st s) = sd_out s"
  "sd_completions (fire_cancel sid st s) = sd_completions s" "sd_send_conn (fire_cancel sid st s) = sd_send_conn s"
  "sd_outstreams (fire_cancel sid st s) = sd_outstreams s" "get_out (fire_cancel sid st s) i = get_out s i"
  by (simp_all add: fire_cancel_def get_out_def)

lemma remove_outstreams [simp]: "sd_outstreams (remove_out sid s) = AList.delete sid (sd_outstreams s)"
proof (cases "get_out s sid")
  case None
  then have "sid \<notin> fst ` set (sd_outstreams s)" by (simp add: get_out_def map_of_eq_None_iff)
  then show ?thesis using None by (simp add: remove_out_def delete_absent)
qed (simp add: remove_out_def)

lemma remove_simps [simp]:
  "sd_schedule (remove_out sid s) = sd_schedule s" "sd_out (remove_out sid s) = sd_out s"
  "sd_completions (remove_out sid s) = sd_completions s" "sd_send_conn (remove_out sid s) = sd_send_conn s"
  "get_out (remove_out sid s) i = (if i = sid then None else get_out s i)"
proof -
  show "get_out (remove_out sid s) i = (if i = sid then None else get_out s i)"
    by (simp add: get_out_def delete_conv')
qed (simp_all add: remove_out_def split: option.splits)

lemma cancel_outstreams: "sd_outstreams (cancel_outstream sid s) = AList.delete sid (sd_outstreams s)"
  using remove_outstreams [of sid s] by (auto simp: cancel_outstream_def remove_out_def split: option.splits)

lemma cancel_simps [simp]:
  "sd_schedule (cancel_outstream sid s) = sd_schedule s" "sd_out (cancel_outstream sid s) = sd_out s"
  "sd_completions (cancel_outstream sid s) = sd_completions s"
  "sd_send_conn (cancel_outstream sid s) = sd_send_conn s"
  "get_out (cancel_outstream sid s) i = (if i = sid then None else get_out s i)"
proof -
  show "get_out (cancel_outstream sid s) i = (if i = sid then None else get_out s i)"
    unfolding get_out_def cancel_outstreams by (simp add: delete_conv')
qed (simp_all add: cancel_outstream_def split: option.splits)

text \<open>The two ways a frame is written, and the two ways none is.\<close>

lemma pump_one_frameE:
  assumes "pump_one_frame sid st mf s = (wrote, st', s')"
  obtains (blocked) bc bs where "os_pending st \<noteq> []" "\<not> wrote"
      "sd_send_conn s \<le> 0 \<or> os_window st \<le> 0 \<or> mf = 0"
      "st' = st\<lparr>os_send_blocked := True\<rparr>" "s' = s\<lparr>sd_blocked_conn := bc, sd_blocked_stream := bs\<rparr>"
  | (data) n fin where "os_pending st \<noteq> []" "wrote" "0 < n" "n \<le> length (os_pending st)"
      "int n \<le> sd_send_conn s" "int n \<le> os_window st" "n \<le> mf"
      "fin \<longleftrightarrow> os_eof st \<and> n = length (os_pending st)"
      "st' = st\<lparr>os_send_blocked := False, os_pending := drop n (os_pending st), os_window := os_window st - int n,
         os_done := os_done st \<or> fin, os_completion := (if fin then None else os_completion st)\<rparr>"
      "s' = s\<lparr>sd_out := frame_write (data_header sid n fin) (sd_out s) @ take n (os_pending st),
         sd_send_conn := sd_send_conn s - int n,
         sd_completions := sd_completions s @ (if fin then (case os_completion st of None \<Rightarrow> [] | Some k \<Rightarrow> [k]) else [])\<rparr>"
  | (final) "os_pending st = []" "wrote" "os_eof st" "\<not> os_done st"
      "st' = st\<lparr>os_done := True, os_completion := None\<rparr>"
      "s' = s\<lparr>sd_out := frame_write (data_header sid 0 True) (sd_out s),
         sd_completions := sd_completions s @ (case os_completion st of None \<Rightarrow> [] | Some k \<Rightarrow> [k])\<rparr>"
  | (idle) "os_pending st = []" "\<not> wrote" "\<not> os_eof st \<or> os_done st" "st' = st" "s' = s"
proof (cases "os_pending st = []")
  case True
  show thesis
  proof (cases "os_eof st \<and> \<not> os_done st")
    case t: True
    then show thesis using True assms by (intro final) (auto simp: pump_one_frame_def finish_stream_def out_write_def)
  next
    case f: False
    then show thesis using True assms by (intro idle) (auto simp: pump_one_frame_def)
  qed
next
  case False
  define allow where "allow = min (min (sd_send_conn s) (os_window st)) (int mf)"
  show thesis
  proof (cases "allow \<le> 0")
    case True
    then have lim: "sd_send_conn s \<le> 0 \<or> os_window st \<le> 0 \<or> mf = 0" by (auto simp: allow_def min_def split: if_splits)
    have eq: "note_send_blocked st (sd_send_conn s \<le> 0) s = (b, st', s') \<Longrightarrow> thesis" for b
      using lim False assms True
      by (intro blocked [where bc = "sd_blocked_conn s'" and bs = "sd_blocked_stream s'"])
        (auto simp: note_send_blocked_def pump_one_frame_def allow_def [symmetric] Let_def split: if_splits prod.splits)
    have "(False, st', s') = (case note_send_blocked st (sd_send_conn s \<le> 0) s of (counted, st', s') \<Rightarrow> (False, st', s'))"
      using assms True False by (simp add: pump_one_frame_def allow_def [symmetric] Let_def split: prod.splits)
    then show thesis using eq by (auto split: prod.splits)
  next
    case pos: False
    define n where "n = min (nat allow) (length (os_pending st))"
    define fin where "fin = (os_eof st \<and> drop n (os_pending st) = [])"
    have n: "0 < n" "n \<le> length (os_pending st)" "int n \<le> allow" using pos False by (auto simp: n_def)
    have fin: "fin \<longleftrightarrow> os_eof st \<and> n = length (os_pending st)" using n by (auto simp: fin_def)
    let ?s = "s\<lparr>sd_out := frame_write (data_header sid n fin) (sd_out s) @ take n (os_pending st),
         sd_send_conn := sd_send_conn s - int n\<rparr>"
    have run: "(wrote, st', s') =
        (if fin then (True, finish_stream (st\<lparr>os_send_blocked := False, os_pending := drop n (os_pending st),
             os_window := os_window st - int n\<rparr>) ?s)
         else (True, st\<lparr>os_send_blocked := False, os_pending := drop n (os_pending st),
             os_window := os_window st - int n\<rparr>, ?s))"
      using assms [symmetric] False pos
      unfolding pump_one_frame_def Let_def allow_def [symmetric] n_def [symmetric] fin_def [symmetric]
      by (simp add: out_write_def)
    show thesis
      using n fin run False
      by (intro data [of n fin]) (auto simp: allow_def finish_stream_def split: if_splits)
  qed
qed

text \<open>What the schedule looks at.\<close>

definition os_core :: "('b, 'k) out_stream \<Rightarrow> bytes \<times> bool \<times> bool \<times> int" where
  "os_core st = (os_pending st, os_eof st, os_done st, os_window st)"

lemma start_pull_result:
  assumes "start_pull sid st s = (st', s')"
  shows "os_core st' = os_core st" "os_stall st' = os_stall st" "\<exists>ps. s' = s\<lparr>sd_pulls := ps\<rparr>"
  using assms by (auto simp: start_pull_def os_core_def split: if_splits option.splits intro: exI [of _ "sd_pulls s"])

lemma pump_visitE:
  assumes "pump_visit now mf sid s = (keep, wrote, s')"
  obtains (gone) "\<forall>st. get_out s sid = Some st \<longrightarrow> os_done st" "\<not> keep" "\<not> wrote" "s' = s"
  | (live) st st1 s1 st3 ps where "get_out s sid = Some st" "\<not> os_done st"
      "pump_one_frame sid st mf s = (wrote, st1, s1)" "os_core st3 = os_core st1" "keep \<longleftrightarrow> \<not> os_done st1"
      "s' = put_out sid st3 (s1\<lparr>sd_pulls := ps\<rparr>)"
proof (cases "\<exists>st. get_out s sid = Some st \<and> \<not> os_done st")
  case False
  then show thesis using assms by (intro gone) (auto simp: pump_visit_def split: option.splits)
next
  case True
  then obtain st where st: "get_out s sid = Some st" "\<not> os_done st" by blast
  obtain w st1 s1 where one: "pump_one_frame sid st mf s = (w, st1, s1)" by (metis prod_cases3)
  obtain st2 s2 where pull: "start_pull sid st1 s1 = (st2, s2)" by (metis surj_pair)
  note pr = start_pull_result [OF pull]
  obtain ps where ps: "s2 = s1\<lparr>sd_pulls := ps\<rparr>" using pr(3) by blast
  define st3 where "st3 = (if os_done st2 then st2
      else st2\<lparr>os_stall := advance_stall now (os_stall st2)
             (nat (max (os_window st - os_window st2) 0)) (os_pending st2 \<noteq> [])\<rparr>)"
  have core: "os_core st3 = os_core st1" using pr(1) by (simp add: st3_def os_core_def)
  then have dn: "os_done st3 = os_done st1" by (simp add: os_core_def)
  have "(keep, wrote, s') = (\<not> os_done st3, w, put_out sid st3 s2)"
    using assms st one pull unfolding pump_visit_def by (simp add: Let_def st3_def)
  then show thesis using st one core dn ps by (intro live [of st st1 s1 st3 ps]) auto
qed

subsection \<open>Termination of the schedule\<close>

definition os_weight :: "('b, 'k) out_stream \<Rightarrow> nat" where
  "os_weight st = length (os_pending st) + (if os_done st then 0 else 1)"

lemma out_weight_alt: "out_weight s = sum_list (map (\<lambda>(sid, st). os_weight st) (sd_outstreams s))"
  by (simp add: out_weight_def os_weight_def)

lemma sum_list_update:
  "map_of al sid = Some st \<Longrightarrow>
     sum_list (map (\<lambda>(sid, st). f st) (AList.update sid st' al)) + f st
     = sum_list (map (\<lambda>(sid, st). f st) al) + (f st' :: nat)"
  by (induction al) (auto split: if_splits)

lemma sum_list_delete: "sum_list (map (\<lambda>(sid, st). f st) (AList.delete sid al)) \<le> (sum_list (map (\<lambda>(sid, st). f st) al) :: nat)"
  by (induction al) auto

lemma weight_put: "get_out s sid = Some st \<Longrightarrow> out_weight (put_out sid st' s) + os_weight st = out_weight s + os_weight st'"
  unfolding out_weight_alt get_out_def by (simp add: sum_list_update)

lemma weight_remove: "out_weight (remove_out sid s) \<le> out_weight s"
  unfolding out_weight_alt by (simp add: sum_list_delete)

lemma out_weight_updates [simp]:
  "out_weight (s\<lparr>sd_schedule := x1\<rparr>) = out_weight s" "out_weight (s\<lparr>sd_out := x2\<rparr>) = out_weight s"
  "out_weight (s\<lparr>sd_completions := x3\<rparr>) = out_weight s" "out_weight (s\<lparr>sd_send_conn := x4\<rparr>) = out_weight s"
  "out_weight (s\<lparr>sd_pulls := x5\<rparr>) = out_weight s" "out_weight (s\<lparr>sd_blocked_conn := x6\<rparr>) = out_weight s"
  "out_weight (s\<lparr>sd_blocked_stream := x7\<rparr>) = out_weight s"
  by (simp_all add: out_weight_def)

lemma pump_visit_weight:
  assumes "pump_visit now mf sid s = (keep, wrote, s')"
  shows "out_weight s' \<le> out_weight s \<and> (wrote \<longrightarrow> out_weight s' < out_weight s)"
  using assms
proof (cases rule: pump_visitE)
  case (live st st1 s1 st3 ps)
  have w3: "os_weight st3 = os_weight st1" using live(4) by (auto simp: os_core_def os_weight_def)
  from live(3) have "out_weight s1 = out_weight s \<and> get_out s1 sid = Some st \<and>
      (os_weight st1 \<le> os_weight st) \<and> (wrote \<longrightarrow> os_weight st1 < os_weight st)"
    by (cases rule: pump_one_frameE) (use live(1,2) in \<open>auto simp: os_weight_def\<close>)
  then show ?thesis using weight_put [of "s1\<lparr>sd_pulls := ps\<rparr>" sid st st3] w3 live(6) by auto
qed simp

lemma pump_step_weight:
  assumes "pump_step now mf sid s = (wrote, s')"
  shows "out_weight s' \<le> out_weight s" "wrote \<Longrightarrow> out_weight s' < out_weight s"
proof -
  obtain keep w s1 where v: "pump_visit now mf sid s = (keep, w, s1)" by (metis prod_cases3)
  note vw = pump_visit_weight [OF v]
  have "wrote = w" "s' = (if keep then s1\<lparr>sd_schedule := sd_schedule s1 @ [sid]\<rparr> else remove_out sid s1)"
    using assms v by (simp_all add: pump_step_def)
  then show "out_weight s' \<le> out_weight s" "wrote \<Longrightarrow> out_weight s' < out_weight s"
    using vw weight_remove [of sid s1] by (auto split: if_splits)
qed

function pump_loop :: "nat \<Rightarrow> nat \<Rightarrow> nat \<Rightarrow> ('b, 'k) sender \<Rightarrow> ('b, 'k) sender" where
  "pump_loop now max_frame visits s =
     (if visits = 0 then s
      else case sd_schedule s of
        [] \<Rightarrow> s
      | sid # rest \<Rightarrow>
          (case pump_step now max_frame sid (s\<lparr>sd_schedule := rest\<rparr>) of
             (wrote, s1) \<Rightarrow>
               pump_loop now max_frame (if wrote then length (sd_schedule s1) else visits - 1) s1))"
  by pat_completeness auto
termination
proof (relation "measures [\<lambda>(now, mf, v, s). out_weight s, \<lambda>(now, mf, v, s). v]", goal_cases)
  case (2 now mf visits s sid rest wrote s1)
  then have "pump_step now mf sid (s\<lparr>sd_schedule := rest\<rparr>) = (wrote, s1)" by simp
  from pump_step_weight [OF this] show ?case using 2 by (cases wrote) auto
qed simp

declare pump_loop.simps [simp del]

definition pump_streams :: "nat \<Rightarrow> peer_settings \<Rightarrow> ('b, 'k) sender \<Rightarrow> ('b, 'k) sender" where
  "pump_streams now peer s =
     pump_loop now (max (unat (p_max_frame_size peer)) 1) (length (sd_schedule s)) s"

section \<open>Pulls and resets\<close>

text \<open>A chunk, the end of the body, or an error of the body.\<close>

datatype pull_result = Chunk bytes | PullError | EndOfBody

definition apply_pull :: "u32 \<Rightarrow> 'b \<Rightarrow> pull_result \<Rightarrow> ('b, 'k) sender \<Rightarrow> ('b, 'k) sender" where
  "apply_pull sid body res s =
     (case get_out s sid of
        None \<Rightarrow> s
      | Some st0 \<Rightarrow>
          (let st = st0\<lparr>os_pulling := False\<rparr>
           in case res of
             Chunk data \<Rightarrow>
               put_out sid (st\<lparr>os_body := Some body,
                 os_pending := (if os_pending st = [] then data else os_pending st @ data)\<rparr>) s
           | EndOfBody \<Rightarrow> put_out sid (st\<lparr>os_eof := True\<rparr>) s
           | PullError \<Rightarrow>
               put_out sid (st\<lparr>os_completion := None, os_done := True\<rparr>)
                 (out_write (\<lambda>b. write_rst_stream b sid err_INTERNAL_ERROR)
                   (s\<lparr>sd_ends := sd_ends s @ (case os_completion st of None \<Rightarrow> [] | Some k \<Rightarrow> [(k, Error)])\<rparr>))))"

text \<open>Scanning the responses: the expired ones in iteration order and the earliest other deadline.\<close>

definition note_deadline :: "nat \<Rightarrow> u32 \<Rightarrow> nat \<Rightarrow> u32 list \<times> nat option \<Rightarrow> u32 list \<times> nat option" where
  "note_deadline now sid deadline acc =
     (case acc of (expired, earliest) \<Rightarrow>
        if deadline \<le> now then (expired @ [sid], earliest)
        else (expired, Some (case earliest of None \<Rightarrow> deadline | Some e \<Rightarrow> min e deadline)))"

definition reset_cancel :: "u32 \<Rightarrow> ('b, 'k) sender \<Rightarrow> ('b, 'k) sender" where
  "reset_cancel sid s = cancel_outstream sid (out_write (\<lambda>b. write_rst_stream b sid err_CANCEL) s)"

definition reset_stalled_streams ::
  "nat \<Rightarrow> nat option \<Rightarrow> ('b, 'k) sender \<Rightarrow> nat option \<times> ('b, 'k) sender" where
  "reset_stalled_streams now timeout s =
     (case timeout of
        None \<Rightarrow> (None, s)
      | Some t \<Rightarrow>
          (case fold (\<lambda>(sid, st) acc.
                   case os_stall st of None \<Rightarrow> acc | Some ss \<Rightarrow> note_deadline now sid (ss_since ss + t) acc)
                 (sd_outstreams s) ([], None) of
             (expired, earliest) \<Rightarrow>
               (earliest, fold (\<lambda>sid s. reset_cancel sid (s\<lparr>sd_stall_resets := sd_stall_resets s + 1\<rparr>)) expired s)))"

text \<open>\<open>idle_since\<close> maps a response waiting on its backend to the instant it was first seen waiting.\<close>

definition drain_idle_scan ::
  "nat \<Rightarrow> nat \<Rightarrow> u32 \<times> ('b, 'k) out_stream
   \<Rightarrow> (u32 \<times> nat) list \<times> u32 list \<times> nat option \<Rightarrow> (u32 \<times> nat) list \<times> u32 list \<times> nat option" where
  "drain_idle_scan now grace entry acc =
     (case (entry, acc) of ((sid, st), (idle, found)) \<Rightarrow>
        if os_done st \<or> \<not> os_pulling st \<or> os_pending st \<noteq> [] then (AList.delete sid idle, found)
        else
          (let since = (case map_of idle sid of None \<Rightarrow> now | Some t \<Rightarrow> t)
           in (AList.update sid since idle, note_deadline now sid (since + grace) found)))"

definition reset_drain_idle_streams ::
  "nat \<Rightarrow> nat \<Rightarrow> (u32 \<times> nat) list \<Rightarrow> ('b, 'k) sender \<Rightarrow> nat option \<times> (u32 \<times> nat) list \<times> ('b, 'k) sender" where
  "reset_drain_idle_streams now grace idle_since s =
     (case fold (drain_idle_scan now grace) (sd_outstreams s) (idle_since, [], None) of
        (idle, expired, earliest) \<Rightarrow>
          (earliest,
           fold AList.delete expired (filter (\<lambda>(sid, t). get_out s sid \<noteq> None) idle),
           fold reset_cancel expired s))"

section \<open>What a pump sends\<close>

text \<open>A DATA frame that was sent: its stream, payload and END\_STREAM flag.\<close>

type_synonym data_frame = "u32 \<times> bytes \<times> bool"

definition data_wire :: "u32 \<times> bytes \<times> bool \<Rightarrow> bytes" where
  "data_wire f = (case f of (sid, p, fin) \<Rightarrow> frame_write (data_header sid (length p) fin) [] @ p)"

definition frames_of :: "u32 \<Rightarrow> (u32 \<times> bytes \<times> bool) list \<Rightarrow> (bytes \<times> bool) list" where
  "frames_of sid frs = map snd (filter (\<lambda>f. fst f = sid) frs)"

definition payload_octets :: "(bytes \<times> bool) list \<Rightarrow> nat" where
  "payload_octets fs = sum_list (map (length \<circ> fst) fs)"

text \<open>
  The frames of one stream, from its state before to its state after. A response that stays has
  sent a prefix of its buffer without END\_STREAM; one that is gone had sent nothing because it was
  over, or has sent its whole buffer and END\_STREAM on the last frame, after the end of its body.
\<close>

definition stream_log ::
  "('b, 'k) out_stream option \<Rightarrow> ('b, 'k) out_stream option \<Rightarrow> (bytes \<times> bool) list \<Rightarrow> bool" where
  "stream_log before after fs =
     (case before of
        None \<Rightarrow> fs = [] \<and> after = None
      | Some st \<Rightarrow>
          int (payload_octets fs) \<le> max 0 (os_window st) \<and> (os_done st \<longrightarrow> fs = []) \<and>
          (case after of
             Some st' \<Rightarrow> os_pending st = concat (map fst fs) @ os_pending st' \<and> list_all (\<lambda>f. \<not> snd f) fs \<and>
               os_eof st' = os_eof st \<and> os_done st' = os_done st \<and>
               os_window st' = os_window st - int (payload_octets fs)
           | None \<Rightarrow>
               os_done st \<or>
               os_eof st \<and> concat (map fst fs) = os_pending st \<and> fs \<noteq> [] \<and> snd (last fs) \<and>
                 list_all (\<lambda>f. \<not> snd f) (butlast fs)))"

definition sent_by :: "nat \<Rightarrow> ('b, 'k) sender \<Rightarrow> (u32 \<times> bytes \<times> bool) list \<Rightarrow> ('b, 'k) sender \<Rightarrow> bool" where
  "sent_by mf s frs s' =
     (sd_out s' = sd_out s @ concat (map data_wire frs) \<and>
      sd_send_conn s' = sd_send_conn s - int (payload_octets (map snd frs)) \<and>
      int (payload_octets (map snd frs)) \<le> max 0 (sd_send_conn s) \<and>
      list_all (\<lambda>(sid, p, fin). length p \<le> mf \<and> (p = [] \<longrightarrow> fin)) frs \<and>
      (\<forall>sid. stream_log (get_out s sid) (get_out s' sid) (frames_of sid frs)))"

lemma payload_simps [simp]:
  "payload_octets [] = 0" "payload_octets (f # fs) = length (fst f) + payload_octets fs"
  "payload_octets (fs @ gs) = payload_octets fs + payload_octets gs"
  by (simp_all add: payload_octets_def)

lemma frames_of_simps [simp]:
  "frames_of sid [] = []" "frames_of sid (f # frs) = (if fst f = sid then snd f # frames_of sid frs else frames_of sid frs)"
  "frames_of sid (frs @ grs) = frames_of sid frs @ frames_of sid grs"
  by (simp_all add: frames_of_def)

lemma stream_log_refl [simp]: "stream_log o1 o1 []"
  by (simp add: stream_log_def split: option.splits)

lemma stream_log_trans:
  assumes "stream_log o1 o2 fs" "stream_log o2 o3 gs"
  shows "stream_log o1 o3 (fs @ gs)"
proof (cases o1)
  case None
  then show ?thesis using assms by (simp add: stream_log_def)
next
  case s1: (Some st)
  show ?thesis
  proof (cases o2)
    case None
    then show ?thesis using assms s1 by (simp add: stream_log_def)
  next
    case s2: (Some st2)
    then have a: "int (payload_octets fs) \<le> max 0 (os_window st)" "os_pending st = concat (map fst fs) @ os_pending st2"
        "list_all (\<lambda>f. \<not> snd f) fs" "os_eof st2 = os_eof st" "os_done st2 = os_done st"
        "os_window st2 = os_window st - int (payload_octets fs)" "os_done st \<longrightarrow> fs = []"
      and b: "int (payload_octets gs) \<le> max 0 (os_window st2)"
      using assms s1 by (simp_all add: stream_log_def)
    have w: "int (payload_octets (fs @ gs)) \<le> max 0 (os_window st)" using a(1,6) b by (simp add: max_def split: if_splits)
    show ?thesis
    proof (cases o3)
      case None
      then show ?thesis
        using assms(2) s1 s2 a w by (auto simp: stream_log_def butlast_append split: if_splits)
    next
      case (Some st3)
      then show ?thesis using assms(2) s1 s2 a w by (simp add: stream_log_def)
    qed
  qed
qed

lemma sent_by_trans:
  assumes "sent_by mf s frs s1" "sent_by mf s1 grs s2"
  shows "sent_by mf s (frs @ grs) s2"
proof -
  have "int (payload_octets (map snd (frs @ grs))) \<le> max 0 (sd_send_conn s)"
    using assms by (auto simp: sent_by_def max_def split: if_splits)
  then show ?thesis
    using assms stream_log_trans unfolding sent_by_def by (fastforce simp del: payload_simps(2))
qed

lemma sent_by_stream:
  assumes "\<And>i. i \<noteq> sid \<Longrightarrow> get_out s' i = get_out s i"
    and "stream_log (get_out s sid) (get_out s' sid) fs"
    and "sd_out s' = sd_out s @ concat (map (\<lambda>f. data_wire (sid, f)) fs)"
    and "sd_send_conn s' = sd_send_conn s - int (payload_octets fs)"
    and "int (payload_octets fs) \<le> max 0 (sd_send_conn s)"
    and "list_all (\<lambda>(p, fin). length p \<le> mf \<and> (p = [] \<longrightarrow> fin)) fs"
  shows "sent_by mf s (map (\<lambda>f. (sid, f)) fs) s'"
proof -
  have "frames_of i (map (\<lambda>f. (sid, f)) fs) = (if i = sid then fs else [])" for i
    by (simp add: frames_of_def filter_map comp_def)
  then show ?thesis using assms by (simp add: sent_by_def comp_def list_all_iff split_def)
qed

lemma pump_one_frame_keeps:
  "pump_one_frame sid st mf s = (wrote, st', s') \<Longrightarrow> get_out s' i = get_out s i \<and> sd_schedule s' = sd_schedule s"
  by (erule pump_one_frameE) simp_all

text \<open>One visit sends at most one frame; the visited stream stays in the schedule unless it is over.\<close>

lemma pump_one_frame_log:
  assumes "pump_one_frame sid st mf s = (wrote, st', s')" "\<not> os_done st"
  obtains fs where "stream_log (Some st) (if os_done st' then None else Some st') fs"
    "sd_out s' = sd_out s @ concat (map (\<lambda>f. data_wire (sid, f)) fs)"
    "sd_send_conn s' = sd_send_conn s - int (payload_octets fs)"
    "int (payload_octets fs) \<le> max 0 (sd_send_conn s)"
    "list_all (\<lambda>(p, fin). length p \<le> mf \<and> (p = [] \<longrightarrow> fin)) fs"
  using assms(1)
proof (cases rule: pump_one_frameE)
  case (data n fin)
  show thesis
    by (rule that [of "[(take n (os_pending st), fin)]"])
      (use data assms(2) in \<open>auto simp: stream_log_def data_wire_def frame_write_append [of _ "sd_out s"]\<close>)
next
  case final
  show thesis
    by (rule that [of "[([], True)]"])
      (use final in \<open>auto simp: stream_log_def data_wire_def frame_write_append [of _ "sd_out s"]\<close>)
qed (use assms(2) in \<open>auto intro!: that [of "[]"] simp: stream_log_def\<close>)

lemma stream_log_core:
  "os_core st' = os_core st \<Longrightarrow> stream_log o1 (Some st') fs = stream_log o1 (Some st) fs"
  by (auto simp: stream_log_def os_core_def split: option.splits)

lemma pump_step_sent:
  assumes "pump_step now mf sid s = (wrote, s')"
  shows "\<exists>frs. sent_by mf s frs s'"
proof -
  obtain keep w s1 where v: "pump_visit now mf sid s = (keep, w, s1)" by (metis prod_cases3)
  have s': "s' = (if keep then s1\<lparr>sd_schedule := sd_schedule s1 @ [sid]\<rparr> else remove_out sid s1)"
    using assms v by (simp add: pump_step_def)
  from v show ?thesis
  proof (cases rule: pump_visitE)
    case gone
    have "sent_by mf s (map (\<lambda>f. (sid, f)) []) s'"
      by (rule sent_by_stream) (use gone s' in \<open>auto simp: stream_log_def split: option.splits\<close>)
    then show ?thesis ..
  next
    case (live st st1 s2 st3 ps)
    note keeps = pump_one_frame_keeps [OF live(3)]
    from live(3,2) obtain fs where fs: "stream_log (Some st) (if os_done st1 then None else Some st1) fs"
      "sd_out s2 = sd_out s @ concat (map (\<lambda>f. data_wire (sid, f)) fs)"
      "sd_send_conn s2 = sd_send_conn s - int (payload_octets fs)"
      "int (payload_octets fs) \<le> max 0 (sd_send_conn s)"
      "list_all (\<lambda>(p, fin). length p \<le> mf \<and> (p = [] \<longrightarrow> fin)) fs"
      by (rule pump_one_frame_log)
    have "sent_by mf s (map (\<lambda>f. (sid, f)) fs) s'"
      by (rule sent_by_stream)
        (use live(1,5,6) s' keeps fs in \<open>simp_all add: stream_log_core [OF live(4)] split: if_splits\<close>)
    then show ?thesis ..
  qed
qed

lemma pump_loop_sent: "\<exists>frs. sent_by mf s frs (pump_loop now mf visits s)"
proof (induction now mf visits s rule: pump_loop.induct)
  case (1 now mf visits s)
  have refl: "sent_by mf s [] s" by (simp add: sent_by_def)
  show ?case
  proof (cases "visits = 0 \<or> sd_schedule s = []")
    case True
    then have "pump_loop now mf visits s = s" by (subst pump_loop.simps) auto
    then show ?thesis using refl by auto
  next
    case False
    then obtain sid rest where sch: "sd_schedule s = sid # rest" by (cases "sd_schedule s") auto
    obtain wrote s1 where st: "pump_step now mf sid (s\<lparr>sd_schedule := rest\<rparr>) = (wrote, s1)" by (metis surj_pair)
    have run: "pump_loop now mf visits s =
        pump_loop now mf (if wrote then length (sd_schedule s1) else visits - 1) s1"
      using False sch st by (subst pump_loop.simps) simp
    obtain frs where "sent_by mf (s\<lparr>sd_schedule := rest\<rparr>) frs s1" using pump_step_sent [OF st] by blast
    then have a: "sent_by mf s frs s1" by (simp add: sent_by_def)
    obtain grs where "sent_by mf s1 grs (pump_loop now mf visits s)"
      using "1.IH" [OF _ sch st [symmetric]] False run by auto
    then show ?thesis using sent_by_trans [OF a] by blast
  qed
qed

text \<open>
  C7. A pump respects flow control and delivers exactly. For every state of the responses, what the
  pump appends to the output is a sequence of DATA frames: their payloads together fit the
  connection's credit and are what it is charged, each fits the peer's frame size, an empty one is
  only sent to end a stream, and for every stream its frames carry, in order, a prefix of its buffer
  no longer than its own credit. The stream's buffer keeps the rest and END\_STREAM is not sent; or
  the stream is gone, having sent its whole buffer after the end of its body with END\_STREAM on the
  last frame only.
\<close>

theorem pump_exact:
  "\<exists>frs.
     sd_out (pump_streams now peer s) = sd_out s @ concat (map data_wire frs) \<and>
     sd_send_conn (pump_streams now peer s) = sd_send_conn s - int (payload_octets (map snd frs)) \<and>
     int (payload_octets (map snd frs)) \<le> max 0 (sd_send_conn s) \<and>
     list_all (\<lambda>(sid, p, fin). length p \<le> max (unat (p_max_frame_size peer)) 1 \<and> (p = [] \<longrightarrow> fin)) frs \<and>
     (\<forall>sid. stream_log (get_out s sid) (get_out (pump_streams now peer s) sid) (frames_of sid frs))"
  using pump_loop_sent [of "max (unat (p_max_frame_size peer)) 1" s now "length (sd_schedule s)"]
  unfolding sent_by_def pump_streams_def by simp

section \<open>What is left after a pump\<close>

definition sender_ok :: "('b, 'k) sender \<Rightarrow> bool" where
  "sender_ok s \<longleftrightarrow> distinct (sd_schedule s) \<and> fst ` set (sd_outstreams s) \<subseteq> set (sd_schedule s)"

text \<open>A response that no frame can be sent for.\<close>

definition stuck :: "('b, 'k) sender \<Rightarrow> u32 \<Rightarrow> bool" where
  "stuck s sid =
     (case get_out s sid of
        None \<Rightarrow> True
      | Some st \<Rightarrow> \<not> os_done st \<and>
          (if os_pending st = [] then \<not> os_eof st else sd_send_conn s \<le> 0 \<or> os_window st \<le> 0))"

lemma stuck_cong: "get_out s' sid = get_out s sid \<Longrightarrow> sd_send_conn s' = sd_send_conn s \<Longrightarrow> stuck s' sid = stuck s sid"
  by (simp add: stuck_def split: option.splits)

lemma pump_step_effect:
  assumes "pump_step now mf sid s = (wrote, s')" "0 < mf"
  shows "\<And>i. i \<noteq> sid \<Longrightarrow> get_out s' i = get_out s i"
    and "sd_schedule s' = (if get_out s' sid = None then sd_schedule s else sd_schedule s @ [sid])"
    and "\<not> wrote \<Longrightarrow> sd_send_conn s' = sd_send_conn s \<and> stuck s' sid"
proof -
  obtain keep w s1 where v: "pump_visit now mf sid s = (keep, w, s1)" by (metis prod_cases3)
  have s': "s' = (if keep then s1\<lparr>sd_schedule := sd_schedule s1 @ [sid]\<rparr> else remove_out sid s1)" and w: "w = wrote"
    using assms v by (simp_all add: pump_step_def)
  from v have "(\<forall>i. i \<noteq> sid \<longrightarrow> get_out s' i = get_out s i) \<and>
      sd_schedule s' = (if get_out s' sid = None then sd_schedule s else sd_schedule s @ [sid]) \<and>
      (\<not> wrote \<longrightarrow> sd_send_conn s' = sd_send_conn s \<and> stuck s' sid)"
  proof (cases rule: pump_visitE)
    case gone
    then show ?thesis using s' by (simp add: stuck_def)
  next
    case (live st st1 s2 st3 ps)
    have core: "os_pending st3 = os_pending st1" "os_eof st3 = os_eof st1" "os_done st3 = os_done st1"
        "os_window st3 = os_window st1" using live(4) by (simp_all add: os_core_def)
    have "\<not> wrote \<longrightarrow> sd_send_conn s2 = sd_send_conn s \<and>
        (os_done st1 \<or> (if os_pending st1 = [] then \<not> os_eof st1 else sd_send_conn s \<le> 0 \<or> os_window st1 \<le> 0))"
      using live(3) by (cases rule: pump_one_frameE) (use w assms(2) in auto)
    then show ?thesis
      using s' live(5,6) core pump_one_frame_keeps [OF live(3)] by (auto simp: stuck_def)
  qed
  then show "\<And>i. i \<noteq> sid \<Longrightarrow> get_out s' i = get_out s i"
    and "sd_schedule s' = (if get_out s' sid = None then sd_schedule s else sd_schedule s @ [sid])"
    and "\<not> wrote \<Longrightarrow> sd_send_conn s' = sd_send_conn s \<and> stuck s' sid" by blast+
qed

lemma get_out_keys: "fst ` set (sd_outstreams s) \<subseteq> A \<longleftrightarrow> (\<forall>i. get_out s i \<noteq> None \<longrightarrow> i \<in> A)"
  by (force simp: get_out_def map_of_eq_None_iff)

lemma pump_loop_stuck:
  assumes "0 < mf" "sender_ok s" "visits \<le> length (sd_schedule s)"
    and "\<forall>i \<in> set (drop visits (sd_schedule s)). stuck s i"
  shows "sender_ok (pump_loop now mf visits s) \<and> (\<forall>i. stuck (pump_loop now mf visits s) i)"
  using assms
proof (induction now mf visits s rule: pump_loop.induct)
  case (1 now mf visits s)
  show ?case
  proof (cases "visits = 0 \<or> sd_schedule s = []")
    case True
    then have "pump_loop now mf visits s = s" by (subst pump_loop.simps) auto
    moreover have "stuck s i" for i
    proof (cases "get_out s i = None")
      case False
      then have "i \<in> set (sd_schedule s)" using "1.prems"(2) by (auto simp: sender_ok_def get_out_keys)
      then show ?thesis using True "1.prems"(4) by auto
    qed (simp add: stuck_def)
    ultimately show ?thesis using "1.prems" by simp
  next
    case False
    then obtain sid rest where sch: "sd_schedule s = sid # rest" by (cases "sd_schedule s") auto
    obtain wrote s1 where st: "pump_step now mf sid (s\<lparr>sd_schedule := rest\<rparr>) = (wrote, s1)" by (metis surj_pair)
    let ?v = "if wrote then length (sd_schedule s1) else visits - 1"
    have run: "pump_loop now mf visits s = pump_loop now mf ?v s1"
      using False sch st by (subst pump_loop.simps) simp
    note eff = pump_step_effect [OF st "1.prems"(1)]
    have "i \<in> set (sd_schedule s1)" if "get_out s1 i \<noteq> None" for i
      using that "1.prems"(2) eff(1) [of i] eff(2) sch
      by (cases "i = sid") (auto simp: sender_ok_def get_out_keys)
    then have ok: "sender_ok s1"
      using "1.prems"(2) eff(2) sch unfolding sender_ok_def get_out_keys by auto
    have len: "?v \<le> length (sd_schedule s1)" using eff(2) "1.prems"(3) sch by (auto split: if_splits)
    have tail: "stuck s1 i" if w: "\<not> wrote" and i: "i \<in> set (drop (visits - 1) (sd_schedule s1))" for i
    proof (cases "i = sid")
      case True
      then show ?thesis using eff(3) w by blast
    next
      case ne: False
      obtain v where v: "visits = Suc v" using False by (cases visits) auto
      have "i \<in> set (drop (visits - 1) rest)"
        using i ne eff(2) by (auto split: if_splits dest: in_set_dropD)
      then have "i \<in> set (drop visits (sd_schedule s))" using sch v by simp
      then have "stuck s i" using "1.prems"(4) by blast
      then show ?thesis using eff(1) [OF ne] eff(3) [OF w] stuck_cong [of s1 i s] by simp
    qed
    have "sender_ok (pump_loop now mf ?v s1) \<and> (\<forall>i. stuck (pump_loop now mf ?v s1) i)"
      by (rule "1.IH" [OF _ sch st [symmetric]]) (use False "1.prems"(1) ok len tail in \<open>auto split: if_splits\<close>)
    then show ?thesis using run by simp
  qed
qed

text \<open>
  C8. A pump leaves nothing that could be sent. Once every response is scheduled once, the pump ends
  with every remaining response scheduled once and waiting on something else: one with octets left
  has no credit of its own or the connection has none, and one with none left has not seen the end
  of its body. No response that is over, or that could still be ended, is left behind.
\<close>

theorem pump_work_conserving:
  assumes "sender_ok s"
  shows "sender_ok (pump_streams now peer s) \<and> (\<forall>sid. stuck (pump_streams now peer s) sid)"
  unfolding pump_streams_def using assms by (intro pump_loop_stuck) auto

text \<open>Two responses, one of them ending within the credit and one longer than it.\<close>

definition sample_stream :: "nat \<Rightarrow> bool \<Rightarrow> (unit, nat) out_stream" where
  "sample_stream n eof =
     \<lparr>os_completion = Some n, os_pending = replicate n 0, os_body = None, os_pulling = False, os_eof = eof,
      os_done = False, os_window = 4, os_cancel = False, os_stall = None, os_send_blocked = False\<rparr>"

definition sample_sender :: "(unit, nat) sender" where
  "sample_sender =
     \<lparr>sd_outstreams = [(1, sample_stream 3 True), (3, sample_stream 6 True)], sd_schedule = [1, 3], sd_out = [],
      sd_completions = [], sd_ends = [], sd_send_conn = 65535, sd_pulls = [], sd_blocked_conn = 0,
      sd_blocked_stream = 0, sd_stall_resets = 0\<rparr>"

theorem pump_work_conserving_witness:
  "sender_ok sample_sender \<and> (\<forall>sid. stuck (pump_streams 0 peer_default sample_sender) sid)"
  using pump_work_conserving [of sample_sender 0 peer_default]
  by (simp add: sender_ok_def sample_sender_def)

theorem pump_exact_witness:
  "\<exists>frs. sd_out (pump_streams 0 peer_default sample_sender) = concat (map data_wire frs)
     \<and> payload_octets (frames_of 3 frs) \<le> 4 \<and> list_all (\<lambda>(sid, p, fin). length p \<le> 16384) frs"
proof -
  obtain frs where frs: "sd_out (pump_streams 0 peer_default sample_sender) = sd_out sample_sender @ concat (map data_wire frs)"
      "list_all (\<lambda>(sid, p, fin). length p \<le> max (unat (p_max_frame_size peer_default)) 1 \<and> (p = [] \<longrightarrow> fin)) frs"
      "stream_log (get_out sample_sender 3) (get_out (pump_streams 0 peer_default sample_sender) 3) (frames_of 3 frs)"
    using pump_exact [of 0 peer_default sample_sender] by blast
  have "get_out sample_sender 3 = Some (sample_stream 6 True)" by (simp add: get_out_def sample_sender_def)
  then have "int (payload_octets (frames_of 3 frs)) \<le> max 0 (os_window (sample_stream 6 True))"
    using frs(3) by (simp add: stream_log_def)
  then have "payload_octets (frames_of 3 frs) \<le> 4" by (simp add: sample_stream_def)
  moreover have "list_all (\<lambda>(sid, p, fin). length p \<le> 16384) frs"
    using frs(2) by (auto simp: list_all_iff peer_default_def)
  moreover have "sd_out (pump_streams 0 peer_default sample_sender) = concat (map data_wire frs)"
    using frs(1) by (simp add: sample_sender_def)
  ultimately show ?thesis by blast
qed

section \<open>Which streams are reset\<close>

definition rst_frames :: "u32 list \<Rightarrow> bytes" where
  "rst_frames sids = concat (map (\<lambda>sid. write_rst_stream [] sid err_CANCEL) sids)"

definition earliest_of :: "nat list \<Rightarrow> nat option" where
  "earliest_of ds = (if ds = [] then None else Some (Min (set ds)))"

lemma earliest_of_snoc:
  "earliest_of (ds @ [d]) = Some (case earliest_of ds of None \<Rightarrow> d | Some e \<Rightarrow> min e d)"
  by (simp add: earliest_of_def min.commute)

lemma note_deadlines:
  "fold (\<lambda>(sid, d). note_deadline now sid d) ds ([], None)
   = (map fst (filter (\<lambda>(sid, d). d \<le> now) ds), earliest_of (map snd (filter (\<lambda>(sid, d). now < d) ds)))"
proof (induction ds rule: rev_induct)
  case (snoc d ds)
  then show ?case by (cases d) (simp add: note_deadline_def earliest_of_snoc)
qed (simp add: earliest_of_def)

text \<open>A scan that notes a deadline for some of the entries notes the list of them.\<close>

lemma fold_note_some:
  "fold (\<lambda>(sid, st) acc. case f st of None \<Rightarrow> acc | Some d \<Rightarrow> note_deadline now sid (g d) acc) al acc
   = fold (\<lambda>(sid, d). note_deadline now sid d)
       (List.map_filter (\<lambda>(sid, st). map_option (\<lambda>d. (sid, g d)) (f st)) al) acc"
  by (induction al arbitrary: acc) (auto simp: List.map_filter_simps split: option.splits)

lemma write_rst_stream_append: "write_rst_stream out sid code = out @ write_rst_stream [] sid code"
  using write_frame_append [of out] by (simp add: write_rst_stream_def)

lemma map_of_filter_keys: "map_of (filter (\<lambda>(k, v). P k) al) i = (if P i then map_of al i else None)"
  by (induction al) auto

definition expire :: "('b, 'k) sender \<Rightarrow> u32 list \<Rightarrow> ('b, 'k) sender \<Rightarrow> bool" where
  "expire s sids s' \<longleftrightarrow>
     sd_out s' = sd_out s @ rst_frames sids \<and>
     sd_outstreams s' = filter (\<lambda>(sid, st). sid \<notin> set sids) (sd_outstreams s)"

lemma reset_cancel_expire: "expire s [sid] (reset_cancel sid s)"
  using write_rst_stream_append [of "sd_out s" sid err_CANCEL]
  by (simp add: expire_def reset_cancel_def rst_frames_def cancel_outstreams out_write_def AList.delete_eq split_def
      eq_commute [of sid])

lemma expire_trans: "expire s is s1 \<Longrightarrow> expire s1 js s2 \<Longrightarrow> expire s (is @ js) s2"
  by (simp add: expire_def rst_frames_def split_def conj_commute)

lemma expire_fold:
  assumes "\<And>sid s. expire s [sid] (f sid s)"
  shows "expire s sids (fold f sids s)"
proof (induction sids arbitrary: s)
  case (Cons sid sids)
  then show ?case using expire_trans [OF assms [of s sid]] by fastforce
qed (simp add: expire_def rst_frames_def)

lemma expire_get_out: "expire s sids s' \<Longrightarrow> get_out s' i = (if i \<in> set sids then None else get_out s i)"
  by (simp add: expire_def get_out_def map_of_filter_keys [of "\<lambda>i. i \<notin> set sids"])

definition stall_deadlines :: "nat \<Rightarrow> ('b, 'k) sender \<Rightarrow> (u32 \<times> nat) list" where
  "stall_deadlines t s =
     List.map_filter (\<lambda>(sid, st). map_option (\<lambda>ss. (sid, ss_since ss + t)) (os_stall st)) (sd_outstreams s)"

lemma reset_stalled_eq:
  fixes s :: "('a, 'b) sender"
  assumes "reset_stalled_streams now (Some t) s = (earliest, s')"
  shows "expire s (map fst (filter (\<lambda>(sid, d). d \<le> now) (stall_deadlines t s))) s'"
    "earliest = earliest_of (map snd (filter (\<lambda>(sid, d). now < d) (stall_deadlines t s)))"
proof -
  let ?f = "\<lambda>sid s. reset_cancel sid (s\<lparr>sd_stall_resets := sd_stall_resets s + 1\<rparr>) :: ('a, 'b) sender"
  have one: "expire s [sid] (?f sid s)" for s :: "('a, 'b) sender" and sid
    using reset_cancel_expire [of "s\<lparr>sd_stall_resets := sd_stall_resets s + 1\<rparr>" sid] by (simp add: expire_def)
  have eq: "(earliest, s') =
      (earliest_of (map snd (filter (\<lambda>(sid, d). now < d) (stall_deadlines t s))),
       fold ?f (map fst (filter (\<lambda>(sid, d). d \<le> now) (stall_deadlines t s))) s)"
    using assms unfolding reset_stalled_streams_def stall_deadlines_def
    by (simp add: fold_note_some note_deadlines)
  then show "expire s (map fst (filter (\<lambda>(sid, d). d \<le> now) (stall_deadlines t s))) s'"
    "earliest = earliest_of (map snd (filter (\<lambda>(sid, d). now < d) (stall_deadlines t s)))"
    using expire_fold [of ?f, OF one] by simp_all
qed

definition out_ok :: "('b, 'k) sender \<Rightarrow> bool" where
  "out_ok s \<longleftrightarrow> distinct (map fst (sd_outstreams s))"

lemma map_filter_keys:
  "(\<And>k v d. (k, v) \<in> set al \<Longrightarrow> f (k, v) = Some d \<Longrightarrow> P k \<longleftrightarrow> Q d) \<Longrightarrow>
   List.map_filter f (filter (\<lambda>(k, v). P k) al) = filter Q (List.map_filter f al)"
  by (induction al) (force simp: List.map_filter_simps split: option.splits)+

lemma stall_deadlines_mem:
  "out_ok s \<Longrightarrow> (sid, d) \<in> set (stall_deadlines t s) \<longleftrightarrow>
     (\<exists>st ss. get_out s sid = Some st \<and> os_stall st = Some ss \<and> d = ss_since ss + t)"
  by (force simp: stall_deadlines_def List.map_filter_def get_out_def out_ok_def)

lemma distinct_map_filter_keys:
  "distinct (map fst al) \<Longrightarrow> (\<And>k v d. f (k, v) = Some d \<Longrightarrow> fst d = k) \<Longrightarrow>
   distinct (map fst (filter Q (List.map_filter f al)))"
proof (induction al)
  case (Cons e al)
  obtain k v where e: "e = (k, v)" by force
  have sub: "fst ` set (List.map_filter f al) \<subseteq> fst ` set al"
    using Cons.prems(2) by (force simp: List.map_filter_def)
  have ih: "distinct (map fst (filter Q (List.map_filter f al)))" using Cons by simp
  show ?case
  proof (cases "f (k, v)")
    case None
    then show ?thesis using ih e by (simp add: List.map_filter_simps)
  next
    case (Some d)
    have "k \<notin> fst ` set (List.map_filter f al)" using sub Cons.prems(1) e by auto
    then show ?thesis using Some ih e Cons.prems(2) [OF Some] by (auto simp: List.map_filter_simps)
  qed
qed (simp add: List.map_filter_simps)

definition stalled :: "nat \<Rightarrow> nat \<Rightarrow> ('b, 'k) sender \<Rightarrow> u32 \<Rightarrow> bool" where
  "stalled now t s sid =
     (case get_out s sid of
        None \<Rightarrow> False
      | Some st \<Rightarrow> (case os_stall st of None \<Rightarrow> False | Some ss \<Rightarrow> ss_since ss + t \<le> now))"

text \<open>
  C37. The responses that are reset for stalling are exactly those that have waited for the peer's
  credit for the whole timeout: each of them is removed and announced with one RST\_STREAM frame,
  every other response is untouched, and the instant returned is the earliest at which one of the
  remaining ones is due.
\<close>

theorem stalled_streams_reset:
  assumes "out_ok s" "reset_stalled_streams now (Some t) s = (earliest, s')"
  shows "(\<forall>sid. get_out s' sid = (if stalled now t s sid then None else get_out s sid))
    \<and> (\<exists>sids. distinct sids \<and> set sids = {sid. stalled now t s sid} \<and> sd_out s' = sd_out s @ rst_frames sids)
    \<and> earliest = earliest_of (map snd (stall_deadlines t s'))"
proof -
  let ?late = "map fst (filter (\<lambda>(sid, d). d \<le> now) (stall_deadlines t s))"
  note r = reset_stalled_eq [OF assms(2)]
  have set: "set ?late = {sid. stalled now t s sid}"
  proof -
    have "sid \<in> set ?late \<longleftrightarrow> (\<exists>d. (sid, d) \<in> set (stall_deadlines t s) \<and> d \<le> now)" for sid by force
    then show ?thesis
      unfolding stall_deadlines_mem [OF assms(1)] stalled_def set_eq_iff mem_Collect_eq
      by (auto split: option.split)
  qed
  have dist: "distinct ?late"
    using assms(1) unfolding out_ok_def stall_deadlines_def by (rule distinct_map_filter_keys) auto
  have tbl: "sd_outstreams s' = filter (\<lambda>(sid, st). \<not> stalled now t s sid) (sd_outstreams s)"
    using r(1) set unfolding expire_def by simp
  have "stall_deadlines t s' = filter (\<lambda>(sid, d). now < d) (stall_deadlines t s)"
    unfolding stall_deadlines_def tbl
    by (rule map_filter_keys) (use assms(1) in \<open>auto simp: stalled_def get_out_def out_ok_def\<close>)
  then have "earliest = earliest_of (map snd (stall_deadlines t s'))" using r(2) by simp
  moreover have "sd_out s' = sd_out s @ rst_frames ?late" using r(1) unfolding expire_def by blast
  moreover have "get_out s' sid = (if stalled now t s sid then None else get_out s sid)" for sid
    unfolding expire_get_out [OF r(1)] set by simp
  ultimately show ?thesis using set dist by blast
qed

definition stalled_sender :: "(unit, nat) sender" where
  "stalled_sender =
     sample_sender\<lparr>sd_outstreams :=
       [(1, sample_stream 3 True\<lparr>os_stall := Some \<lparr>ss_since = 5, ss_progressed = 0\<rparr>\<rparr>),
        (3, sample_stream 6 True\<lparr>os_stall := Some \<lparr>ss_since = 9, ss_progressed = 7\<rparr>\<rparr>)]\<rparr>"

theorem stalled_streams_reset_witness:
  "\<exists>s'. reset_stalled_streams 16 (Some 10) stalled_sender = (Some 19, s') \<and> get_out s' 1 = None \<and> get_out s' 3 \<noteq> None"
proof -
  obtain e s' where r: "reset_stalled_streams 16 (Some 10) stalled_sender = (e, s')" by (metis surj_pair)
  have e: "e = Some 19"
    using r by (auto simp: reset_stalled_streams_def stalled_sender_def note_deadline_def split: if_splits)
  have "out_ok stalled_sender" by (simp add: out_ok_def stalled_sender_def)
  from stalled_streams_reset [OF this r] show ?thesis
    using r e by (auto simp: stalled_def stalled_sender_def get_out_def)
qed

subsection \<open>Responses that wait on their backend during a shutdown\<close>

definition waiting :: "('b, 'k) out_stream \<Rightarrow> bool" where
  "waiting st \<longleftrightarrow> \<not> os_done st \<and> os_pulling st \<and> os_pending st = []"

definition idle_start :: "nat \<Rightarrow> (u32 \<times> nat) list \<Rightarrow> u32 \<Rightarrow> nat" where
  "idle_start now idle sid = (case map_of idle sid of None \<Rightarrow> now | Some t \<Rightarrow> t)"

text \<open>The streams that wait and the instants since which they do, given what was known before.\<close>

definition idle_streams :: "nat \<Rightarrow> (u32 \<times> nat) list \<Rightarrow> (u32 \<times> ('b, 'k) out_stream) list \<Rightarrow> (u32 \<times> nat) list" where
  "idle_streams now idle al = map (\<lambda>(sid, st). (sid, idle_start now idle sid)) (filter (\<lambda>(sid, st). waiting st) al)"

lemma drain_idle_scan_eq:
  "drain_idle_scan now grace (sid, st) (idle, found) =
     (if waiting st then (AList.update sid (idle_start now idle sid) idle, note_deadline now sid (idle_start now idle sid + grace) found)
      else (AList.delete sid idle, found))"
  by (simp add: drain_idle_scan_def waiting_def idle_start_def Let_def)

lemma drain_scan_found:
  assumes "distinct (map fst al)"
  shows "snd (fold (drain_idle_scan now grace) al (idle, found))
    = fold (\<lambda>(sid, d). note_deadline now sid d) (map (\<lambda>(sid, t). (sid, t + grace)) (idle_streams now idle al)) found"
  using assms
proof (induction al arbitrary: idle found)
  case (Cons e al)
  obtain sid st where e: "e = (sid, st)" by force
  have same: "idle_streams now idle' al = idle_streams now idle al"
    if "\<And>i. i \<noteq> sid \<Longrightarrow> map_of idle' i = map_of idle i" for idle'
    using that Cons.prems e unfolding idle_streams_def idle_start_def by (force intro!: map_cong)
  have upd: "idle_streams now (AList.update sid t idle) al = idle_streams now idle al" for t
    by (rule same) (simp add: update_conv')
  have del: "idle_streams now (AList.delete sid idle) al = idle_streams now idle al"
    by (rule same) (simp add: delete_conv')
  have step: "idle_streams now idle (e # al) =
      (if waiting st then [(sid, idle_start now idle sid)] else []) @ idle_streams now idle al"
    using e by (simp add: idle_streams_def)
  show ?case using Cons.prems Cons.IH by (simp add: e [symmetric] step) (simp add: e drain_idle_scan_eq upd del)
qed (simp add: idle_streams_def)

lemma drain_scan_idle:
  assumes "distinct (map fst al)"
  shows "map_of (fst (fold (drain_idle_scan now grace) al (idle, found))) i
    = (case map_of al i of None \<Rightarrow> map_of idle i | Some st \<Rightarrow> if waiting st then Some (idle_start now idle i) else None)"
  using assms
proof (induction al arbitrary: idle found)
  case (Cons e al)
  obtain sid st where e: "e = (sid, st)" by force
  have no: "map_of al sid = None" using Cons.prems e by (simp add: map_of_eq_None_iff)
  obtain idle1 found1 where d: "drain_idle_scan now grace e (idle, found) = (idle1, found1)" by (metis surj_pair)
  have m1: "map_of idle1 j = (if j = sid then (if waiting st then Some (idle_start now idle sid) else None) else map_of idle j)" for j
    using d e by (auto simp: drain_idle_scan_eq update_conv' delete_conv' split: if_splits)
  have "map_of (fst (fold (drain_idle_scan now grace) (e # al) (idle, found))) i
      = (case map_of al i of None \<Rightarrow> map_of idle1 i | Some st \<Rightarrow> if waiting st then Some (idle_start now idle1 i) else None)"
    using Cons.IH [of idle1 found1] Cons.prems d by simp
  then show ?case
    using e no m1 [of i] by (cases "i = sid") (simp_all add: idle_start_def split: option.splits)
qed simp

lemma map_of_fold_delete: "map_of (fold AList.delete ks al) i = (if i \<in> set ks then None else map_of al i)"
  by (induction ks arbitrary: al) (auto simp: delete_conv')

definition idle_late :: "nat \<Rightarrow> nat \<Rightarrow> (u32 \<times> nat) list \<Rightarrow> ('b, 'k) sender \<Rightarrow> u32 \<Rightarrow> bool" where
  "idle_late now grace idle s sid =
     (case get_out s sid of None \<Rightarrow> False | Some st \<Rightarrow> waiting st \<and> idle_start now idle sid + grace \<le> now)"

text \<open>
  C38. While draining for a shutdown, the responses that are reset are exactly those that have waited
  on their backend for the whole grace period with nothing left to send: each is removed and
  announced with one RST\_STREAM frame, every other response is untouched, the instant since which
  each remaining one waits is remembered and no other is, and the instant returned is the earliest
  at which one of them is due.
\<close>

theorem drain_idle_streams_reset:
  assumes "out_ok s" "reset_drain_idle_streams now grace idle s = (earliest, idle', s')"
  shows "(\<forall>sid. get_out s' sid = (if idle_late now grace idle s sid then None else get_out s sid))
    \<and> (\<exists>sids. distinct sids \<and> set sids = {sid. idle_late now grace idle s sid} \<and> sd_out s' = sd_out s @ rst_frames sids)
    \<and> (\<forall>sid. map_of idle' sid =
         (case get_out s' sid of None \<Rightarrow> None | Some st \<Rightarrow> if waiting st then Some (idle_start now idle sid) else None))
    \<and> earliest = earliest_of (map (\<lambda>(sid, t). t + grace) (idle_streams now idle (sd_outstreams s')))"
proof -
  define ws where "ws = map (\<lambda>(sid, t). (sid, t + grace)) (idle_streams now idle (sd_outstreams s))"
  define late where "late = map fst (filter (\<lambda>(sid, d). d \<le> now) ws)"
  define idle1 where "idle1 = fst (fold (drain_idle_scan now grace) (sd_outstreams s) (idle, [], None))"
  have dist: "distinct (map fst (sd_outstreams s))" using assms(1) by (simp add: out_ok_def)
  have "fold (drain_idle_scan now grace) (sd_outstreams s) (idle, [], None)
      = (idle1, late, earliest_of (map snd (filter (\<lambda>(sid, d). now < d) ws)))"
    using drain_scan_found [OF dist, of now grace idle "([], None)"]
    by (simp add: idle1_def note_deadlines late_def ws_def [symmetric] prod_eq_iff)
  then have r: "earliest = earliest_of (map snd (filter (\<lambda>(sid, d). now < d) ws))"
      "idle' = fold AList.delete late (filter (\<lambda>(sid, t). get_out s sid \<noteq> None) idle1)"
      "s' = fold reset_cancel late s"
    using assms(2) by (simp_all add: reset_drain_idle_streams_def)
  have ex: "expire s late s'" unfolding r(3) by (rule expire_fold) (rule reset_cancel_expire)
  have late: "late = map fst (filter (\<lambda>(sid, st). waiting st \<and> idle_start now idle sid + grace \<le> now) (sd_outstreams s))"
    unfolding late_def ws_def idle_streams_def by (simp add: filter_map comp_def split_def conj_commute)
  have set: "set late = {sid. idle_late now grace idle s sid}"
    unfolding late idle_late_def get_out_def using dist
    by (auto simp: split_def image_iff split: option.splits dest: eq_key_imp_eq_value)
  have dl: "distinct late" unfolding late using dist by (simp add: distinct_map_filter)
  have g: "get_out s' sid = (if idle_late now grace idle s sid then None else get_out s sid)" for sid
    using expire_get_out [OF ex] set by simp
  have i1: "map_of idle1 sid = (case get_out s sid of None \<Rightarrow> map_of idle sid
      | Some st \<Rightarrow> if waiting st then Some (idle_start now idle sid) else None)" for sid
    unfolding idle1_def get_out_def by (rule drain_scan_idle [OF dist])
  have m: "map_of idle' sid = (if sid \<in> set late \<or> get_out s sid = None then None else map_of idle1 sid)" for sid
    by (simp add: r(2) map_of_fold_delete map_of_filter_keys [of "\<lambda>i. get_out s i \<noteq> None"] del: not_None_eq)
  have i': "map_of idle' sid = (case get_out s' sid of None \<Rightarrow> None
      | Some st \<Rightarrow> if waiting st then Some (idle_start now idle sid) else None)" for sid
    using m [of sid] i1 [of sid] g [of sid] set by (auto split: option.splits)
  have tbl: "sd_outstreams s' = filter (\<lambda>(sid, st). \<not> idle_late now grace idle s sid) (sd_outstreams s)"
    using ex set unfolding expire_def by simp
  have on: "idle_late now grace idle s (fst e) \<longleftrightarrow> waiting (snd e) \<and> idle_start now idle (fst e) + grace \<le> now"
    if "e \<in> set (sd_outstreams s)" for e
    using map_of_is_SomeI [OF dist, of "fst e" "snd e"] that by (simp add: idle_late_def get_out_def)
  have "map snd (filter (\<lambda>(sid, d). now < d) ws) = map (\<lambda>(sid, t). t + grace) (idle_streams now idle (sd_outstreams s'))"
    unfolding tbl ws_def idle_streams_def using on
    by (auto simp: filter_map comp_def split_def intro!: arg_cong [where f = "map _"] filter_cong)
  then show ?thesis using r(1) g set dl ex i' by (auto simp: expire_def)
qed

theorem drain_idle_streams_reset_witness:
  "\<exists>idle' s'. reset_drain_idle_streams 16 10 [(1, 4)]
     (sample_sender\<lparr>sd_outstreams := [(1, sample_stream 0 False\<lparr>os_pulling := True\<rparr>),
        (3, sample_stream 0 False\<lparr>os_pulling := True\<rparr>)]\<rparr>) = (Some 26, idle', s')
   \<and> get_out s' 1 = None \<and> get_out s' 3 \<noteq> None \<and> map_of idle' 3 = Some 16"
proof -
  define s0 where "s0 = sample_sender\<lparr>sd_outstreams := [(1, sample_stream 0 False\<lparr>os_pulling := True\<rparr>),
        (3, sample_stream 0 False\<lparr>os_pulling := True\<rparr>)]\<rparr>"
  obtain e idle' s' where r: "reset_drain_idle_streams 16 10 [(1, 4)] s0 = (e, idle', s')" by (metis prod_cases3)
  have wait: "waiting (sample_stream 0 False\<lparr>os_pulling := True\<rparr>)" by (simp add: waiting_def sample_stream_def)
  have e: "e = Some 26"
    using r unfolding s0_def
    by (auto simp: reset_drain_idle_streams_def drain_idle_scan_eq wait idle_start_def note_deadline_def split: if_splits)
  have "out_ok s0" by (simp add: out_ok_def s0_def)
  from drain_idle_streams_reset [OF this r] show ?thesis
    using r e wait unfolding s0_def [symmetric]
    by (auto simp: idle_late_def s0_def get_out_def idle_start_def)
qed

end
