(* ===== verification/H2_Response.thy ===== *)
theory H2_Response
  imports Hpack_Sync H2_Send
begin

text \<open>
  Starting a response, \<open>is_early_hint_link\<close>, \<open>begin_response\<close>, \<open>file_stream_body\<close>, \<open>pull_next\<close> and
  \<open>body_to_bytes\<close> of \<open>hj-h2/src/server/send.rs\<close>, with \<open>body_forbidden_status\<close> and
  \<open>sanitize_h2_h3_body_headers\<close> of \<open>hj-core/src/http_util.rs\<close> and \<open>FileBody\<close> of \<open>hj-core/src/body.rs\<close>.

  A body the backend streams is of the abstract type \<open>'b\<close>; its exact size hint is a parameter, as the
  trait that gives it is not part of the repository. A file that is streamed from disk is the state of
  its \<open>unfold\<close>. What the kernel answers to the positional reads is a list of results, so that reading
  is a function of what the kernel answered.
\<close>

section \<open>Early hints\<close>

definition hint_relations :: "bytes list" where
  "hint_relations = [str_bytes ''preload'', str_bytes ''preconnect'']"

definition rel_matches :: "bytes \<Rightarrow> bytes \<Rightarrow> bool" where
  "rel_matches rest rel =
     ((length rel \<le> length rest \<and> eq_ignore_ascii_case (take (length rel) rest) rel) \<or>
      (rest \<noteq> [] \<and> hd rest = 0x22 \<and> length rel + 1 < length rest \<and>
       eq_ignore_ascii_case (take (length rel) (drop 1 rest)) rel \<and> rest ! (length rel + 1) = 0x22))"

definition rel_at :: "bytes \<Rightarrow> bool" where
  "rel_at rest = list_ex (rel_matches rest) hint_relations"

text \<open>\<open>b.windows(4).enumerate().any(..)\<close>: there is a window at \<open>i\<close> when four octets are left.\<close>

definition is_early_hint_link :: "bytes \<Rightarrow> bool" where
  "is_early_hint_link b =
     list_ex (\<lambda>i. eq_ignore_ascii_case (take 4 (drop i b)) (str_bytes ''rel='') \<and> rel_at (drop (i + 4) b))
       [0..<length b - 3]"

section \<open>Message headers\<close>

definition status_is_informational :: "nat \<Rightarrow> bool" where
  "status_is_informational s \<longleftrightarrow> 100 \<le> s \<and> s < 200"

definition status_is_success :: "nat \<Rightarrow> bool" where
  "status_is_success s \<longleftrightarrow> 200 \<le> s \<and> s < 300"

text \<open>\<open>StatusCode::as_str\<close>: the three digits.\<close>

definition status_str :: "nat \<Rightarrow> bytes" where
  "status_str s = map (\<lambda>d. of_nat (0x30 + d)) [s div 100, s div 10 mod 10, s mod 10]"

definition body_forbidden_status :: "nat \<Rightarrow> bool" where
  "body_forbidden_status status \<longleftrightarrow> status_is_informational status \<or> status \<in> {204, 205, 304}"

definition response_body_forbidden :: "bool \<Rightarrow> nat \<Rightarrow> bool" where
  "response_body_forbidden is_head status \<longleftrightarrow> is_head \<or> body_forbidden_status status"

text \<open>\<open>[u8]::trim_ascii\<close>.\<close>

definition is_ascii_whitespace :: "u8 \<Rightarrow> bool" where
  "is_ascii_whitespace b \<longleftrightarrow> b \<in> {0x09, 0x0a, 0x0c, 0x0d, 0x20}"

definition trim_ascii :: "bytes \<Rightarrow> bytes" where
  "trim_ascii s = rev (dropWhile is_ascii_whitespace (rev (dropWhile is_ascii_whitespace s)))"

definition sanitize_h2_h3_body_headers :: "'h http_lib \<Rightarrow> 'h \<Rightarrow> bool \<Rightarrow> nat \<Rightarrow> bool \<Rightarrow> 'h" where
  "sanitize_h2_h3_body_headers lib headers is_head status streaming_unknown_len =
     (let cl = str_bytes ''content-length''
      in if body_forbidden_status status \<or> (\<not> is_head \<and> streaming_unknown_len) then hm_remove lib cl headers
         else case hm_get_all lib headers cl of
           [] \<Rightarrow> headers
         | first # values \<Rightarrow>
             if values = [] then headers
             else if list_all (\<lambda>v. trim_ascii v = trim_ascii first) values
               then hm_insert lib cl first (hm_remove lib cl headers)
               else hm_remove lib cl headers)"

section \<open>Bodies\<close>

record file_body =
  fb_path :: bytes
  fb_open :: bool
  fb_len :: nat
  fb_range :: "(nat \<times> nat) option"
  fb_cached :: "bytes option"

definition cached_ranged :: "file_body \<Rightarrow> bytes option" where
  "cached_ranged f =
     map_option (\<lambda>c. case fb_range f of
         Some (s, e) \<Rightarrow>
           (let s = min s (length c);
                e = min (usize_sat_add e 1) (length c)
            in take (max e s - s) (drop s c))
       | None \<Rightarrow> c) (fb_cached f)"

text \<open>The state of a file stream: the path, whether the file is open, the chunk size, the offset and
  the octets left to send.\<close>

record file_stream =
  fs_path :: bytes
  fs_open :: bool
  fs_chunk :: nat
  fs_off :: nat
  fs_remaining :: nat

definition file_CHUNK :: nat where "file_CHUNK = 64 * 1024"
definition file_LARGE :: nat where "file_LARGE = 4 * 1024 * 1024"
definition file_LARGE_CHUNK :: nat where "file_LARGE_CHUNK = 1024 * 1024"

definition file_stream_body :: "bytes \<Rightarrow> bool \<Rightarrow> (nat \<times> nat) option \<Rightarrow> nat \<Rightarrow> file_stream" where
  "file_stream_body path file rng len =
     (let (start, total) =
        (case rng of
           Some (s, e) \<Rightarrow> (let s = min s len in (s, min (u64_sat_add e 1) len - s))
         | None \<Rightarrow> (0, len));
        chunk = (if file_LARGE < total then file_LARGE_CHUNK else file_CHUNK)
      in \<lparr>fs_path = path, fs_open = file, fs_chunk = chunk, fs_off = start, fs_remaining = total\<rparr>)"

text \<open>Answers of the kernel: the file opens or not, a read gives octets, is interrupted or fails.\<close>

datatype sys_answer = Opened | OpenFailed | Octets bytes | Interrupted | ReadFailed

text \<open>The retry loop of a read: the answer it ends with and the answers that follow, \<open>None\<close> while the
  kernel has not answered.\<close>

fun pread_loop :: "nat \<Rightarrow> sys_answer list \<Rightarrow> (bytes option \<times> sys_answer list) option" where
  "pread_loop want (Octets b # as) = Some (Some (take want b), as)"
| "pread_loop want (Interrupted # as) = pread_loop want as"
| "pread_loop want (ReadFailed # as) = Some (None, as)"
| "pread_loop want as = None"

text \<open>The open, when the file is not open yet: whether it succeeded.\<close>

fun open_file :: "bool \<Rightarrow> sys_answer list \<Rightarrow> (bool \<times> sys_answer list) option" where
  "open_file True as = Some (True, as)"
| "open_file False (Opened # as) = Some (True, as)"
| "open_file False (OpenFailed # as) = Some (False, as)"
| "open_file False as = None"

text \<open>One poll of the stream: the item it yields, or none at the end, and the next state.\<close>

definition file_poll ::
  "file_stream \<Rightarrow> sys_answer list \<Rightarrow> ((bytes option \<times> file_stream) option \<times> sys_answer list) option" where
  "file_poll fs as =
     (if fs_remaining fs = 0 then Some (None, as)
      else
        (let failed = fs\<lparr>fs_open := False, fs_remaining := 0\<rparr>
         in case open_file (fs_open fs) as of
              None \<Rightarrow> None
            | Some (False, as) \<Rightarrow> Some (Some (None, failed), as)
            | Some (True, as) \<Rightarrow>
                (case pread_loop (min (fs_remaining fs) (fs_chunk fs)) as of
                   None \<Rightarrow> None
                 | Some (None, as) \<Rightarrow> Some (Some (None, failed), as)
                 | Some (Some chunk, as) \<Rightarrow>
                     if chunk = [] then Some (Some (None, failed), as)
                     else Some (Some (Some chunk,
                            fs\<lparr>fs_open := True, fs_off := fs_off fs + length chunk,
                               fs_remaining := fs_remaining fs - length chunk\<rparr>), as))))"

text \<open>Polling a file until its stream ends: the chunks, or that an error ended it.\<close>

function (sequential) file_pulls :: "file_stream \<Rightarrow> sys_answer list \<Rightarrow> (bytes list \<times> bool) option" where
  "file_pulls fs as =
     (case file_poll fs as of
        None \<Rightarrow> None
      | Some (None, as') \<Rightarrow> Some ([], True)
      | Some (Some (None, fs'), as') \<Rightarrow> Some ([], False)
      | Some (Some (Some chunk, fs'), as') \<Rightarrow>
          map_option (\<lambda>(chunks, fine). (chunk # chunks, fine)) (file_pulls fs' as'))"
  by pat_completeness auto
termination
  by (relation "measure (\<lambda>(fs, as). fs_remaining fs)")
    (auto simp: file_poll_def Let_def split: if_splits option.splits prod.splits bool.splits)

declare file_pulls.simps [simp del]

text \<open>What a body answers when it is polled, and that the stream was cancelled first.\<close>

datatype body_event = Cancelled_first | Data bytes | Not_data | Body_failed | Body_ended

text \<open>The pull skips empty and non-data frames. That it yields to the executor after every 64 of
  them does not show in its result. \<open>None\<close>: the body has not answered yet.\<close>

fun pull_next :: "body_event list \<Rightarrow> pull_result option" where
  "pull_next (Cancelled_first # es) = Some EndOfBody"
| "pull_next (Data d # es) = (if d \<noteq> [] then Some (Chunk d) else pull_next es)"
| "pull_next (Not_data # es) = pull_next es"
| "pull_next (Body_failed # es) = Some PullError"
| "pull_next (Body_ended # es) = Some EndOfBody"
| "pull_next [] = None"

datatype 'b stream_source = Backend 'b | FileStream file_stream

datatype 'b body = BEmpty | BFull bytes | BStream 'b | BFile file_body

definition body_to_bytes :: "'b body \<Rightarrow> bytes" where
  "body_to_bytes body =
     (case body of
        BEmpty \<Rightarrow> []
      | BFull b \<Rightarrow> b
      | BFile f \<Rightarrow> (case cached_ranged f of None \<Rightarrow> [] | Some b \<Rightarrow> b)
      | BStream s \<Rightarrow> [])"

section \<open>Starting a response\<close>

record ('h, 'b, 'k) response =
  rs_status :: nat
  rs_headers :: 'h
  rs_completion :: "'k option"
  rs_body :: "'b body"

definition streaming_unknown_len :: "'h http_lib \<Rightarrow> ('b \<Rightarrow> nat option) \<Rightarrow> 'h \<Rightarrow> 'b body \<Rightarrow> bool" where
  "streaming_unknown_len lib exact headers body =
     (case body of
        BStream s \<Rightarrow>
          (case exact s of
             None \<Rightarrow> True
           | Some n \<Rightarrow>
               (case hm_get_all lib headers (str_bytes ''content-length'') of
                  [] \<Rightarrow> None
                | v # vs \<Rightarrow> if to_str_ok lib v then parse_u64 v else None) \<noteq> Some n)
      | _ \<Rightarrow> False)"

text \<open>The mask of the first 64 values that are hints, and the values the second loop selects.\<close>

definition hint_mask :: "bytes list \<Rightarrow> u64" where
  "hint_mask links =
     fold (\<lambda>(i, v) hints. if is_early_hint_link v then hints OR push_bit i 1 else hints) (enumerate 0 (take 64 links)) 0"

definition any_hint :: "bytes list \<Rightarrow> bool" where
  "any_hint links \<longleftrightarrow> hint_mask links \<noteq> 0 \<or> list_ex is_early_hint_link (drop 64 links)"

definition hint_values :: "bytes list \<Rightarrow> bytes list" where
  "hint_values links =
     map snd (filter (\<lambda>(i, v). (i < 64 \<and> hint_mask links AND push_bit i 1 \<noteq> 0) \<or> (64 \<le> i \<and> is_early_hint_link v))
       (enumerate 0 links))"

definition send_early_hints ::
  "'h http_lib \<Rightarrow> u32 \<Rightarrow> nat \<Rightarrow> nat \<Rightarrow> 'h \<Rightarrow> hpack_encoder \<times> literal_memo \<Rightarrow> ('b, 'k) sender
   \<Rightarrow> (hpack_encoder \<times> literal_memo) \<times> ('b, 'k) sender" where
  "send_early_hints lib sid mf status headers encs s =
     (let links = hm_get_all lib headers (str_bytes ''link'')
      in if status_is_success status \<and> any_hint links then
           (case encode_headers ((str_bytes '':status'', str_bytes ''103'') #
                   map (\<lambda>v. (str_bytes ''link'', v)) (hint_values links)) (fst encs, [], snd encs) of
              (enc, block, memo) \<Rightarrow> ((enc, memo), out_write (\<lambda>b. write_field_block b sid 0 block mf) s))
         else (encs, s))"

definition response_headers :: "'h http_lib \<Rightarrow> ('b \<Rightarrow> nat option) \<Rightarrow> bool \<Rightarrow> ('h, 'b, 'k) response \<Rightarrow> 'h" where
  "response_headers lib exact is_head resp =
     (let headers = strip_hop_by_hop_response lib (rs_headers resp)
      in sanitize_h2_h3_body_headers lib headers is_head (rs_status resp)
           (streaming_unknown_len lib exact headers (rs_body resp)))"

definition headers_only ::
  "u32 \<Rightarrow> bytes \<Rightarrow> nat \<Rightarrow> 'k option \<Rightarrow> ('b, 'k) sender \<Rightarrow> ('b, 'k) sender" where
  "headers_only sid block mf completion s =
     (let s1 = out_write (\<lambda>b. write_field_block b sid flag_END_STREAM block mf) s
      in s1\<lparr>sd_completions := sd_completions s1 @ (case completion of None \<Rightarrow> [] | Some k \<Rightarrow> [k])\<rparr>)"

text \<open>\<open>outstreams.insert\<close> drops a stream that was there.\<close>

definition drop_old :: "u32 \<Rightarrow> ('b, 'k) sender \<Rightarrow> ('b, 'k) sender" where
  "drop_old sid s = (case get_out s sid of None \<Rightarrow> s | Some old \<Rightarrow> fire_cancel sid old s)"

lemma drop_old_simps [simp]:
  "sd_schedule (drop_old sid s) = sd_schedule s" "sd_out (drop_old sid s) = sd_out s"
  "sd_completions (drop_old sid s) = sd_completions s" "sd_send_conn (drop_old sid s) = sd_send_conn s"
  "sd_outstreams (drop_old sid s) = sd_outstreams s" "get_out (drop_old sid s) i = get_out s i"
  by (simp_all add: drop_old_def split: option.splits)

definition register ::
  "u32 \<Rightarrow> int \<Rightarrow> bytes \<Rightarrow> 'b option \<Rightarrow> bool \<Rightarrow> 'k option \<Rightarrow> ('b, 'k) sender \<Rightarrow> ('b, 'k) sender" where
  "register sid wnd pending body eof completion s =
     (let s1 = put_out sid \<lparr>os_completion = completion, os_pending = pending, os_body = body, os_pulling = False,
                 os_eof = eof, os_done = False, os_window = wnd, os_cancel = False, os_stall = None,
                 os_send_blocked = False\<rparr> (drop_old sid s)
      in s1\<lparr>sd_schedule := sd_schedule s1 @ [sid]\<rparr>)"

definition headers_open :: "u32 \<Rightarrow> bytes \<Rightarrow> nat \<Rightarrow> ('b, 'k) sender \<Rightarrow> ('b, 'k) sender" where
  "headers_open sid block mf s = out_write (\<lambda>b. write_field_block b sid 0 block mf) s"

text \<open>The pattern \<open>Body::File(f) if f.cached.is_none()\<close>.\<close>

definition uncached :: "'b body \<Rightarrow> file_body option" where
  "uncached body = (case body of BFile f \<Rightarrow> (if fb_cached f = None then Some f else None) | _ \<Rightarrow> None)"

definition start_body ::
  "u32 \<Rightarrow> bool \<Rightarrow> ('h, 'b, 'k) response \<Rightarrow> bytes \<Rightarrow> nat \<Rightarrow> int \<Rightarrow> ('b stream_source, 'k) sender \<Rightarrow> ('b stream_source, 'k) sender" where
  "start_body sid is_head resp block mf wnd s =
     (let completion = rs_completion resp
      in if response_body_forbidden is_head (rs_status resp) then headers_only sid block mf completion s
         else case rs_body resp of
           BEmpty \<Rightarrow> headers_only sid block mf completion s
         | BStream b \<Rightarrow> register sid wnd [] (Some (Backend b)) False completion (headers_open sid block mf s)
         | other \<Rightarrow>
             (case uncached other of
                Some f \<Rightarrow>
                  if fb_len f = 0 then headers_only sid block mf completion s
                  else register sid wnd []
                         (Some (FileStream (file_stream_body (fb_path f) (fb_open f) (fb_range f) (fb_len f))))
                         False completion (headers_open sid block mf s)
              | None \<Rightarrow>
                  (let bytes = body_to_bytes other
                   in if bytes = [] then headers_only sid block mf completion s
                      else register sid wnd bytes None True completion (headers_open sid block mf s))))"

definition I32_MAX :: int where
  "I32_MAX = 2 ^ 31 - 1"

definition begin_response ::
  "'h http_lib \<Rightarrow> ('b \<Rightarrow> nat option) \<Rightarrow> u32 \<Rightarrow> bool \<Rightarrow> ('h, 'b, 'k) response \<Rightarrow> peer_settings
   \<Rightarrow> hpack_encoder \<times> literal_memo \<Rightarrow> (u32 \<times> int) list \<Rightarrow> ('b stream_source, 'k) sender
   \<Rightarrow> (hpack_encoder \<times> literal_memo) \<times> (u32 \<times> int) list \<times> ('b stream_source, 'k) sender" where
  "begin_response lib exact sid is_head resp peer encs pending_window s =
     (let headers = response_headers lib exact is_head resp;
          mf = max (unat (p_max_frame_size peer)) 1
      in case send_early_hints lib sid mf (rs_status resp) headers encs s of
        (encs1, s1) \<Rightarrow>
          (case encode_headers ((str_bytes '':status'', status_str (rs_status resp)) # hm_fields lib headers)
                  (fst encs1, [], snd encs1) of
             (enc, block, memo) \<Rightarrow>
               (let credit = (case map_of pending_window sid of None \<Rightarrow> 0 | Some c \<Rightarrow> c);
                    wnd = min (p_initial_window peer + credit) I32_MAX
                in ((enc, memo), AList.delete sid pending_window, start_body sid is_head resp block mf wnd s1))))"

section \<open>Which links are hints\<close>

text \<open>The four substrings that the scan replaces.\<close>

definition hint_needles :: "bytes list" where
  "hint_needles = map str_bytes [''rel=preload'', ''rel=preconnect'', ''rel=\"preload\"'', ''rel=\"preconnect\"'']"

lemma prefix_take: "prefix w l \<longleftrightarrow> length w \<le> length l \<and> take (length w) l = w"
  by (metis append_eq_conv_conj append_take_drop_id prefix_def prefix_length_le)

lemma sublist_at:
  "sublist (a @ w) l \<longleftrightarrow> (\<exists>i. i + length a \<le> length l \<and> take (length a) (drop i l) = a \<and> prefix w (drop (i + length a) l))"
proof
  assume "sublist (a @ w) l"
  then obtain ps ss where "l = ps @ (a @ w) @ ss" by (auto simp: sublist_def)
  then show "\<exists>i. i + length a \<le> length l \<and> take (length a) (drop i l) = a \<and> prefix w (drop (i + length a) l)"
    by (intro exI [of _ "length ps"]) simp
next
  assume "\<exists>i. i + length a \<le> length l \<and> take (length a) (drop i l) = a \<and> prefix w (drop (i + length a) l)"
  then obtain i where i: "take (length a) (drop i l) = a" "prefix w (drop (i + length a) l)" by blast
  obtain ss where ss: "drop (i + length a) l = w @ ss" using i(2) by (auto simp: prefix_def)
  have "drop i l = take (length a) (drop i l) @ drop (i + length a) l"
    by (metis append_take_drop_id drop_drop add.commute)
  then have "l = take i l @ (a @ w) @ ss" using i(1) ss by (metis append.assoc append_take_drop_id)
  then show "sublist (a @ w) l" unfolding sublist_def by blast
qed

lemma ascii_lower_quote [simp]: "ascii_lower b = 0x22 \<longleftrightarrow> b = 0x22"
  by (auto simp: ascii_lower_def is_ascii_uppercase_def word_le_nat_alt unat_arith_simps split: if_splits)

lemma rel_matches_prefix:
  assumes "to_ascii_lowercase rel = rel"
  shows "rel_matches rest rel \<longleftrightarrow>
    prefix rel (to_ascii_lowercase rest) \<or> prefix (0x22 # rel @ [0x22]) (to_ascii_lowercase rest)"
proof -
  have bare: "(length rel \<le> length rest \<and> eq_ignore_ascii_case (take (length rel) rest) rel)
      \<longleftrightarrow> prefix rel (to_ascii_lowercase rest)"
    using assms by (auto simp: eq_ignore_ascii_case_def prefix_take to_ascii_lowercase_def take_map)
  have quoted: "(rest \<noteq> [] \<and> hd rest = 0x22 \<and> length rel + 1 < length rest \<and>
       eq_ignore_ascii_case (take (length rel) (drop 1 rest)) rel \<and> rest ! (length rel + 1) = 0x22)
      \<longleftrightarrow> prefix (0x22 # rel @ [0x22]) (to_ascii_lowercase rest)"
  proof (cases rest)
    case (Cons b r)
    have "take (Suc (length rel)) (map ascii_lower r) = rel @ [0x22] \<longleftrightarrow>
        map ascii_lower (take (length rel) r) = rel \<and> r ! length rel = 0x22" if "length rel < length r"
      using that by (simp add: take_Suc_conv_app_nth take_map)
    then show ?thesis
      using Cons assms
      by (auto simp: eq_ignore_ascii_case_def prefix_take to_ascii_lowercase_def Suc_le_eq)
  qed (simp add: to_ascii_lowercase_def)
  show ?thesis unfolding rel_matches_def bare quoted ..
qed

text \<open>
  C35. The in-place scan for early hints is equivalent to the search it replaces: a \<open>Link\<close> value is a
  hint exactly when its ASCII lower case contains one of the four needles, a bare or quoted
  \<open>rel=preload\<close> or \<open>rel=preconnect\<close>.
\<close>

theorem early_hint_needles:
  "is_early_hint_link v \<longleftrightarrow> list_ex (\<lambda>n. sublist n (to_ascii_lowercase v)) hint_needles"
proof -
  let ?v = "to_ascii_lowercase v" and ?rel = "str_bytes ''rel=''"
  have rel4: "length ?rel = 4" "to_ascii_lowercase ?rel = ?rel" by code_simp+
  have low: "to_ascii_lowercase (str_bytes ''preload'') = str_bytes ''preload''"
    "to_ascii_lowercase (str_bytes ''preconnect'') = str_bytes ''preconnect''" by code_simp+
  have needles: "hint_needles = [?rel @ str_bytes ''preload'', ?rel @ str_bytes ''preconnect'',
      ?rel @ 0x22 # str_bytes ''preload'' @ [0x22], ?rel @ 0x22 # str_bytes ''preconnect'' @ [0x22]]" by code_simp
  have len: "length ?v = length v" by (simp add: to_ascii_lowercase_def)
  have dr: "to_ascii_lowercase (drop i w) = drop i (to_ascii_lowercase w)"
    "to_ascii_lowercase (take i w) = take i (to_ascii_lowercase w)" for i w
    by (simp_all add: to_ascii_lowercase_def drop_map take_map)
  have at: "sublist (?rel @ w) ?v \<longleftrightarrow> (\<exists>i. i + 4 \<le> length ?v \<and> take 4 (drop i ?v) = ?rel \<and> prefix w (drop (i + 4) ?v))" for w
    using sublist_at [of ?rel w ?v] unfolding rel4(1) .
  have win: "i < length v - 3 \<longleftrightarrow> i + 4 \<le> length v" for i by auto
  have "is_early_hint_link v \<longleftrightarrow> (\<exists>i. i + 4 \<le> length ?v \<and> take 4 (drop i ?v) = ?rel \<and> rel_at (drop (i + 4) v))"
    using rel4(2) len win by (simp add: is_early_hint_link_def list_ex_iff Bex_def eq_ignore_ascii_case_def dr)
  also have "\<dots> \<longleftrightarrow> (\<exists>i w. i + 4 \<le> length ?v \<and> take 4 (drop i ?v) = ?rel \<and>
      w \<in> {str_bytes ''preload'', str_bytes ''preconnect'', 0x22 # str_bytes ''preload'' @ [0x22],
           0x22 # str_bytes ''preconnect'' @ [0x22]} \<and> prefix w (drop (i + 4) ?v))"
    unfolding rel_at_def hint_relations_def using low by (auto simp: rel_matches_prefix dr)
  also have "\<dots> \<longleftrightarrow> list_ex (\<lambda>n. sublist n ?v) hint_needles"
    unfolding needles list_ex_iff by (simp only: list.set bex_simps at) blast
  finally show ?thesis .
qed

text \<open>The mask holds the verdicts of the first 64 values, so the second loop selects all hints.\<close>

lemma mask_fold_bit:
  "bit (fold (\<lambda>(i, v) hints. if P v then hints OR push_bit i 1 else hints) ivs (m :: u64)) k
   \<longleftrightarrow> bit m k \<or> (k < 64 \<and> (\<exists>(i, v) \<in> set ivs. i = k \<and> P v))"
proof (induction ivs arbitrary: m)
  case (Cons iv ivs)
  show ?case using Cons by (cases iv) (auto simp: bit_or_iff bit_exp_iff)
qed simp

lemma hint_mask_bit: "bit (hint_mask links) k \<longleftrightarrow> k < 64 \<and> k < length links \<and> is_early_hint_link (links ! k)"
  unfolding hint_mask_def mask_fold_bit by (auto simp: in_set_enumerate_eq)

lemma hint_mask_test: "hint_mask links AND push_bit k 1 \<noteq> 0 \<longleftrightarrow> bit (hint_mask links) k"
  by (simp add: bit_iff_and_push_bit_not_eq_0)

lemma filter_enumerate: "map snd (filter (\<lambda>(i, v). P v) (enumerate n xs)) = filter P xs"
  by (induction xs arbitrary: n) simp_all

lemma hint_values_filter: "hint_values links = filter is_early_hint_link links"
proof -
  have "hint_values links = map snd (filter (\<lambda>(i, v). is_early_hint_link v) (enumerate 0 links))"
    unfolding hint_values_def hint_mask_test
    by (rule arg_cong [where f = "map snd"], rule filter_cong)
      (auto simp: in_set_enumerate_eq hint_mask_bit)
  also have "\<dots> = filter is_early_hint_link links"
    by (rule filter_enumerate)
  finally show ?thesis .
qed

lemma any_hint_iff: "any_hint links \<longleftrightarrow> filter is_early_hint_link links \<noteq> []"
proof -
  have "hint_mask links \<noteq> 0 \<longleftrightarrow> list_ex is_early_hint_link (take 64 links)"
    by (auto simp: bit_eq_iff hint_mask_bit list_ex_length)
  then have "any_hint links \<longleftrightarrow> list_ex is_early_hint_link (take 64 links @ drop 64 links)"
    unfolding any_hint_def list_ex_append by blast
  then show ?thesis by (auto simp: list_ex_iff filter_empty_conv)
qed

section \<open>The fields of a response\<close>

definition hop_by_hop_names :: "bytes list" where
  "hop_by_hop_names =
     map str_bytes [''connection'', ''transfer-encoding'', ''upgrade'', ''te'', ''keep-alive'', ''proxy-connection'']"

lemma fold_remove_get_all:
  "header_map_laws lib \<Longrightarrow>
   hm_get_all lib (fold (hm_remove lib) names h) n = (if n \<in> set names then [] else hm_get_all lib h n)"
  by (induction names arbitrary: h) (auto simp: header_map_laws_def)

definition named_by_connection :: "'h http_lib \<Rightarrow> 'h \<Rightarrow> bytes set" where
  "named_by_connection lib h =
     set (concat (map (connection_tokens lib) (hm_get_all lib h (str_bytes ''connection''))))"

lemma strip_get_all:
  "header_map_laws lib \<Longrightarrow> hm_get_all lib (strip_hop_by_hop_response lib h) n =
     (if n \<in> set hop_by_hop_names \<union> named_by_connection lib h then [] else hm_get_all lib h n)"
  unfolding strip_hop_by_hop_response_def Let_def hop_by_hop_names_def [symmetric]
  by (simp add: fold_remove_get_all named_by_connection_def)

lemma sanitize_get_all:
  assumes laws: "header_map_laws lib"
  shows "n \<noteq> str_bytes ''content-length'' \<Longrightarrow>
      hm_get_all lib (sanitize_h2_h3_body_headers lib h is_head status unknown) n = hm_get_all lib h n"
    and "hm_get_all lib (sanitize_h2_h3_body_headers lib h is_head status unknown) (str_bytes ''content-length'') =
      (if body_forbidden_status status \<or> (\<not> is_head \<and> unknown) then []
       else case hm_get_all lib h (str_bytes ''content-length'') of
         [] \<Rightarrow> []
       | v # vs \<Rightarrow> if list_all (\<lambda>w. trim_ascii w = trim_ascii v) vs then [v] else [])"
  using laws by (auto simp: sanitize_h2_h3_body_headers_def header_map_laws_def Let_def split: list.splits)



section \<open>The head on the wire\<close>

definition hint_fields :: "'h http_lib \<Rightarrow> 'h \<Rightarrow> header list" where
  "hint_fields lib h =
     (str_bytes '':status'', str_bytes ''103'') #
       map (\<lambda>v. (str_bytes ''link'', v)) (filter is_early_hint_link (hm_get_all lib h (str_bytes ''link'')))"

definition head_fields :: "'h http_lib \<Rightarrow> nat \<Rightarrow> 'h \<Rightarrow> header list" where
  "head_fields lib status h = (str_bytes '':status'', status_str status) # hm_fields lib h"

definition sends_hints :: "'h http_lib \<Rightarrow> nat \<Rightarrow> 'h \<Rightarrow> bool" where
  "sends_hints lib status h \<longleftrightarrow>
     status_is_success status \<and> list_ex is_early_hint_link (hm_get_all lib h (str_bytes ''link''))"

text \<open>Reading a block off a connection: its frames, and the fields they decode to.\<close>

definition reads_block ::
  "u32 \<Rightarrow> u32 \<Rightarrow> u8 \<Rightarrow> hpack_decoder \<Rightarrow> bytes \<Rightarrow> header list \<Rightarrow> hpack_decoder \<Rightarrow> bytes \<Rightarrow> bool" where
  "reads_block cap sid lead d buf hs d' rest \<longleftrightarrow>
     (\<exists>frs. take_items (read_frame cap) (length frs) buf = Some (frs, rest)
        \<and> list_all (\<lambda>(k, f, s, p). s = sid) frs
        \<and> (\<exists>f p tl. frs = (kind_HEADERS, f, sid, p) # tl \<and> f AND flag_END_STREAM = lead AND flag_END_STREAM
             \<and> list_all (\<lambda>fr. fst fr = kind_CONTINUATION) tl)
        \<and> decode_octets d (concat (map (\<lambda>(k, f, s, p). p) frs)) = (Inr (), d', hs))"

lemma write_field_block_append: "write_field_block b sid lead block m = b @ write_field_block [] sid lead block m"
  using h2_wire.fold_put [of _ b] h2_wire.fold_put [of _ "[]"] by (simp add: write_field_block_frames)

lemma cont_frames_kind: "list_all (\<lambda>fr. fst fr = kind_CONTINUATION) (cont_frames sid m rest)"
proof (induction sid m rest rule: cont_frames.induct)
  case (1 sid m rest)
  then show ?case by (subst cont_frames.simps) auto
qed

lemma block_read:
  assumes "hpack_reach l (e, memo, d)" "l < usize_max" "encode_headers hs (e, [], memo) = (e', block, memo')"
    and "\<forall>(n, v) \<in> set hs. length n < 2 ^ 63 \<and> length v < 2 ^ 63" "length block \<le> usize_max"
    and "total_size hs \<le> l" "unat sid < 2 ^ 31" "0 < m" "m < 2 ^ 24"
  shows "\<exists>d'. reads_block (of_nat m) sid lead d (write_field_block [] sid lead block m @ rest) hs d' rest
    \<and> hpack_reach l (e', memo', d')"
proof -
  have sync: "in_sync e d" "memo_ok memo" "d_max_list_size d = l" using hpack_reach_sync [OF assms(1,2)] by auto
  obtain d' where d': "decode_octets d block = (Inr (), d', hs)"
    using block_roundtrip [OF sync(1,2) assms(3-5)] assms(2,6) sync(3) by auto
  have reach: "hpack_reach l (e', memo', d')"
    using hpack_reach.step [OF assms(1) hpack_step.block [OF assms(3-5) d']] .
  let ?frs = "field_frames sid lead block m"
  have v: "list_all (valid_frame (of_nat m)) ?frs"
    using assms by (intro field_frames_valid) (simp_all add: unat_of_nat_u24)
  have "take_items (read_frame (of_nat m)) (length ?frs) (write_field_block [] sid lead block m @ rest) = Some (?frs, rest)"
    using v assms(8) by (simp add: write_field_block_frames max_absorb1 h2_wire.items_roundtrip)
  moreover have "list_all (\<lambda>(k, f, s, p). s = sid) ?frs"
    using field_frames_small [OF assms(8), of sid lead block] by (auto simp: list_all_iff)
  moreover have "\<exists>f p tl. ?frs = (kind_HEADERS, f, sid, p) # tl \<and> f AND flag_END_STREAM = lead AND flag_END_STREAM
      \<and> list_all (\<lambda>fr. fst fr = kind_CONTINUATION) tl"
    by (auto simp: field_frames_def cont_frames_kind flag_END_HEADERS_def flag_END_STREAM_def bit.conj_disj_distrib2)
  ultimately show ?thesis using d' reach field_frames_payload unfolding reads_block_def by metis
qed

lemma length_field_block: "length block \<le> length (write_field_block [] sid lead block m)"
proof -
  have "length (concat (map (\<lambda>(k, f, s, p). p) frs)) \<le> length (concat (map (\<lambda>x. put_frame x []) frs))" for frs
    by (induction frs) (auto simp: put_frame_def split: prod.splits)
  from this [of "field_frames sid lead block (max m 1)"] show ?thesis
    by (simp add: field_frames_payload write_field_block_frames h2_wire.fold_put)
qed

lemma total_size_member: "(n, v) \<in> set hs \<Longrightarrow> length n + length v \<le> total_size hs"
  by (induction hs) (auto simp: entry_size_def)

text \<open>Whether frames follow the head.\<close>

definition response_open :: "bool \<Rightarrow> ('h, 'b, 'k) response \<Rightarrow> bool" where
  "response_open is_head resp \<longleftrightarrow>
     \<not> response_body_forbidden is_head (rs_status resp) \<and>
     (case rs_body resp of
        BStream b \<Rightarrow> True
      | body \<Rightarrow> (case uncached body of Some f \<Rightarrow> fb_len f \<noteq> 0 | None \<Rightarrow> body_to_bytes body \<noteq> []))"

lemma start_body_effect:
  "sd_out (start_body sid is_head resp block mf wnd s) =
     sd_out s @ write_field_block [] sid (if response_open is_head resp then 0 else flag_END_STREAM) block mf"
  "i \<noteq> sid \<Longrightarrow> get_out (start_body sid is_head resp block mf wnd s) i = get_out s i"
  "sd_schedule (start_body sid is_head resp block mf wnd s) = sd_schedule s @ (if response_open is_head resp then [sid] else [])"
  "sd_send_conn (start_body sid is_head resp block mf wnd s) = sd_send_conn s"
  by (auto simp: start_body_def response_open_def headers_only_def headers_open_def register_def out_write_def
      uncached_def body_to_bytes_def write_field_block_append [of "sd_out s"] Let_def split: body.splits option.splits)

lemma send_early_hints_cases:
  assumes "send_early_hints lib sid mf status h (e, memo) s = ((e1, memo1), s1)"
  obtains (sent) block where "sends_hints lib status h"
      "encode_headers (hint_fields lib h) (e, [], memo) = (e1, block, memo1)"
      "s1 = s\<lparr>sd_out := sd_out s @ write_field_block [] sid 0 block mf\<rparr>"
  | (none) "\<not> sends_hints lib status h" "e1 = e" "memo1 = memo" "s1 = s"
proof (cases "sends_hints lib status h")
  case True
  then have any: "status_is_success status \<and> any_hint (hm_get_all lib h (str_bytes ''link''))"
    by (auto simp: sends_hints_def any_hint_iff list_ex_iff filter_empty_conv)
  obtain e2 block memo2 where enc: "encode_headers (hint_fields lib h) (e, [], memo) = (e2, block, memo2)" by (metis prod_cases3)
  have "((e1, memo1), s1) = ((e2, memo2), s\<lparr>sd_out := sd_out s @ write_field_block [] sid 0 block mf\<rparr>)"
    using assms any enc unfolding send_early_hints_def hint_values_filter hint_fields_def [symmetric] Let_def
    by (simp add: out_write_def write_field_block_append [of "sd_out s"])
  then show thesis using sent True enc by simp
next
  case False
  then have "\<not> (status_is_success status \<and> any_hint (hm_get_all lib h (str_bytes ''link'')))"
    by (auto simp: sends_hints_def any_hint_iff list_ex_iff filter_empty_conv)
  then show thesis using assms none False by (auto simp: send_early_hints_def Let_def)
qed

text \<open>
  C6. The client receives the head of every response as it was meant. On a connection whose HPACK
  ends are in any reachable state, the octets that starting a response adds to the output read as
  frames of that stream: first, exactly when the response is successful and declares hints, an
  interim block that decodes to status 103 with precisely the hint links in order; then the final
  block, which decodes to the status and the cleaned fields. END\_STREAM is set on the final block
  exactly when no body follows and never on the interim one, and the HPACK ends stay in step for the
  next response.
\<close>

theorem response_head_received:
  assumes "hpack_reach l (e, memo, d)" "l < 2 ^ 63"
    and "begin_response lib exact sid is_head resp peer (e, memo) pending_window s = ((e', memo'), pending_window', s')"
    and "h = response_headers lib exact is_head resp"
    and "sends_hints lib (rs_status resp) h \<longrightarrow> total_size (hint_fields lib h) \<le> l"
    and "total_size (head_fields lib (rs_status resp) h) \<le> l"
    and "length (sd_out s') \<le> usize_max" "unat sid < 2 ^ 31"
    and "0 < p_max_frame_size peer" "p_max_frame_size peer < 2 ^ 24"
  shows "\<exists>new d1 mid d'. sd_out s' = sd_out s @ new
    \<and> (if sends_hints lib (rs_status resp) h
       then reads_block (p_max_frame_size peer) sid 0 d new (hint_fields lib h) d1 mid
       else d1 = d \<and> mid = new)
    \<and> reads_block (p_max_frame_size peer) sid (if response_open is_head resp then 0 else flag_END_STREAM) d1 mid
        (head_fields lib (rs_status resp) h) d' []
    \<and> hpack_reach l (e', memo', d')"
proof -
  define m where "m = unat (p_max_frame_size peer)"
  have m: "0 < m" "m < 2 ^ 24" "of_nat m = p_max_frame_size peer"
    using assms(9,10) by (simp_all add: m_def word_less_nat_alt unat_gt_0)
  have small: "\<forall>(n, v) \<in> set hs. length n < 2 ^ 63 \<and> length v < 2 ^ 63" if "total_size hs \<le> l" for hs
    using that assms(2) total_size_member [of _ _ hs] by fastforce
  have l: "l < usize_max" using assms(2) by (simp add: usize_max_def)
  obtain e1 memo1 s1 where hints: "send_early_hints lib sid m (rs_status resp) h (e, memo) s = ((e1, memo1), s1)"
    by (metis prod.exhaust)
  obtain e2 block memo2 where enc: "encode_headers (head_fields lib (rs_status resp) h) (e1, [], memo1) = (e2, block, memo2)"
    by (metis prod_cases3)
  define lead where "lead = (if response_open is_head resp then 0 else flag_END_STREAM)"
  have mm: "max (unat (p_max_frame_size peer)) 1 = m" using m(1) by (simp add: m_def)
  have fin: "e' = e2 \<and> memo' = memo2 \<and> sd_out s' = sd_out s1 @ write_field_block [] sid lead block m"
    using assms(3) hints enc
    unfolding begin_response_def assms(4) [symmetric] mm Let_def head_fields_def
    by (auto simp: lead_def start_body_effect(1))
  then have bl: "length block \<le> usize_max"
    using assms(7) length_field_block [of block sid lead m] by simp
  note final = block_read [OF _ l enc small [OF assms(6)] bl assms(6,8) m(1,2), of _ lead "[]", simplified]
  from hints show ?thesis
  proof (cases rule: send_early_hints_cases)
    case (sent hblock)
    have hs: "total_size (hint_fields lib h) \<le> l" using assms(5) sent(1) by blast
    have hl: "length hblock \<le> usize_max"
      using assms(7) fin sent(3) length_field_block [of hblock sid 0 m] by simp
    obtain d1 where d1: "reads_block (of_nat m) sid 0 d
        (write_field_block [] sid 0 hblock m @ write_field_block [] sid lead block m) (hint_fields lib h) d1
        (write_field_block [] sid lead block m)" "hpack_reach l (e1, memo1, d1)"
      using block_read [OF assms(1) l sent(2) small [OF hs] hl hs assms(8) m(1,2)] by blast
    from final [OF d1(2)] obtain d2 where d2: "reads_block (of_nat m) sid lead d1 (write_field_block [] sid lead block m)
        (head_fields lib (rs_status resp) h) d2 []" "hpack_reach l (e2, memo2, d2)" by blast
    have "sd_out s' = sd_out s @ write_field_block [] sid 0 hblock m @ write_field_block [] sid lead block m"
      using fin sent(3) by simp
    then show ?thesis using d1(1) d2 fin sent(1) unfolding m(3) lead_def [symmetric] by (metis (full_types))
  next
    case none
    then obtain d2 where d2: "reads_block (of_nat m) sid lead d (write_field_block [] sid lead block m)
        (head_fields lib (rs_status resp) h) d2 []" "hpack_reach l (e2, memo2, d2)" using final [of d] assms(1) by blast
    have "sd_out s' = sd_out s @ write_field_block [] sid lead block m" using fin none(4) by simp
    then show ?thesis using d2 fin none(1) unfolding m(3) lead_def [symmetric] by (metis (full_types))
  qed
qed

theorem response_head_received_witness:
  "\<exists>d'. reads_block 16384 1 flag_END_STREAM (decoder_new 4096 100) (write_field_block [] 1 flag_END_STREAM [0x89] 16384)
     [(str_bytes '':status'', str_bytes ''204'')] d' []"
proof -
  let ?r = "\<lparr>rs_status = 204, rs_headers = [], rs_completion = None, rs_body = BFull [1]\<rparr> :: (header list, unit, nat) response"
  let ?s = "\<lparr>sd_outstreams = [], sd_schedule = [], sd_out = [], sd_completions = [], sd_ends = [], sd_send_conn = 65535,
      sd_pulls = [], sd_blocked_conn = 0, sd_blocked_stream = 0, sd_stall_resets = 0\<rparr> :: (unit stream_source, nat) sender"
  let ?st = "(str_bytes '':status'', str_bytes ''204'')"
  have "find_name_value (fst ?st) (snd ?st) = Some 9" by code_simp
  then have enc: "encode_headers [?st] (encoder_new, [], memo_empty) = (encoder_new, [0x89], memo_empty)"
    by (simp add: encode_header_def emit_size_update_def encode_field_def encoder_new_def int_encode_mask mask_eq_exp_minus_1)
  have str: "status_str 204 = str_bytes ''204''" by code_simp
  have h: "response_headers assoc_lib (\<lambda>b. None) False ?r = []"
    by (simp add: response_headers_def strip_hop_by_hop_response_def sanitize_h2_h3_body_headers_def
        body_forbidden_status_def assoc_lib_def Let_def)
  have hs: "\<not> sends_hints assoc_lib 204 []" by (simp add: sends_hints_def assoc_lib_def)
  have flds: "head_fields assoc_lib 204 [] = [?st]" by (simp add: head_fields_def assoc_lib_def str)
  have op: "\<not> response_open False ?r" by (simp add: response_open_def response_body_forbidden_def body_forbidden_status_def)
  define s' where "s' = start_body 1 False ?r [0x89] 16384 65535 ?s"
  have early: "send_early_hints assoc_lib 1 16384 204 [] (encoder_new, memo_empty) ?s = ((encoder_new, memo_empty), ?s)"
    by (simp add: send_early_hints_def assoc_lib_def any_hint_def hint_mask_def Let_def)
  have run: "begin_response assoc_lib (\<lambda>b. None) 1 False ?r peer_default (encoder_new, memo_empty) [] ?s
      = ((encoder_new, memo_empty), [], s')"
    using early enc flds unfolding begin_response_def h Let_def s'_def
    by (simp add: peer_default_def I32_MAX_def head_fields_def)
  have out: "sd_out s' = write_field_block [] 1 flag_END_STREAM [0x89] 16384"
    unfolding s'_def start_body_effect(1) using op by simp
  have "\<exists>new d1 mid d'. sd_out s' = sd_out ?s @ new
    \<and> (if sends_hints assoc_lib 204 []
       then reads_block 16384 1 0 (decoder_new 4096 100) new (hint_fields assoc_lib []) d1 mid
       else d1 = decoder_new 4096 100 \<and> mid = new)
    \<and> reads_block 16384 1 (if response_open False ?r then 0 else flag_END_STREAM) d1 mid [?st] d' []
    \<and> hpack_reach 100 (encoder_new, memo_empty, d')"
    using response_head_received [OF hpack_reach.init [of 100] _ run h [symmetric]] hs flds out
    by (simp add: peer_default_def write_field_block_def entry_size_def ENTRY_OVERHEAD_def usize_max_def str_bytes_def)
  then show ?thesis using hs op out by auto
qed

section \<open>Files\<close>

text \<open>
  The answers of a kernel that reads a file of the given contents: the file opens, a read may be
  interrupted, and otherwise gives at least one octet of what is at the offset. There are enough
  answers for what is left to send.
\<close>

fun reads_file :: "bytes \<Rightarrow> nat \<Rightarrow> bool \<Rightarrow> nat \<Rightarrow> nat \<Rightarrow> sys_answer list \<Rightarrow> bool" where
  "reads_file c chunk opened off remaining [] \<longleftrightarrow> remaining = 0"
| "reads_file c chunk False off remaining (Opened # as) \<longleftrightarrow> 0 < remaining \<and> reads_file c chunk True off remaining as"
| "reads_file c chunk True off remaining (Interrupted # as) \<longleftrightarrow> 0 < remaining \<and> reads_file c chunk True off remaining as"
| "reads_file c chunk True off remaining (Octets b # as) \<longleftrightarrow>
     0 < remaining \<and> b \<noteq> [] \<and> prefix b (drop off c) \<and>
     (let n = min (length b) (min remaining chunk) in reads_file c chunk True (off + n) (remaining - n) as)"
| "reads_file c chunk opened off remaining (a # as) \<longleftrightarrow> False"

lemma file_pulls_opened:
  "\<not> fs_open fs \<Longrightarrow> 0 < fs_remaining fs \<Longrightarrow> file_pulls fs (Opened # as) = file_pulls (fs\<lparr>fs_open := True\<rparr>) as"
  unfolding file_pulls.simps [of fs "Opened # as"] file_pulls.simps [of "fs\<lparr>fs_open := True\<rparr>" as]
  by (simp add: file_poll_def Let_def split: option.split)

lemma file_pulls_interrupted:
  "fs_open fs \<Longrightarrow> 0 < fs_remaining fs \<Longrightarrow> file_pulls fs (Interrupted # as) = file_pulls fs as"
  unfolding file_pulls.simps [of fs "Interrupted # as"] file_pulls.simps [of fs as] by (simp add: file_poll_def Let_def)

lemma file_pulls_octets:
  assumes "fs_open fs" "0 < fs_remaining fs" "0 < fs_chunk fs" "b \<noteq> []"
  defines "chunk \<equiv> take (min (fs_remaining fs) (fs_chunk fs)) b"
  shows "file_pulls fs (Octets b # as) =
    map_option (\<lambda>(chunks, fine). (chunk # chunks, fine))
      (file_pulls (fs\<lparr>fs_off := fs_off fs + length chunk, fs_remaining := fs_remaining fs - length chunk\<rparr>) as)"
proof -
  have "chunk \<noteq> []" using assms by (simp add: chunk_def)
  then have "file_poll fs (Octets b # as) = Some (Some (Some chunk,
      fs\<lparr>fs_off := fs_off fs + length chunk, fs_remaining := fs_remaining fs - length chunk\<rparr>), as)"
    using assms(1,2) by (simp add: file_poll_def Let_def chunk_def)
  then show ?thesis by (subst file_pulls.simps) simp
qed

lemma file_pulls_exact:
  assumes "reads_file c (fs_chunk fs) (fs_open fs) (fs_off fs) (fs_remaining fs) as"
    and "0 < fs_chunk fs" "fs_off fs + fs_remaining fs \<le> length c"
  shows "\<exists>chunks. file_pulls fs as = Some (chunks, True) \<and> concat chunks = take (fs_remaining fs) (drop (fs_off fs) c)"
  using assms
proof (induction as arbitrary: fs)
  case Nil
  then have "file_pulls fs [] = Some ([], True)" by (subst file_pulls.simps) (simp add: file_poll_def)
  then show ?case using Nil by simp
next
  case (Cons a as)
  then consider (opened) "a = Opened" "\<not> fs_open fs" | (intr) "a = Interrupted" "fs_open fs"
    | (octets) b where "a = Octets b" "fs_open fs"
    by (cases a; cases "fs_open fs") auto
  then show ?case
  proof cases
    case opened
    then show ?thesis using Cons.prems Cons.IH [of "fs\<lparr>fs_open := True\<rparr>"] by (simp add: file_pulls_opened)
  next
    case intr
    then show ?thesis using Cons.prems Cons.IH [of fs] by (simp add: file_pulls_interrupted)
  next
    case (octets b)
    define chunk where "chunk = take (min (fs_remaining fs) (fs_chunk fs)) b"
    define fs' where "fs' = fs\<lparr>fs_off := fs_off fs + length chunk, fs_remaining := fs_remaining fs - length chunk\<rparr>"
    have b: "0 < fs_remaining fs" "b \<noteq> []" "prefix b (drop (fs_off fs) c)"
      "reads_file c (fs_chunk fs') (fs_open fs') (fs_off fs') (fs_remaining fs') as"
      using Cons.prems(1) octets by (simp_all add: fs'_def chunk_def Let_def)
    have le: "length chunk \<le> fs_remaining fs" by (simp add: chunk_def)
    have pre: "chunk = take (length chunk) (drop (fs_off fs) c)"
      using b(3) by (auto simp: chunk_def prefix_def min_def)
    have run: "file_pulls fs (a # as) = map_option (\<lambda>(chunks, fine). (chunk # chunks, fine)) (file_pulls fs' as)"
      using file_pulls_octets [OF octets(2) b(1) Cons.prems(2) b(2), of as] octets(1) by (simp add: chunk_def fs'_def)
    obtain chunks where "file_pulls fs' as = Some (chunks, True)" "concat chunks = take (fs_remaining fs') (drop (fs_off fs') c)"
      using Cons.IH [of fs', OF b(4)] Cons.prems(2,3) le by (auto simp: fs'_def)
    moreover have "chunk @ take (fs_remaining fs') (drop (fs_off fs') c) = take (fs_remaining fs) (drop (fs_off fs) c)"
      using pre le by (simp add: fs'_def) (metis add.commute drop_drop le_add_diff_inverse take_add)
    ultimately show ?thesis using run by simp
  qed
qed



section \<open>A whole response\<close>

definition pending_total :: "('b, 'k) sender \<Rightarrow> nat" where
  "pending_total s = sum_list (map (\<lambda>(sid, st). length (os_pending st)) (sd_outstreams s))"

lemma payload_filter:
  "payload_octets (map snd frs) = payload_octets (frames_of k frs) + payload_octets (map snd (filter (\<lambda>f. fst f \<noteq> k) frs))"
  by (induction frs) auto

lemma frames_of_filter: "frames_of i (filter (\<lambda>f. fst f \<noteq> k) frs) = (if i = k then [] else frames_of i frs)"
  by (induction frs) auto

text \<open>What is sent is bounded stream by stream, so also in total.\<close>

lemma payload_total:
  "(\<And>i. payload_octets (frames_of i frs) \<le> (case map_of al i of None \<Rightarrow> 0 | Some st \<Rightarrow> f st)) \<Longrightarrow>
   distinct (map fst al) \<Longrightarrow> payload_octets (map snd frs) \<le> sum_list (map (\<lambda>(i, st). f st) al)"
proof (induction al arbitrary: frs)
  case Nil
  have "payload_octets (map snd frs) = 0"
    using Nil
  proof (induction frs)
    case (Cons fr frs)
    have "payload_octets (frames_of i (fr # frs)) = 0" for i using Cons.prems(1) [of i] by simp
    from this [of "fst fr"] have "fst (snd fr) = []" by simp
    moreover have "payload_octets (frames_of i frs) \<le> 0" for i
      using Cons.prems(1) [of i] by (simp split: if_splits)
    ultimately show ?case using Cons by simp
  qed simp
  then show ?case by simp
next
  case (Cons e al)
  obtain k st where e: "e = (k, st)" by force
  have no: "map_of al k = None" using Cons.prems(2) e by (simp add: map_of_eq_None_iff)
  have "payload_octets (map snd (filter (\<lambda>f. fst f \<noteq> k) frs)) \<le> sum_list (map (\<lambda>(i, st). f st) al)"
  proof (rule Cons.IH)
    fix i
    show "payload_octets (frames_of i (filter (\<lambda>f. fst f \<noteq> k) frs)) \<le> (case map_of al i of None \<Rightarrow> 0 | Some st \<Rightarrow> f st)"
      using Cons.prems(1) [of i] e by (cases "i = k") (simp_all add: frames_of_filter)
  qed (use Cons.prems(2) in simp)
  then show ?case using payload_filter [of frs k] Cons.prems(1) [of k] e by simp
qed

lemma payload_length: "payload_octets fs = length (concat (map fst fs))"
  by (induction fs) auto

lemma stream_log_bound:
  "stream_log before after fs \<Longrightarrow> payload_octets fs \<le> (case before of None \<Rightarrow> 0 | Some st \<Rightarrow> length (os_pending st))"
  by (auto simp: stream_log_def payload_length split: option.splits)

text \<open>A response whose body is in memory.\<close>

definition in_memory :: "'b body \<Rightarrow> bool" where
  "in_memory body \<longleftrightarrow> uncached body = None \<and> (\<forall>b. body \<noteq> BStream b)"

lemma update_new: "k \<notin> fst ` set al \<Longrightarrow> AList.update k v al = al @ [(k, v)]"
  by (induction al) auto

lemma begin_response_registers:
  assumes "begin_response lib exact sid is_head resp peer encs pending_window s = (encs', pending_window', s1)"
    and "response_open is_head resp" "in_memory (rs_body resp)"
  defines "wnd \<equiv> min (p_initial_window peer + (case map_of pending_window sid of None \<Rightarrow> 0 | Some c \<Rightarrow> c)) I32_MAX"
  shows "\<exists>out. s1 = register sid wnd (body_to_bytes (rs_body resp)) None True (rs_completion resp) (s\<lparr>sd_out := out\<rparr>)"
proof -
  obtain encs1 s0 where hints: "send_early_hints lib sid (max (unat (p_max_frame_size peer)) 1) (rs_status resp)
      (response_headers lib exact is_head resp) encs s = (encs1, s0)" by (metis surj_pair)
  have s0: "\<exists>out. s0 = s\<lparr>sd_out := out\<rparr>"
    using hints by (auto simp: send_early_hints_def out_write_def Let_def split: if_splits prod.splits intro: exI [of _ "sd_out s"])
  obtain e2 block memo2 where enc: "encode_headers ((str_bytes '':status'', status_str (rs_status resp)) #
      hm_fields lib (response_headers lib exact is_head resp)) (fst encs1, [], snd encs1) = (e2, block, memo2)"
    by (metis prod_cases3)
  have "s1 = start_body sid is_head resp block (max (unat (p_max_frame_size peer)) 1) wnd s0"
    using assms(1) hints enc unfolding begin_response_def Let_def wnd_def by simp
  moreover have "start_body sid is_head resp block mf wnd s0 =
      register sid wnd (body_to_bytes (rs_body resp)) None True (rs_completion resp) (headers_open sid block mf s0)" for mf
    using assms(2,3)
    by (auto simp: start_body_def response_open_def in_memory_def uncached_def body_to_bytes_def Let_def split: body.splits)
  ultimately show ?thesis using s0 by (auto simp: headers_open_def out_write_def)
qed

text \<open>
  C9. A response is delivered in one pass when credit allows. Take any connection on which the stream
  is new and every response is scheduled once. If the body in memory fits the stream's credit and,
  with everything else that is buffered, stays below the connection's, then starting the response and
  pumping sends DATA frames for the stream that concatenate to the body with END\_STREAM on the last,
  and the stream is done.
\<close>

theorem full_body_delivered:
  assumes "sender_ok s" "out_ok s" "sid \<notin> set (sd_schedule s)"
    and "begin_response lib exact sid is_head resp peer encs pending_window s = (encs', pending_window', s1)"
    and "response_open is_head resp" "in_memory (rs_body resp)"
    and "int (length (body_to_bytes (rs_body resp))) \<le>
      min (p_initial_window peer + (case map_of pending_window sid of None \<Rightarrow> 0 | Some c \<Rightarrow> c)) I32_MAX"
    and "int (pending_total s + length (body_to_bytes (rs_body resp))) < sd_send_conn s"
  shows "\<exists>frs. sd_out (pump_streams now peer s1) = sd_out s1 @ concat (map data_wire frs)
    \<and> concat (map fst (frames_of sid frs)) = body_to_bytes (rs_body resp)
    \<and> frames_of sid frs \<noteq> [] \<and> snd (last (frames_of sid frs))
    \<and> get_out (pump_streams now peer s1) sid = None"
proof -
  define b where "b = body_to_bytes (rs_body resp)"
  define wnd where "wnd = min (p_initial_window peer + (case map_of pending_window sid of None \<Rightarrow> 0 | Some c \<Rightarrow> c)) I32_MAX"
  obtain out where s1: "s1 = register sid wnd b None True (rs_completion resp) (s\<lparr>sd_out := out\<rparr>)"
    using begin_response_registers [OF assms(4-6)] unfolding b_def wnd_def by blast
  have none: "get_out s sid = None" using assms(1,3) by (auto simp: sender_ok_def get_out_keys)
  then have key: "sid \<notin> fst ` set (sd_outstreams s)" by (simp add: get_out_def map_of_eq_None_iff)
  obtain st where st: "get_out s1 sid = Some st" "os_pending st = b" "os_eof st" "\<not> os_done st" "os_window st = wnd"
    using s1 by (auto simp: register_def Let_def)
  have ok1: "sender_ok s1" "out_ok s1"
    using assms(1-3) key unfolding s1
    by (auto simp: sender_ok_def out_ok_def register_def Let_def dom_update distinct_update)
  have tot: "pending_total s1 = pending_total s + length b" "sd_send_conn s1 = sd_send_conn s"
    using key unfolding s1 by (simp_all add: register_def Let_def pending_total_def update_new)
  define s2 where "s2 = pump_streams now peer s1"
  obtain frs where frs: "sd_out s2 = sd_out s1 @ concat (map data_wire frs)"
      "sd_send_conn s2 = sd_send_conn s1 - int (payload_octets (map snd frs))"
      "\<And>i. stream_log (get_out s1 i) (get_out s2 i) (frames_of i frs)"
    using pump_loop_sent [of "max (unat (p_max_frame_size peer)) 1" s1 now "length (sd_schedule s1)"]
    unfolding sent_by_def pump_streams_def s2_def by blast
  have "payload_octets (map snd frs) \<le> pending_total s1"
    unfolding pending_total_def
    by (rule payload_total) (use frs(3) [THEN stream_log_bound] ok1(2) in \<open>simp_all add: get_out_def out_ok_def\<close>)
  then have conn: "0 < sd_send_conn s2" using frs(2) tot assms(8) by (simp add: b_def)
  have stuck: "stuck s2 sid"
    using pump_loop_stuck [of "max (unat (p_max_frame_size peer)) 1" s1 "length (sd_schedule s1)" now] ok1(1)
    by (simp add: s2_def pump_streams_def)
  show ?thesis
  proof (cases "get_out s2 sid")
    case None
    then show ?thesis
      using frs(1) frs(3) [of sid] st unfolding s2_def [symmetric] b_def [symmetric] by (auto simp: stream_log_def)
  next
    case (Some st')
    then have "b = concat (map fst (frames_of sid frs)) @ os_pending st'" "os_eof st'"
        "os_window st' = wnd - int (payload_octets (frames_of sid frs))"
      using frs(3) [of sid] st by (simp_all add: stream_log_def)
    then have False
      using stuck Some conn assms(7) unfolding b_def [symmetric] wnd_def [symmetric]
      by (cases "os_pending st'") (auto simp: stuck_def payload_length)
    then show ?thesis ..
  qed
qed

theorem full_body_delivered_witness:
  "\<exists>encs' pw' s1 frs. begin_response assoc_lib (\<lambda>b. None) 5 False
       \<lparr>rs_status = 200, rs_headers = [], rs_completion = None, rs_body = BFull [1, 2, 3]\<rparr> peer_default
       (encoder_new, memo_empty) [] (\<lparr>sd_outstreams = [], sd_schedule = [], sd_out = [], sd_completions = [],
         sd_ends = [], sd_send_conn = 65535, sd_pulls = [], sd_blocked_conn = 0, sd_blocked_stream = 0,
         sd_stall_resets = 0\<rparr> :: (unit stream_source, nat) sender) = (encs', pw', s1)
     \<and> sd_out (pump_streams 0 peer_default s1) = sd_out s1 @ concat (map data_wire frs)
     \<and> concat (map fst (frames_of 5 frs)) = [1, 2, 3]"
proof -
  let ?r = "\<lparr>rs_status = 200, rs_headers = [], rs_completion = None, rs_body = BFull [1, 2, 3]\<rparr> :: (header list, unit, nat) response"
  let ?s = "\<lparr>sd_outstreams = [], sd_schedule = [], sd_out = [], sd_completions = [], sd_ends = [], sd_send_conn = 65535,
      sd_pulls = [], sd_blocked_conn = 0, sd_blocked_stream = 0, sd_stall_resets = 0\<rparr> :: (unit stream_source, nat) sender"
  obtain encs' pw' s1 where run: "begin_response assoc_lib (\<lambda>b. None) 5 False ?r peer_default (encoder_new, memo_empty) [] ?s
      = (encs', pw', s1)" by (metis prod_cases3)
  have "sender_ok ?s" "out_ok ?s" "5 \<notin> set (sd_schedule ?s)" by (simp_all add: sender_ok_def out_ok_def)
  moreover have "response_open False ?r" "in_memory (rs_body ?r)" "body_to_bytes (rs_body ?r) = [1, 2, 3]"
    by (simp_all add: response_open_def response_body_forbidden_def body_forbidden_status_def
        status_is_informational_def uncached_def body_to_bytes_def in_memory_def)
  ultimately obtain frs where
      "sd_out (pump_streams 0 peer_default s1) = sd_out s1 @ concat (map data_wire frs)"
      "concat (map fst (frames_of 5 frs)) = [1, 2, 3]"
    using full_body_delivered [OF _ _ _ run, of 0] by (auto simp: peer_default_def I32_MAX_def pending_total_def)
  then show ?thesis using run by blast
qed

end
