(* ===== verification/Body_Deadline.thy ===== *)
theory Body_Deadline
  imports HJ_Prelude
begin

text \<open>
  The progress-based deadline of one request body, \<open>hj-core/src/body_deadline.rs\<close>, shared by the
  transports. An instant is a natural number of nanoseconds. The transport owns the deadline and
  passes it in and out.
\<close>

definition BODY_MIN_PROGRESS :: nat where
  "BODY_MIN_PROGRESS = 16 * 1024"

record body_progress =
  bp_ceiling :: nat
  bp_mark :: nat

definition progress_new :: "nat \<Rightarrow> nat \<Rightarrow> nat \<Rightarrow> body_progress" where
  "progress_new start ceiling received = \<lparr>bp_ceiling = start + ceiling, bp_mark = received\<rparr>"

definition progress_due :: "nat \<Rightarrow> body_progress \<Rightarrow> bool" where
  "progress_due received p \<longleftrightarrow> received - bp_mark p \<ge> BODY_MIN_PROGRESS"

definition progress_extend :: "nat \<Rightarrow> nat \<Rightarrow> nat \<Rightarrow> body_progress \<times> nat \<Rightarrow> bool \<times> body_progress \<times> nat" where
  "progress_extend received timeout now pd =
     (case pd of (p, deadline) \<Rightarrow>
        if \<not> progress_due received p then (False, p, deadline)
        else
          (let p1 = p\<lparr>bp_mark := received\<rparr>;
               extended = min (now + timeout) (bp_ceiling p1)
           in if extended \<le> deadline then (False, p1, deadline) else (True, p1, extended)))"

section \<open>A body that is watched\<close>

text \<open>The transport looks at the body again and again: each observation is the octets received so far
  and the instant. The result counts the extensions.\<close>

primrec watch_body :: "nat \<Rightarrow> (nat \<times> nat) list \<Rightarrow> nat \<times> body_progress \<times> nat \<Rightarrow> nat \<times> body_progress \<times> nat" where
  "watch_body timeout [] s = s"
| "watch_body timeout (o' # os) s =
     (case (o', s) of ((received, now), (moves, pd)) \<Rightarrow>
        (case progress_extend received timeout now pd of
           (moved, pd') \<Rightarrow> watch_body timeout os (if moved then moves + 1 else moves, pd')))"

lemma progress_extend_facts:
  assumes "progress_extend received timeout now (p, d) = (moved, p', d')"
  shows "bp_ceiling p' = bp_ceiling p" "d \<le> d'" "d' \<le> max d (bp_ceiling p)" "d' \<le> max d (now + timeout)"
    "moved \<Longrightarrow> bp_mark p' = received \<and> bp_mark p + BODY_MIN_PROGRESS \<le> received"
    "\<not> moved \<Longrightarrow> d' = d \<and> (bp_mark p' = bp_mark p \<or> bp_mark p + BODY_MIN_PROGRESS \<le> bp_mark p' \<and> bp_mark p' = received)"
  using assms by (auto simp: progress_extend_def progress_due_def BODY_MIN_PROGRESS_def Let_def split: if_splits)

lemma watch_body_facts:
  assumes "watch_body timeout os (moves, p, d) = (moves', p', d')"
    and "list_all (\<lambda>(received, now). received \<le> all_octets \<and> now \<le> last_now) os"
  shows "d \<le> d' \<and> d' \<le> max d (bp_ceiling p) \<and> d' \<le> max d (last_now + timeout) \<and>
    moves' * BODY_MIN_PROGRESS + min (bp_mark p) all_octets \<le> moves * BODY_MIN_PROGRESS + max (bp_mark p) all_octets"
  using assms
proof (induction os arbitrary: moves p d)
  case Nil
  then show ?case by auto
next
  case (Cons ob os)
  obtain received now where ob: "ob = (received, now)" by (metis surj_pair)
  obtain moved p1 d1 where x: "progress_extend received timeout now (p, d) = (moved, p1, d1)" by (metis prod_cases3)
  note f = progress_extend_facts [OF x]
  have le: "received \<le> all_octets" "now \<le> last_now" using Cons.prems(2) ob by simp_all
  have run: "watch_body timeout os (if moved then moves + 1 else moves, p1, d1) = (moves', p', d')"
    using Cons.prems(1) ob x by simp
  have tail: "list_all (\<lambda>(received, now). received \<le> all_octets \<and> now \<le> last_now) os" using Cons.prems(2) by simp
  from Cons.IH [OF run tail] f le show ?case
    by (cases moved) (auto simp: BODY_MIN_PROGRESS_def)
qed

text \<open>C40. Watching the body of one request: however it arrives, its deadline never moves back, never
  passes the hard bound \<open>start + ceiling\<close> (or the first deadline, when that is later), is never
  further away than one timeout from the last observation, and every extension costs the peer
  \<open>BODY_MIN_PROGRESS\<close> further octets.\<close>

theorem body_deadline_bounded:
  assumes "watch_body timeout os (0, progress_new start ceiling received, start + timeout) = (moves, p, deadline)"
    and "list_all (\<lambda>(r, now). r \<le> all_octets \<and> now \<le> last_now) os" "received \<le> all_octets" "start \<le> last_now"
  shows "start + timeout \<le> deadline \<and> deadline \<le> start + max timeout ceiling \<and> deadline \<le> last_now + timeout \<and>
    moves * BODY_MIN_PROGRESS \<le> all_octets - received"
  using watch_body_facts [OF assms(1,2)] assms(3,4)
  by (auto simp: progress_new_def max_def min_def split: if_splits)

theorem body_deadline_bounded_witness:
  "watch_body 60 [(20000, 30), (20001, 40), (40000, 80)] (0, progress_new 0 100 0, 0 + 60) =
     (2, \<lparr>bp_ceiling = 100, bp_mark = 40000\<rparr>, 100) \<and> 2 * BODY_MIN_PROGRESS \<le> 40000 - 0"
proof -
  have run: "watch_body 60 [(20000, 30), (20001, 40), (40000, 80)] (0, progress_new 0 100 0, 0 + 60) =
     (2, \<lparr>bp_ceiling = 100, bp_mark = 40000\<rparr>, 100)"
    by (simp add: progress_new_def progress_extend_def progress_due_def BODY_MIN_PROGRESS_def Let_def)
  from body_deadline_bounded [OF run, of 40000 80] run show ?thesis by simp
qed

end
