(* ===== verification/H2_Server.thy ===== *)
theory H2_Server
  imports H2_Ids H2_Response Body_Deadline
begin

text \<open>
  The connection loop, \<open>serve\<close> of \<open>hj-h2/src/server/mod.rs\<close>: what an outcome of \<open>process_frame\<close> does to the
  sending side, the deadlines, one pass of the loop up to its flush, and the arms of its \<open>select!\<close>. The
  locals of \<open>serve\<close> are the record \<open>server\<close>; the receiving side is a \<open>conn\<close>, the sending side a \<open>sender\<close>.
  The output queue is one: the functions of the receiving side work on the queue of the sender
  (\<open>conn_view\<close>, \<open>put_conn\<close>).

  What the runtime decides is input: the instant of a pass and of an event, the handlers and body pulls
  that are ready, what the socket delivers and whether it accepts the output. The clock is read once per
  pass. A handler that was aborted yields no response (\<open>Abortable\<close> of \<open>futures\<close>): its
  abort handle is in \<open>inflight_sids\<close> exactly as long as it was not.
\<close>

section \<open>State\<close>

record ('h, 'b, 'k) server =
  sv_conn :: "'h conn"
  sv_send :: "('b stream_source, 'k) sender"
  sv_pending_window :: "(u32 \<times> int) list"
  sv_drain_idle :: "(u32 \<times> nat) list"
  sv_body_progress :: "(u32 \<times> body_progress) list"
  sv_inbuf :: bytes
  sv_reading :: bool
  sv_accepting :: bool
  sv_draining :: bool
  sv_shutdown_drain :: bool
  sv_partial_frame_deadline :: "nat option"
  sv_header_block_deadline :: "nat option"
  sv_idle_at :: nat
  sv_drain_at :: nat
  sv_wire :: bytes
  sv_others :: nat

text \<open>Two fields are not locals of \<open>serve\<close>: \<open>sv_wire\<close> is what the socket has accepted, and \<open>sv_others\<close> the octets
  of the shared budget that others hold, which are the other connections and whoever took the body of a
  request this connection has handed to its handler.\<close>

definition conn_view :: "('h, 'b, 'k) server \<Rightarrow> 'h conn" where
  "conn_view sv = (sv_conn sv)\<lparr>c_out := sd_out (sv_send sv)\<rparr>"

definition put_conn :: "'h conn \<Rightarrow> ('h, 'b, 'k) server \<Rightarrow> ('h, 'b, 'k) server" where
  "put_conn c sv = sv\<lparr>sv_conn := c, sv_send := (sv_send sv)\<lparr>sd_out := c_out c\<rparr>\<rparr>"

definition on_conn :: "('h conn \<Rightarrow> 'h conn) \<Rightarrow> ('h, 'b, 'k) server \<Rightarrow> ('h, 'b, 'k) server" where
  "on_conn f sv = put_conn (f (conn_view sv)) sv"

definition on_send ::
  "(('b stream_source, 'k) sender \<Rightarrow> ('b stream_source, 'k) sender) \<Rightarrow> ('h, 'b, 'k) server \<Rightarrow> ('h, 'b, 'k) server" where
  "on_send f sv = sv\<lparr>sv_send := f (sv_send sv)\<rparr>"

definition forget_window :: "u32 \<Rightarrow> ('h, 'b, 'k) server \<Rightarrow> ('h, 'b, 'k) server" where
  "forget_window sid sv = sv\<lparr>sv_pending_window := AList.delete sid (sv_pending_window sv)\<rparr>"

text \<open>\<open>reading = false; accepting = false; draining = false;\<close>\<close>

definition stop_reading :: "('h, 'b, 'k) server \<Rightarrow> ('h, 'b, 'k) server" where
  "stop_reading sv = sv\<lparr>sv_reading := False, sv_accepting := False, sv_draining := False\<rparr>"

text \<open>\<open>out.frames(|b| write_goaway(b, recv.goaway_last_stream_id(), code))\<close>\<close>

definition send_goaway :: "u32 \<Rightarrow> ('h, 'b, 'k) server \<Rightarrow> ('h, 'b, 'k) server" where
  "send_goaway code = on_conn (\<lambda>c. snd (goaway code c))"

definition fail_with :: "u32 \<Rightarrow> ('h, 'b, 'k) server \<Rightarrow> ('h, 'b, 'k) server" where
  "fail_with code sv = stop_reading (send_goaway code sv)"

definition progressed :: "('h, 'b, 'k) server \<Rightarrow> ('h, 'b, 'k) server" where
  "progressed = on_conn (map_recv (\<lambda>r. r\<lparr>r_no_progress_frames := 0\<rparr>))"

section \<open>Outcomes of a frame\<close>

text \<open>Each of these says whether the loop over the frames is left.\<close>

definition conn_credit :: "u32 \<Rightarrow> ('h, 'b, 'k) server \<Rightarrow> bool \<times> ('h, 'b, 'k) server" where
  "conn_credit increment sv =
     (let was_blocked = (sd_send_conn (sv_send sv) \<le> 0);
          sv1 = on_send (\<lambda>s. s\<lparr>sd_send_conn := sd_send_conn s + int (unat increment)\<rparr>) sv;
          send_conn = sd_send_conn (sv_send sv1)
      in if send_conn > I32_MAX then (True, fail_with err_FLOW_CONTROL_ERROR sv1)
         else (False, if was_blocked \<and> send_conn > 0 then progressed sv1 else sv1))"

definition stream_credit ::
  "u32 \<Rightarrow> u32 \<Rightarrow> ('b stream_source, 'k) out_stream \<Rightarrow> ('h, 'b, 'k) server \<Rightarrow> ('h, 'b, 'k) server" where
  "stream_credit sid increment st sv =
     (let was_blocked = (os_window st \<le> 0);
          st1 = st\<lparr>os_window := os_window st + int (unat increment)\<rparr>
      in if os_window st1 > I32_MAX
         then on_send (\<lambda>s. put_out sid (st1\<lparr>os_done := True\<rparr>)
                (out_write (\<lambda>b. write_rst_stream b sid err_FLOW_CONTROL_ERROR) s)) sv
         else
           (let sv1 = on_send (put_out sid st1) sv
            in if was_blocked \<and> os_window st1 > 0 then progressed sv1 else sv1))"

definition PENDING_WINDOW_CAP :: nat where
  "PENDING_WINDOW_CAP = 4096"

text \<open>Credit for a response that does not exist yet. A stream whose credit overflows is reset, and its
  handler aborted.\<close>

definition park_credit :: "nat \<Rightarrow> u32 \<Rightarrow> u32 \<Rightarrow> ('h, 'b, 'k) server \<Rightarrow> bool \<times> ('h, 'b, 'k) server" where
  "park_credit now sid increment sv =
     (let c = sv_conn sv;
          awaiting_response = (get_stream c sid \<noteq> None \<or> sid \<in> c_inflight_sids c)
      in if awaiting_response \<and> (length (sv_pending_window sv) < PENDING_WINDOW_CAP
                                 \<or> map_of (sv_pending_window sv) sid \<noteq> None) then
           (let credit = (case map_of (sv_pending_window sv) sid of None \<Rightarrow> 0 | Some w \<Rightarrow> w) + int (unat increment)
            in if p_initial_window (c_peer c) + credit > I32_MAX then
                 (let sv1 = on_conn (\<lambda>c. teardown_receiving sid
                               (out_frames (\<lambda>b. write_rst_stream b sid err_FLOW_CONTROL_ERROR) c))
                             (forget_window sid sv)
                  in case abort_handler now sid (conn_view sv1) of
                       (None, c') \<Rightarrow> (False, put_conn c' sv1)
                     | (Some out, c') \<Rightarrow> (True, stop_reading (put_conn c' sv1)))
               else (False, sv\<lparr>sv_pending_window := AList.update sid credit (sv_pending_window sv)\<rparr>))
         else (False, sv))"

definition shift_windows :: "int \<Rightarrow> ('h, 'b, 'k) server \<Rightarrow> bool \<times> ('h, 'b, 'k) server" where
  "shift_windows delta sv =
     (let sv1 = on_send (\<lambda>s. s\<lparr>sd_outstreams :=
                  map (\<lambda>(sid, st). (sid, st\<lparr>os_window := os_window st + delta\<rparr>)) (sd_outstreams s)\<rparr>) sv;
          overflow = list_ex (\<lambda>(sid, st). os_window st > I32_MAX) (sd_outstreams (sv_send sv1))
      in if overflow then (True, fail_with err_FLOW_CONTROL_ERROR sv1) else (False, sv1))"

definition handle_outcome ::
  "h2_config \<Rightarrow> nat \<Rightarrow> frame_outcome \<Rightarrow> ('h, 'b, 'k) server \<Rightarrow> bool \<times> ('h, 'b, 'k) server" where
  "handle_outcome cfg now out sv =
     (case out of
        Continue \<Rightarrow> (False, sv)
      | StopReading \<Rightarrow> (True, stop_reading sv)
      | PeerGoaway \<Rightarrow>
          (False, (if sv_draining sv then sv
                   else sv\<lparr>sv_draining := True, sv_drain_at := now + cfg_goaway_drain_timeout cfg\<rparr>)
                  \<lparr>sv_accepting := False\<rparr>)
      | ResetStream sid \<Rightarrow> (False, forget_window sid (on_send (cancel_outstream sid) sv))
      | WindowUpdate sid increment \<Rightarrow>
          if sid = 0 then conn_credit increment sv
          else (case get_out (sv_send sv) sid of
                  Some st \<Rightarrow> (False, stream_credit sid increment st sv)
                | None \<Rightarrow> park_credit now sid increment sv)
      | InitialWindowDelta delta \<Rightarrow> shift_windows delta sv)"

section \<open>Frames\<close>

definition next_header_block_deadline :: "bool \<Rightarrow> bool \<Rightarrow> nat option \<Rightarrow> nat option \<Rightarrow> nat option" where
  "next_header_block_deadline was_open is_open current arm =
     (if \<not> is_open then None else if \<not> was_open then arm else current)"

definition frame_cap :: "h2_config \<Rightarrow> u32" where
  "frame_cap cfg = min (cfg_max_frame_size cfg) (2 ^ 24)"

text \<open>One frame: processed, the deadline of its header block kept up, its outcome applied.\<close>

definition serve_frame ::
  "'h http_lib \<Rightarrow> h2_config \<Rightarrow> nat \<Rightarrow> frame_header \<Rightarrow> bytes \<Rightarrow> ('h, 'b, 'k) server \<Rightarrow> bool \<times> ('h, 'b, 'k) server" where
  "serve_frame lib cfg now hdr payload sv =
     (let block_was_open = (r_open_header_block (c_recv (sv_conn sv)) \<noteq> None)
      in case process_frame lib now (length (sd_outstreams (sv_send sv))) (sv_accepting sv) hdr payload (conn_view sv) of
           (out, c) \<Rightarrow>
             (let sv1 = put_conn c sv;
                  sv2 = sv1\<lparr>sv_header_block_deadline :=
                          next_header_block_deadline block_was_open (r_open_header_block (c_recv c) \<noteq> None)
                            (sv_header_block_deadline sv1)
                            (map_option (\<lambda>d. now + d) (cfg_frame_read_timeout cfg))\<rparr>
              in handle_outcome cfg now out sv2))"

lemma inbuf_kept [simp]:
  "sv_inbuf (put_conn c sv) = sv_inbuf sv" "sv_inbuf (on_conn f sv) = sv_inbuf sv"
  "sv_inbuf (on_send g sv) = sv_inbuf sv" "sv_inbuf (forget_window sid sv) = sv_inbuf sv"
  "sv_inbuf (stop_reading sv) = sv_inbuf sv" "sv_inbuf (send_goaway code sv) = sv_inbuf sv"
  "sv_inbuf (fail_with code sv) = sv_inbuf sv" "sv_inbuf (progressed sv) = sv_inbuf sv"
  by (simp_all add: put_conn_def on_conn_def on_send_def forget_window_def stop_reading_def send_goaway_def
      fail_with_def progressed_def)

lemma handle_outcome_inbuf [simp]: "sv_inbuf (snd (handle_outcome cfg now out sv)) = sv_inbuf sv"
  by (auto simp: handle_outcome_def conn_credit_def stream_credit_def park_credit_def shift_windows_def Let_def
      split: frame_outcome.split option.split prod.split)

lemma serve_frame_inbuf [simp]: "sv_inbuf (snd (serve_frame lib cfg now hdr payload sv)) = sv_inbuf sv"
  by (simp add: serve_frame_def Let_def split: prod.split)

lemma next_frame_shorter: "next_frame cap buf = GotFrame hdr payload rest \<Longrightarrow> length rest < length buf"
  by (auto simp: next_frame_def frame_header_LEN_def Let_def split: if_splits option.splits)

text \<open>The loop over the buffered frames; the flag says whether a frame was completed.\<close>

function drain_frames ::
  "'h http_lib \<Rightarrow> h2_config \<Rightarrow> nat \<Rightarrow> bool \<times> ('h, 'b, 'k) server \<Rightarrow> bool \<times> ('h, 'b, 'k) server" where
  "drain_frames lib cfg now (completed, sv) =
     (if \<not> sv_reading sv then (completed, sv)
      else case next_frame (frame_cap cfg) (sv_inbuf sv) of
        NeedMore \<Rightarrow> (completed, sv)
      | Unparsed \<Rightarrow> (completed, fail_with err_PROTOCOL_ERROR sv)
      | TooLarge \<Rightarrow> (completed, fail_with err_FRAME_SIZE_ERROR sv)
      | GotFrame hdr payload rest \<Rightarrow>
          (case serve_frame lib cfg now hdr payload (sv\<lparr>sv_inbuf := rest\<rparr>) of
             (left, sv') \<Rightarrow> if left then (True, sv') else drain_frames lib cfg now (True, sv')))"
  by pat_completeness auto
termination
proof (relation "measure (\<lambda>(lib, cfg, now, completed, sv). length (sv_inbuf sv))", goal_cases)
  case (2 lib cfg now completed sv hdr payload rest left sv')
  have "(left, sv') = serve_frame lib cfg now hdr payload (sv\<lparr>sv_inbuf := rest\<rparr>)" using 2 by simp
  from arg_cong [OF this, of "\<lambda>p. sv_inbuf (snd p)"] have "sv_inbuf sv' = rest" by simp
  then show ?case using 2 next_frame_shorter by fastforce
qed simp

declare drain_frames.simps [simp del]

section \<open>Deadlines\<close>

definition partial_deadline :: "h2_config \<Rightarrow> nat \<Rightarrow> bool \<Rightarrow> ('h, 'b, 'k) server \<Rightarrow> ('h, 'b, 'k) server" where
  "partial_deadline cfg now completed sv =
     (if sv_inbuf sv = [] then sv\<lparr>sv_partial_frame_deadline := None\<rparr>
      else if completed \<or> sv_partial_frame_deadline sv = None
      then sv\<lparr>sv_partial_frame_deadline := map_option (\<lambda>d. now + d) (cfg_frame_read_timeout cfg)\<rparr>
      else sv)"

definition check_header_block :: "nat \<Rightarrow> ('h, 'b, 'k) server \<Rightarrow> ('h, 'b, 'k) server" where
  "check_header_block now sv =
     (if sv_reading sv \<and> (case sv_header_block_deadline sv of None \<Rightarrow> False | Some d \<Rightarrow> d \<le> now)
      then fail_with err_PROTOCOL_ERROR sv else sv)"

text \<open>\<open>advance_body_deadlines\<close>: a deadline for every stream whose body is to come, and the extensions that
  are due. The two loops run over the entries of \<open>streams\<close> and of \<open>progress\<close>.\<close>

definition start_deadline :: "nat \<Rightarrow> nat \<Rightarrow> 'h stream_state \<Rightarrow> 'h stream_state" where
  "start_deadline now timeout st =
     (if st_headers_done st \<and> \<not> st_end_stream st \<and> st_body_deadline st = None
      then st\<lparr>st_body_deadline := Some (now + timeout)\<rparr> else st)"

definition start_progress ::
  "nat \<Rightarrow> nat \<Rightarrow> u32 \<times> 'h stream_state \<Rightarrow> (u32 \<times> body_progress) list \<Rightarrow> (u32 \<times> body_progress) list" where
  "start_progress now ceiling entry progress =
     (case entry of (sid, st) \<Rightarrow>
        if st_headers_done st \<and> \<not> st_end_stream st \<and> st_body_deadline st = None
        then AList.update sid (progress_new now ceiling (length (st_body st))) progress else progress)"

definition extend_body ::
  "nat \<Rightarrow> nat \<Rightarrow> (u32 \<times> body_progress)
   \<Rightarrow> (u32 \<times> body_progress) list \<times> (u32 \<times> 'h stream_state) list
   \<Rightarrow> (u32 \<times> body_progress) list \<times> (u32 \<times> 'h stream_state) list" where
  "extend_body now timeout entry acc =
     (case (entry, acc) of ((sid, p), (kept, streams)) \<Rightarrow>
        (case map_of streams sid of
           None \<Rightarrow> (kept, streams)
         | Some st \<Rightarrow>
             (case st_body_deadline st of
                None \<Rightarrow> (kept @ [(sid, p)], streams)
              | Some deadline \<Rightarrow>
                  (case progress_extend (length (st_body st)) timeout now (p, deadline) of
                     (moved, p', deadline') \<Rightarrow>
                       (kept @ [(sid, p')], AList.update sid (st\<lparr>st_body_deadline := Some deadline'\<rparr>) streams)))))"

definition advance_body_deadlines ::
  "nat \<Rightarrow> nat \<Rightarrow> nat \<Rightarrow> (u32 \<times> 'h stream_state) list \<times> (u32 \<times> body_progress) list
   \<Rightarrow> (u32 \<times> 'h stream_state) list \<times> (u32 \<times> body_progress) list" where
  "advance_body_deadlines now timeout ceiling sp =
     (case sp of (streams, progress) \<Rightarrow>
        (let progress1 = fold (start_progress now ceiling) streams progress;
             streams1 = map (\<lambda>(sid, st). (sid, start_deadline now timeout st)) streams
         in if progress1 = [] then (streams1, progress1)
            else (case fold (extend_body now timeout) progress1 ([], streams1) of
                    (progress2, streams2) \<Rightarrow> (streams2, progress2))))"

definition body_deadlines :: "h2_config \<Rightarrow> nat \<Rightarrow> ('h, 'b, 'k) server \<Rightarrow> ('h, 'b, 'k) server" where
  "body_deadlines cfg now sv =
     (case cfg_request_body_timeout cfg of
        None \<Rightarrow> sv
      | Some d \<Rightarrow>
          (case advance_body_deadlines now d (cfg_request_body_ceiling cfg)
                  (c_streams (sv_conn sv), sv_body_progress sv) of
             (streams, progress) \<Rightarrow>
               sv\<lparr>sv_conn := (sv_conn sv)\<lparr>c_streams := streams\<rparr>, sv_body_progress := progress\<rparr>))"

definition expired_bodies :: "nat \<Rightarrow> (u32 \<times> 'h stream_state) list \<Rightarrow> u32 list" where
  "expired_bodies now streams =
     map fst (filter (\<lambda>(sid, st). case st_body_deadline st of None \<Rightarrow> False | Some d \<Rightarrow> d \<le> now) streams)"

text \<open>\<open>if recv.expire_receiving(streams, sid) { out.frames(|b| write_rst_stream(b, sid, CANCEL)) }\<close>\<close>

definition expire_stream :: "u32 \<Rightarrow> 'h conn \<Rightarrow> 'h conn" where
  "expire_stream sid c =
     (case expire_receiving sid c of
        (send_reset, c') \<Rightarrow>
          if send_reset then out_frames (\<lambda>b. write_rst_stream b sid err_CANCEL) c' else c')"

definition expire_bodies :: "nat \<Rightarrow> ('h, 'b, 'k) server \<Rightarrow> ('h, 'b, 'k) server" where
  "expire_bodies now sv =
     fold (\<lambda>sid sv. on_conn (expire_stream sid) (forget_window sid sv))
       (expired_bodies now (c_streams (sv_conn sv))) sv"

section \<open>Handlers and pulls\<close>

text \<open>A handler's future has yielded. The response of an aborted handler is not there; a stream marked
  as cancelled does not get its response.\<close>

definition start_response ::
  "'h http_lib \<Rightarrow> ('b \<Rightarrow> nat option) \<Rightarrow> u32 \<Rightarrow> bool \<Rightarrow> ('h, 'b, 'k) response \<Rightarrow> ('h, 'b, 'k) server \<Rightarrow> ('h, 'b, 'k) server" where
  "start_response lib exact sid is_head resp sv =
     (let c = sv_conn sv
      in case begin_response lib exact sid is_head resp (c_peer c) (c_enc c, c_memo c) (sv_pending_window sv) (sv_send sv) of
           ((enc, memo), pending_window, s) \<Rightarrow>
             sv\<lparr>sv_conn := c\<lparr>c_enc := enc, c_memo := memo\<rparr>, sv_pending_window := pending_window, sv_send := s\<rparr>)"

definition handler_yielded ::
  "'h http_lib \<Rightarrow> ('b \<Rightarrow> nat option) \<Rightarrow> u32 \<times> bool \<times> ('h, 'b, 'k) response option \<Rightarrow> ('h, 'b, 'k) server \<Rightarrow> ('h, 'b, 'k) server" where
  "handler_yielded lib exact item sv =
     (case item of (sid, is_head, resp) \<Rightarrow>
        (let c = sv_conn sv;
             marked = (sid \<in> c_cancelled c);
             sv1 = sv\<lparr>sv_conn := c\<lparr>c_inflight_sids := c_inflight_sids c - {sid}, c_cancelled := c_cancelled c - {sid}\<rparr>\<rparr>
         in case resp of
              None \<Rightarrow> sv1
            | Some r \<Rightarrow> if marked then sv1 else start_response lib exact sid is_head r sv1))"

text \<open>\<open>inflight.next()\<close> when the handler of \<open>sid\<close> is the one that is ready.\<close>

definition next_handler ::
  "'h http_lib \<Rightarrow> ('b \<Rightarrow> nat option) \<Rightarrow> u32 \<times> ('h, 'b, 'k) response \<Rightarrow> ('h, 'b, 'k) server \<Rightarrow> ('h, 'b, 'k) server" where
  "next_handler lib exact ready sv =
     (case ready of (sid, resp) \<Rightarrow>
        (case map_of (c_inflight (sv_conn sv)) sid of
           None \<Rightarrow> sv
         | Some (is_head, req) \<Rightarrow>
             (let c = sv_conn sv;
                  resp' = (if sid \<in> c_inflight_sids c then Some resp else None)
              in handler_yielded lib exact (sid, is_head, resp')
                   (sv\<lparr>sv_conn := c\<lparr>c_inflight := AList.delete sid (c_inflight c)\<rparr>,
                       sv_others := sv_others sv + lease_of (rq_body_lease req)\<rparr>))))"

text \<open>\<open>pulls.next()\<close> when the pull of \<open>sid\<close> is the one that is ready, and \<open>apply_pull\<close> on what it gives.\<close>

definition next_pull :: "u32 \<times> 'b stream_source \<times> pull_result \<Rightarrow> ('h, 'b, 'k) server \<Rightarrow> ('h, 'b, 'k) server" where
  "next_pull ready sv =
     (case ready of (sid, body, res) \<Rightarrow>
        (if map_of (sd_pulls (sv_send sv)) sid = None then sv
         else on_send (\<lambda>s. apply_pull sid body res (s\<lparr>sd_pulls := AList.delete sid (sd_pulls s)\<rparr>))
                (sv\<lparr>sv_drain_idle := AList.delete sid (sv_drain_idle sv)\<rparr>)))"

section \<open>One pass\<close>

definition reset_responses :: "h2_config \<Rightarrow> nat \<Rightarrow> ('h, 'b, 'k) server \<Rightarrow> nat option \<times> nat option \<times> ('h, 'b, 'k) server" where
  "reset_responses cfg now sv =
     (case reset_stalled_streams now (cfg_send_stall_timeout cfg) (sv_send sv) of
        (stall_deadline, s1) \<Rightarrow>
          (case (cfg_shutdown_idle_stream_timeout cfg, sv_shutdown_drain sv) of
             (Some grace, True) \<Rightarrow>
               (case reset_drain_idle_streams now grace (sv_drain_idle sv) s1 of
                  (drain_idle_deadline, idle, s2) \<Rightarrow>
                    (stall_deadline, drain_idle_deadline, sv\<lparr>sv_send := s2, sv_drain_idle := idle\<rparr>))
           | _ \<Rightarrow> (stall_deadline, None, sv\<lparr>sv_send := s1\<rparr>)))"

definition serve_pass ::
  "'h http_lib \<Rightarrow> ('b \<Rightarrow> nat option) \<Rightarrow> h2_config \<Rightarrow> nat \<Rightarrow> (u32 \<times> ('h, 'b, 'k) response) list
   \<Rightarrow> (u32 \<times> 'b stream_source \<times> pull_result) list \<Rightarrow> ('h, 'b, 'k) server
   \<Rightarrow> nat option \<times> nat option \<times> ('h, 'b, 'k) server" where
  "serve_pass lib exact cfg now handlers chunks sv =
     (let sv1 = (case cfg_conn_idle_timeout cfg of None \<Rightarrow> sv | Some d \<Rightarrow> sv\<lparr>sv_idle_at := now + d\<rparr>)
      in case drain_frames lib cfg now (False, sv1) of
           (completed, sv2) \<Rightarrow>
             (let sv3 = check_header_block now (partial_deadline cfg now completed sv2);
                  sv4 = expire_bodies now (body_deadlines cfg now sv3);
                  sv5 = fold (next_handler lib exact) handlers sv4;
                  sv6 = fold next_pull chunks sv5;
                  sv7 = on_send (pump_streams now (c_peer (sv_conn sv6))) sv6
              in reset_responses cfg now sv7))"

definition should_close :: "bool \<Rightarrow> bool \<Rightarrow> bool \<Rightarrow> bool \<Rightarrow> bool \<Rightarrow> bool \<Rightarrow> bool" where
  "should_close reading draining inflight_empty pulls_empty outstreams_empty receiving_empty =
     (if \<not> reading \<and> inflight_empty \<and> pulls_empty then True
      else if draining \<and> inflight_empty \<and> pulls_empty \<and> outstreams_empty \<and> receiving_empty then True
      else False)"

definition close_now :: "('h, 'b, 'k) server \<Rightarrow> bool" where
  "close_now sv =
     should_close (sv_reading sv) (sv_draining sv) (c_inflight (sv_conn sv) = []) (sd_pulls (sv_send sv) = [])
       (sd_outstreams (sv_send sv) = []) (c_streams (sv_conn sv) = [])"

text \<open>\<open>flush\<close> of the queue: everything is written and the responses that ended with it are complete, or the
  socket failed and they are not.\<close>

definition flushed :: "('h, 'b, 'k) server \<Rightarrow> ('h, 'b, 'k) server" where
  "flushed sv =
     (let s = sv_send sv
      in sv\<lparr>sv_wire := sv_wire sv @ sd_out s,
            sv_send := s\<lparr>sd_out := [], sd_completions := [],
              sd_ends := sd_ends s @ map (\<lambda>k. (k, Complete)) (sd_completions s)\<rparr>\<rparr>)"

definition flush_failed :: "('h, 'b, 'k) server \<Rightarrow> ('h, 'b, 'k) server" where
  "flush_failed sv =
     on_send (\<lambda>s. s\<lparr>sd_completions := [], sd_ends := sd_ends s @ map (\<lambda>k. (k, Error)) (sd_completions s)\<rparr>) sv"

section \<open>The end of a drain\<close>

definition abort_one :: "u32 \<Rightarrow> 'h conn \<Rightarrow> 'h conn" where
  "abort_one sid c =
     (let c1 = c\<lparr>c_inflight_sids := c_inflight_sids c - {sid}\<rparr>;
          c2 = (if card (c_cancelled c1) < usize_sat_mul (r_max_concurrent (c_recv c1)) 2
                then c1\<lparr>c_cancelled := insert sid (c_cancelled c1)\<rparr> else c1)
      in out_frames (\<lambda>b. write_rst_stream b sid err_CANCEL) c2)"

text \<open>\<open>inflight_sids.drain()\<close> visits the handlers that were not aborted, here in the order of \<open>inflight\<close>.\<close>

definition abort_all :: "'h conn \<Rightarrow> 'h conn" where
  "abort_all c = fold abort_one (filter (\<lambda>sid. sid \<in> c_inflight_sids c) (map fst (c_inflight c))) c"

definition abandon_drain :: "('h, 'b, 'k) server \<Rightarrow> ('h, 'b, 'k) server" where
  "abandon_drain sv =
     (let sv1 = fold (\<lambda>sid. on_conn (expire_stream sid)) (map fst (c_streams (sv_conn sv))) sv;
          sv2 = on_conn abort_all sv1;
          sv3 = on_send (fold reset_cancel (map fst (sd_outstreams (sv_send sv2)))) sv2
      in send_goaway err_NO_ERROR (sv3\<lparr>sv_pending_window := []\<rparr>))"

section \<open>Events\<close>

datatype ('h, 'b, 'k) event =
  Handler u32 "('h, 'b, 'k) response"
| Pulled u32 "'b stream_source" pull_result
| Shutdown
| Received bytes
| Read_eof
| Read_failed
| Frame_timer
| Body_timer
| Idle_timer
| Drain_timer
| Stall_timer
| Drain_idle_timer

definition earliest :: "nat option \<Rightarrow> nat option \<Rightarrow> nat option" where
  "earliest a b =
     (case (a, b) of (Some x, Some y) \<Rightarrow> Some (min x y) | (None, b) \<Rightarrow> b | (a, None) \<Rightarrow> a)"

definition read_deadline :: "('h, 'b, 'k) server \<Rightarrow> nat option" where
  "read_deadline sv = earliest (sv_partial_frame_deadline sv) (sv_header_block_deadline sv)"

definition elapsed :: "nat \<Rightarrow> nat option \<Rightarrow> bool" where
  "elapsed now deadline = (case deadline of None \<Rightarrow> False | Some d \<Rightarrow> d \<le> now)"

text \<open>The guards of the arms, with the readiness of their futures. The shutdown token may fire at any time.\<close>

definition event_ready ::
  "h2_config \<Rightarrow> nat \<Rightarrow> nat option \<Rightarrow> nat option \<Rightarrow> ('h, 'b, 'k) event \<Rightarrow> ('h, 'b, 'k) server \<Rightarrow> bool" where
  "event_ready cfg now stall_deadline drain_idle_deadline ev sv =
     (case ev of
        Handler sid resp \<Rightarrow> map_of (c_inflight (sv_conn sv)) sid \<noteq> None
      | Pulled sid body res \<Rightarrow> map_of (sd_pulls (sv_send sv)) sid \<noteq> None
      | Shutdown \<Rightarrow> \<not> sv_shutdown_drain sv
      | Received bytes \<Rightarrow> sv_reading sv \<and> bytes \<noteq> []
      | Read_eof \<Rightarrow> sv_reading sv
      | Read_failed \<Rightarrow> sv_reading sv
      | Frame_timer \<Rightarrow> sv_reading sv \<and> elapsed now (read_deadline sv)
      | Body_timer \<Rightarrow> sv_reading sv \<and> list_ex (\<lambda>(sid, st). elapsed now (st_body_deadline st)) (c_streams (sv_conn sv))
      | Idle_timer \<Rightarrow> sv_reading sv \<and> cfg_conn_idle_timeout cfg \<noteq> None \<and> sv_idle_at sv \<le> now
      | Drain_timer \<Rightarrow> sv_reading sv \<and> sv_draining sv \<and> sv_drain_at sv \<le> now
      | Stall_timer \<Rightarrow> elapsed now stall_deadline
      | Drain_idle_timer \<Rightarrow> elapsed now drain_idle_deadline)"

text \<open>The arms; \<open>None\<close> when \<open>serve\<close> returns the error.\<close>

definition serve_event ::
  "'h http_lib \<Rightarrow> ('b \<Rightarrow> nat option) \<Rightarrow> h2_config \<Rightarrow> nat \<Rightarrow> ('h, 'b, 'k) event \<Rightarrow> ('h, 'b, 'k) server \<Rightarrow> ('h, 'b, 'k) server option" where
  "serve_event lib exact cfg now ev sv =
     (case ev of
        Handler sid resp \<Rightarrow> Some (next_handler lib exact (sid, resp) sv)
      | Pulled sid body res \<Rightarrow> Some (next_pull (sid, body, res) sv)
      | Shutdown \<Rightarrow>
          (let sv1 = sv\<lparr>sv_shutdown_drain := True\<rparr>
           in Some (if sv_reading sv1 \<and> sv_accepting sv1
                    then (send_goaway err_NO_ERROR sv1)\<lparr>sv_accepting := False, sv_draining := True,
                            sv_drain_at := now + cfg_goaway_drain_timeout cfg\<rparr>
                    else sv1))
      | Received bytes \<Rightarrow> Some (sv\<lparr>sv_inbuf := sv_inbuf sv @ bytes\<rparr>)
      | Read_eof \<Rightarrow> Some (stop_reading sv)
      | Read_failed \<Rightarrow> None
      | Frame_timer \<Rightarrow> Some (fail_with err_PROTOCOL_ERROR sv)
      | Body_timer \<Rightarrow> Some sv
      | Idle_timer \<Rightarrow> Some (fail_with err_NO_ERROR sv)
      | Drain_timer \<Rightarrow> Some (stop_reading (abandon_drain sv))
      | Stall_timer \<Rightarrow> Some sv
      | Drain_idle_timer \<Rightarrow> Some sv)"

section \<open>The connection as a whole\<close>

definition PREFACE :: bytes where
  "PREFACE = str_bytes ''PRI * HTTP/2.0'' @ [0x0d, 0x0a, 0x0d, 0x0a] @ str_bytes ''SM'' @ [0x0d, 0x0a, 0x0d, 0x0a]"

definition sender_start :: "('b, 'k) sender" where
  "sender_start =
     \<lparr>sd_outstreams = [], sd_schedule = [], sd_out = [], sd_completions = [], sd_ends = [], sd_send_conn = 65535,
      sd_pulls = [], sd_blocked_conn = 0, sd_blocked_stream = 0, sd_stall_resets = 0\<rparr>"

definition server_start :: "h2_config \<Rightarrow> literal_memo \<Rightarrow> nat \<Rightarrow> nat \<Rightarrow> ('h, 'b, 'k) server" where
  "server_start cfg memo others now =
     \<lparr>sv_conn = conn_start cfg memo, sv_send = sender_start\<lparr>sd_out := start_frames cfg\<rparr>, sv_pending_window = [],
      sv_drain_idle = [], sv_body_progress = [], sv_inbuf = [], sv_reading = True, sv_accepting = True,
      sv_draining = False, sv_shutdown_drain = False, sv_partial_frame_deadline = None,
      sv_header_block_deadline = None, sv_idle_at = now, sv_drain_at = now, sv_wire = [], sv_others = others\<rparr>"

text \<open>Where \<open>serve\<close> is: reading the preface, at the top of the loop, in its \<open>select!\<close> with the two deadlines
  of the sending side, or returned.\<close>

datatype phase = Preface bytes | Top | Blocked "nat option" "nat option" | Closed | Failed

text \<open>What the other holders of the budget do.\<close>

inductive others_step :: "budget \<times> nat \<Rightarrow> budget \<times> nat \<Rightarrow> bool" where
  others_reserve:
    "held \<le> others \<Longrightarrow> lease_reserve b held n = (r, b', held') \<Longrightarrow> others_step (b, others) (b', others - held + held')"
| others_release:
    "held \<le> others \<Longrightarrow> lease_release b held n = (b', held') \<Longrightarrow> others_step (b, others) (b', others - held + held')"
| others_drop: "held \<le> others \<Longrightarrow> others_step (b, others) (lease_drop b held, others - held)"

inductive serve_step ::
  "'h http_lib \<Rightarrow> ('b \<Rightarrow> nat option) \<Rightarrow> h2_config \<Rightarrow> phase \<times> nat \<times> ('h, 'b, 'k) server \<Rightarrow> phase \<times> nat \<times> ('h, 'b, 'k) server \<Rightarrow> bool"
  for lib exact cfg where
  tick: "t \<le> t' \<Longrightarrow> serve_step lib exact cfg (ph, t, sv) (ph, t', sv)"
| preface_read: "length (buf @ data) \<le> length PREFACE \<Longrightarrow> serve_step lib exact cfg (Preface buf, t, sv) (Preface (buf @ data), t, sv)"
| preface_shutdown: "serve_step lib exact cfg (Preface buf, t, sv) (Closed, t, sv)"
| preface_failed: "buf \<noteq> PREFACE \<Longrightarrow> serve_step lib exact cfg (Preface buf, t, sv) (Failed, t, sv)"
| started: "serve_step lib exact cfg (Preface PREFACE, t, sv) (Top, t, flushed sv)"
| start_failed: "serve_step lib exact cfg (Preface PREFACE, t, sv) (Failed, t, flush_failed sv)"
| pass: "serve_pass lib exact cfg t handlers chunks sv = (stall, idle, sv') \<Longrightarrow>
    serve_step lib exact cfg (Top, t, sv) (if close_now (flushed sv') then Closed else Blocked stall idle, t, flushed sv')"
| pass_failed: "serve_pass lib exact cfg t handlers chunks sv = (stall, idle, sv') \<Longrightarrow>
    serve_step lib exact cfg (Top, t, sv) (Failed, t, flush_failed sv')"
| event: "event_ready cfg t stall idle ev sv \<Longrightarrow> serve_event lib exact cfg t ev sv = Some sv' \<Longrightarrow>
    serve_step lib exact cfg (Blocked stall idle, t, sv) (Top, t, sv')"
| event_failed: "event_ready cfg t stall idle ev sv \<Longrightarrow> serve_event lib exact cfg t ev sv = None \<Longrightarrow>
    serve_step lib exact cfg (Blocked stall idle, t, sv) (Failed, t, sv)"
| others: "c_body_budget (sv_conn sv) = Some b \<Longrightarrow> others_step (b, sv_others sv) (b', others') \<Longrightarrow>
    serve_step lib exact cfg (ph, t, sv) (ph, t, sv\<lparr>sv_conn := (sv_conn sv)\<lparr>c_body_budget := Some b'\<rparr>, sv_others := others'\<rparr>)"

definition serve_reach ::
  "'h http_lib \<Rightarrow> ('b \<Rightarrow> nat option) \<Rightarrow> h2_config \<Rightarrow> literal_memo \<Rightarrow> nat \<Rightarrow> phase \<times> nat \<times> ('h, 'b, 'k) server \<Rightarrow> bool" where
  "serve_reach lib exact cfg memo others s \<longleftrightarrow>
     (\<exists>t. (serve_step lib exact cfg)\<^sup>*\<^sup>* (Preface [], t, server_start cfg memo others t) s)"

end
