(* ===== verification/H2_Serve_Inv.thy ===== *)
theory H2_Serve_Inv
  imports H2_Server
begin

text \<open>
  The invariant of a whole connection, from the preface to its end, for every interleaving of frames,
  handlers, body pulls, timers, socket results and other users of the body budget. First the sending
  side on its own, then the composition with the receiving side, and last the properties of a run.
\<close>

section \<open>The sending side\<close>

text \<open>Every response is scheduled once; a response waits for a pull exactly when one is pending for it.\<close>

definition pulls_ok :: "('b, 'k) sender \<Rightarrow> bool" where
  "pulls_ok s \<longleftrightarrow> distinct (map fst (sd_pulls s)) \<and>
     (\<forall>i st. get_out s i = Some st \<longrightarrow> (os_pulling st \<longleftrightarrow> i \<in> fst ` set (sd_pulls s)))"

definition send_inv :: "('b, 'k) sender \<Rightarrow> bool" where
  "send_inv s \<longleftrightarrow> sender_ok s \<and> out_ok s \<and> pulls_ok s"

definition send_ids :: "('b, 'k) sender \<Rightarrow> u32 set" where
  "send_ids s = set (sd_schedule s) \<union> fst ` set (sd_pulls s)"

text \<open>A step of the sending side that brings in no new stream.\<close>

definition sends :: "('b, 'k) sender \<Rightarrow> ('b, 'k) sender \<Rightarrow> bool" where
  "sends s s' \<longleftrightarrow> (send_inv s \<longrightarrow> send_inv s' \<and> send_ids s' \<subseteq> send_ids s)"

lemma sends_refl [simp]: "sends s s"
  by (simp add: sends_def)

lemma sends_trans: "sends s s1 \<Longrightarrow> sends s1 s2 \<Longrightarrow> sends s s2"
  unfolding sends_def by blast

lemma sends_fold: "(\<And>x s. sends s (f x s)) \<Longrightarrow> sends s (fold f xs s)"
  by (induction xs arbitrary: s) (auto intro: sends_trans)

lemma get_out_outstreams: "sd_outstreams s' = sd_outstreams s \<Longrightarrow> get_out s' = get_out s"
  by (simp add: get_out_def fun_eq_iff)

lemma sends_keys:
  assumes "map fst (sd_outstreams s') = map fst (sd_outstreams s)" "sd_schedule s' = sd_schedule s"
    "map fst (sd_pulls s') = map fst (sd_pulls s)" "\<And>i. map_option os_pulling (get_out s' i) = map_option os_pulling (get_out s i)"
  shows "sends s s'"
proof -
  have keys: "fst ` set (sd_pulls s') = fst ` set (sd_pulls s)" "fst ` set (sd_outstreams s') = fst ` set (sd_outstreams s)"
    using assms(1,3) by (metis set_map)+
  have "\<exists>st. get_out s i = Some st \<and> os_pulling st = os_pulling st'" if "get_out s' i = Some st'" for i st'
    using assms(4) [of i] that by (cases "get_out s i") auto
  then have "pulls_ok s'" if "pulls_ok s"
    using that unfolding pulls_ok_def assms(3) keys by metis
  then show ?thesis
    unfolding sends_def send_inv_def sender_ok_def out_ok_def send_ids_def assms(1,2) keys by simp
qed

lemma sends_same:
  assumes "sd_outstreams s' = sd_outstreams s" "sd_schedule s' = sd_schedule s" "map fst (sd_pulls s') = map fst (sd_pulls s)"
  shows "sends s s'"
  using assms get_out_outstreams [OF assms(1)] by (intro sends_keys) simp_all

lemma fire_cancel_pulls [simp]: "map fst (sd_pulls (fire_cancel sid st s)) = map fst (sd_pulls s)"
  by (simp add: fire_cancel_def case_prod_unfold)

lemma remove_out_pulls [simp]: "map fst (sd_pulls (remove_out sid s)) = map fst (sd_pulls s)"
  by (simp add: remove_out_def split: option.split)

lemma cancel_pulls [simp]: "map fst (sd_pulls (cancel_outstream sid s)) = map fst (sd_pulls s)"
  by (simp add: cancel_outstream_def split: option.split)

lemma sends_out_write [simp]: "sends s (out_write f s)"
  by (rule sends_same) (simp_all add: out_write_def)

lemma pulls_ok_shrink:
  assumes "pulls_ok s" "map fst (sd_pulls s') = map fst (sd_pulls s)" "\<And>i. get_out s' i \<noteq> None \<Longrightarrow> get_out s' i = get_out s i"
  shows "pulls_ok s'"
proof -
  have "fst ` set (sd_pulls s') = fst ` set (sd_pulls s)" using assms(2) by (metis set_map)
  then show ?thesis using assms unfolding pulls_ok_def by (metis option.distinct(1))
qed

lemma sender_ok_shrink:
  "sender_ok s \<Longrightarrow> sd_schedule s' = sd_schedule s \<Longrightarrow> fst ` set (sd_outstreams s') \<subseteq> fst ` set (sd_outstreams s) \<Longrightarrow> sender_ok s'"
  unfolding sender_ok_def by (simp only:) blast

lemma sends_cancel [simp]: "sends s (cancel_outstream sid s)"
proof -
  have "fst ` set (sd_pulls (cancel_outstream sid s)) = fst ` set (sd_pulls s)"
    using cancel_pulls by (metis set_map)
  moreover have "pulls_ok (cancel_outstream sid s)" if "pulls_ok s"
    by (rule pulls_ok_shrink [OF that]) (auto split: if_splits)
  moreover have "sender_ok (cancel_outstream sid s)" if "sender_ok s"
    by (rule sender_ok_shrink [OF that]) (auto simp: cancel_outstreams keys_delete)
  ultimately show ?thesis
    by (auto simp: sends_def send_inv_def out_ok_def send_ids_def cancel_outstreams intro: distinct_delete)
qed

lemma sends_reset_cancel [simp]: "sends s (reset_cancel sid s)"
  unfolding reset_cancel_def by (rule sends_trans [OF sends_out_write sends_cancel])

lemma sends_put_out:
  assumes "get_out s sid = Some st" "os_pulling st' = os_pulling st"
  shows "sends s (put_out sid st' s)"
proof -
  have "sid \<in> fst ` set (sd_outstreams s)" using assms(1) by (metis get_out_def map_of_eq_None_iff option.distinct(1))
  then show ?thesis
    using assms by (auto simp: sends_def send_inv_def sender_ok_def out_ok_def pulls_ok_def send_ids_def dom_update distinct_update)
qed

lemma sends_stalled: "sends s (snd (reset_stalled_streams now timeout s))"
proof -
  have one: "sends s (reset_cancel sid (s\<lparr>sd_stall_resets := n\<rparr>))" for s :: "('a, 'b) sender" and sid n
    by (rule sends_trans [OF sends_same sends_reset_cancel]) simp_all
  show ?thesis by (auto simp: reset_stalled_streams_def intro: sends_fold one split: option.split prod.split)
qed

lemma sends_drain_idle: "sends s (snd (snd (reset_drain_idle_streams now grace idle s)))"
  by (auto simp: reset_drain_idle_streams_def intro: sends_fold split: prod.split)

subsection \<open>Pumping\<close>

lemma start_pull_pulls:
  assumes "start_pull sid st s = (st', s')"
  shows "(os_pulling st' = os_pulling st \<and> sd_pulls s' = sd_pulls s) \<or>
     (\<not> os_pulling st \<and> os_pulling st' \<and> (\<exists>b. sd_pulls s' = sd_pulls s @ [(sid, b, False)]))"
  using assms by (auto simp: start_pull_def split: if_splits option.splits)

lemma pump_one_frame_pulls:
  "pump_one_frame sid st mf s = (wrote, st', s') \<Longrightarrow>
     os_pulling st' = os_pulling st \<and> sd_pulls s' = sd_pulls s \<and> sd_outstreams s' = sd_outstreams s"
  by (erule pump_one_frameE) simp_all

lemma pump_visit_pulls:
  assumes "pump_visit now mf sid s = (keep, wrote, s')" "pulls_ok s" "out_ok s"
  shows "pulls_ok s'" "out_ok s'" "fst ` set (sd_outstreams s') = fst ` set (sd_outstreams s)"
    "fst ` set (sd_pulls s') \<subseteq> fst ` set (sd_pulls s) \<union> fst ` set (sd_outstreams s)"
proof -
  have "pulls_ok s' \<and> out_ok s' \<and> fst ` set (sd_outstreams s') = fst ` set (sd_outstreams s) \<and>
    fst ` set (sd_pulls s') \<subseteq> fst ` set (sd_pulls s) \<union> fst ` set (sd_outstreams s)"
  proof (cases "\<exists>st. get_out s sid = Some st \<and> \<not> os_done st")
    case False
    then show ?thesis using assms by (auto simp: pump_visit_def split: option.splits)
  next
    case True
    then obtain st where st: "get_out s sid = Some st" "\<not> os_done st" by blast
    obtain w st1 s1 where one: "pump_one_frame sid st mf s = (w, st1, s1)" by (metis prod_cases3)
    obtain st2 s2 where pull: "start_pull sid st1 s1 = (st2, s2)" by (metis surj_pair)
    define st3 where "st3 = (if os_done st2 then st2
        else st2\<lparr>os_stall := advance_stall now (os_stall st2)
               (nat (max (os_window st - os_window st2) 0)) (os_pending st2 \<noteq> [])\<rparr>)"
    have s': "s' = put_out sid st3 s2"
      using assms(1) st one pull unfolding pump_visit_def by (simp add: Let_def st3_def)
    have p3: "os_pulling st3 = os_pulling st2" by (simp add: st3_def)
    have o2: "sd_outstreams s2 = sd_outstreams s"
      using pump_one_frame_pulls [OF one] start_pull_result(3) [OF pull] by auto
    have key: "sid \<in> fst ` set (sd_outstreams s)"
      using st(1) by (metis get_out_def map_of_eq_None_iff option.distinct(1))
    have pl: "(os_pulling st3 = os_pulling st \<and> sd_pulls s2 = sd_pulls s) \<or>
        (\<not> os_pulling st \<and> os_pulling st3 \<and> (\<exists>b. sd_pulls s2 = sd_pulls s @ [(sid, b, False)]))"
      using start_pull_pulls [OF pull] pump_one_frame_pulls [OF one] p3 by auto
    have "pulls_ok s'"
      using pl assms(2) st(1) unfolding pulls_ok_def s'
      by (elim disjE conjE exE) (simp_all add: get_out_outstreams [OF o2])
    moreover have "out_ok s'" using assms(3) o2 unfolding out_ok_def s' by (simp add: distinct_update)
    moreover have "fst ` set (sd_outstreams s') = fst ` set (sd_outstreams s)"
      using key o2 unfolding s' by (auto simp: dom_update)
    moreover have "fst ` set (sd_pulls s') \<subseteq> fst ` set (sd_pulls s) \<union> fst ` set (sd_outstreams s)"
      using pl key unfolding s' by (elim disjE conjE exE) (simp_all add: le_supI1)
    ultimately show ?thesis by blast
  qed
  then show "pulls_ok s'" "out_ok s'" "fst ` set (sd_outstreams s') = fst ` set (sd_outstreams s)"
    "fst ` set (sd_pulls s') \<subseteq> fst ` set (sd_pulls s) \<union> fst ` set (sd_outstreams s)" by blast+
qed

lemma pump_step_pulls:
  assumes "pump_step now mf sid s = (wrote, s')" "pulls_ok s" "out_ok s"
  shows "pulls_ok s'" "out_ok s'" "fst ` set (sd_outstreams s') \<subseteq> fst ` set (sd_outstreams s)"
    "fst ` set (sd_pulls s') \<subseteq> fst ` set (sd_pulls s) \<union> fst ` set (sd_outstreams s)"
proof -
  obtain keep w s1 where v: "pump_visit now mf sid s = (keep, w, s1)" by (metis prod_cases3)
  note pv = pump_visit_pulls [OF v assms(2,3)]
  have s': "s' = (if keep then s1\<lparr>sd_schedule := sd_schedule s1 @ [sid]\<rparr> else remove_out sid s1)"
    using assms(1) v by (simp add: pump_step_def)
  have eq: "map fst (sd_pulls s') = map fst (sd_pulls s1)" using s' by simp
  show "pulls_ok s'"
    by (rule pulls_ok_shrink [OF pv(1) eq]) (auto simp: s' split: if_splits)
  show "out_ok s'" using pv(2) s' by (auto simp: out_ok_def intro: distinct_delete)
  show "fst ` set (sd_outstreams s') \<subseteq> fst ` set (sd_outstreams s)"
    using pv(3) unfolding s' by (simp add: keys_delete)
  show "fst ` set (sd_pulls s') \<subseteq> fst ` set (sd_pulls s) \<union> fst ` set (sd_outstreams s)"
    using pv(4) eq by (metis set_map)
qed

lemma pump_loop_pulls:
  assumes "0 < mf" "pulls_ok s" "out_ok s"
  shows "pulls_ok (pump_loop now mf visits s) \<and> out_ok (pump_loop now mf visits s) \<and>
    set (sd_schedule (pump_loop now mf visits s)) \<subseteq> set (sd_schedule s) \<and>
    fst ` set (sd_pulls (pump_loop now mf visits s)) \<subseteq> fst ` set (sd_pulls s) \<union> fst ` set (sd_outstreams s) \<and>
    fst ` set (sd_outstreams (pump_loop now mf visits s)) \<subseteq> fst ` set (sd_outstreams s)"
  using assms
proof (induction now mf visits s rule: pump_loop.induct)
  case (1 now mf visits s)
  show ?case
  proof (cases "visits = 0 \<or> sd_schedule s = []")
    case True
    then have "pump_loop now mf visits s = s" by (subst pump_loop.simps) auto
    then show ?thesis using "1.prems" by simp
  next
    case False
    then obtain sid rest where sch: "sd_schedule s = sid # rest" by (cases "sd_schedule s") auto
    obtain wrote s1 where st: "pump_step now mf sid (s\<lparr>sd_schedule := rest\<rparr>) = (wrote, s1)" by (metis surj_pair)
    let ?v = "if wrote then length (sd_schedule s1) else visits - 1"
    have run: "pump_loop now mf visits s = pump_loop now mf ?v s1"
      using False sch st by (subst pump_loop.simps) simp
    have ok: "pulls_ok (s\<lparr>sd_schedule := rest\<rparr>)" "out_ok (s\<lparr>sd_schedule := rest\<rparr>)"
      using "1.prems"(2,3) by (simp_all add: pulls_ok_def out_ok_def)
    note p = pump_step_pulls [OF st ok]
    have sub: "set (sd_schedule s1) \<subseteq> set (sd_schedule s)"
      using pump_step_effect(2) [OF st "1.prems"(1)] sch by (auto split: if_splits)
    have v: "visits \<noteq> 0" using False by simp
    have ih: "pulls_ok (pump_loop now mf ?v s1) \<and> out_ok (pump_loop now mf ?v s1) \<and>
        set (sd_schedule (pump_loop now mf ?v s1)) \<subseteq> set (sd_schedule s1) \<and>
        fst ` set (sd_pulls (pump_loop now mf ?v s1)) \<subseteq> fst ` set (sd_pulls s1) \<union> fst ` set (sd_outstreams s1) \<and>
        fst ` set (sd_outstreams (pump_loop now mf ?v s1)) \<subseteq> fst ` set (sd_outstreams s1)"
      by (rule "1.IH" [OF v sch st [symmetric] "1.prems"(1) p(1,2)])
    have out: "fst ` set (sd_outstreams s1) \<subseteq> fst ` set (sd_outstreams s)"
      and pl: "fst ` set (sd_pulls s1) \<subseteq> fst ` set (sd_pulls s) \<union> fst ` set (sd_outstreams s)"
      using p(3,4) by simp_all
    have "A \<subseteq> fst ` set (sd_pulls s) \<union> fst ` set (sd_outstreams s)"
      if "A \<subseteq> fst ` set (sd_pulls s1) \<union> fst ` set (sd_outstreams s1)" for A
      by (rule order_trans [OF that Un_least [OF pl order_trans [OF out Un_upper2]]])
    then show ?thesis unfolding run using ih sub out by (meson order_trans)
  qed
qed

lemma sends_pump [simp]: "sends s (pump_streams now peer s)"
proof (cases "send_inv s")
  case True
  let ?mf = "max (unat (p_max_frame_size peer)) 1" and ?s = "pump_streams now peer s"
  have keys: "fst ` set (sd_outstreams s) \<subseteq> set (sd_schedule s)"
    using True by (simp add: send_inv_def sender_ok_def)
  have "sender_ok ?s"
    using pump_loop_stuck [of ?mf s "length (sd_schedule s)" now] True by (simp add: send_inv_def pump_streams_def)
  moreover have p: "pulls_ok ?s \<and> out_ok ?s \<and> set (sd_schedule ?s) \<subseteq> set (sd_schedule s) \<and>
      fst ` set (sd_pulls ?s) \<subseteq> fst ` set (sd_pulls s) \<union> fst ` set (sd_outstreams s)"
    using pump_loop_pulls [of ?mf s now "length (sd_schedule s)"] True by (simp add: send_inv_def pump_streams_def)
  moreover have "fst ` set (sd_pulls ?s) \<subseteq> fst ` set (sd_pulls s) \<union> set (sd_schedule s)"
    using p keys by (meson Un_mono order_refl order_trans)
  ultimately show ?thesis unfolding sends_def send_inv_def send_ids_def by (simp add: le_supI1 le_supI2 Un_commute)
qed (simp add: sends_def)

text \<open>A pull that yields: its stream no longer waits for it.\<close>

lemma sends_apply_pull:
  "sends s (apply_pull sid body res (s\<lparr>sd_pulls := AList.delete sid (sd_pulls s)\<rparr>))"
proof (cases "get_out s sid")
  case None
  have "get_out s i \<noteq> None \<longrightarrow> i \<noteq> sid" for i using None by auto
  then show ?thesis
    using None by (auto simp: apply_pull_def sends_def send_inv_def sender_ok_def out_ok_def pulls_ok_def send_ids_def
        set_delete intro: distinct_delete)
next
  case (Some st)
  define ps where "ps = AList.delete sid (sd_pulls s)"
  have ps: "fst ` set ps = fst ` set (sd_pulls s) - {sid}" by (simp add: ps_def keys_delete)
  have key: "sid \<in> fst ` set (sd_outstreams s)"
    using Some by (metis get_out_def map_of_eq_None_iff option.distinct(1))
  have put: "sends s s'" if "sd_outstreams s' = AList.update sid st' (sd_outstreams s)" "\<not> os_pulling st'"
      "sd_schedule s' = sd_schedule s" "sd_pulls s' = ps" for s' st'
  proof -
    have "get_out s' i = (if i = sid then Some st' else get_out s i)" for i
      using that(1) by (simp add: get_out_def update_conv')
    moreover have "distinct (map fst (sd_pulls s'))" if "distinct (map fst (sd_pulls s))"
      using that \<open>sd_pulls s' = ps\<close> by (simp add: ps_def distinct_delete)
    ultimately show ?thesis
      using that key ps by (auto simp: sends_def send_inv_def sender_ok_def out_ok_def pulls_ok_def send_ids_def
          dom_update distinct_update)
  qed
  show ?thesis
    using Some by (cases res) (auto simp: apply_pull_def ps_def [symmetric] Let_def out_write_def intro!: put)
qed

text \<open>A response on a new stream.\<close>

lemma send_inv_register:
  assumes "send_inv s" "sid \<notin> send_ids s"
  shows "send_inv (register sid wnd pending body eof completion s)"
    "send_ids (register sid wnd pending body eof completion s) = insert sid (send_ids s)"
proof -
  have none: "get_out s sid = None"
    using assms by (auto simp: send_inv_def sender_ok_def send_ids_def get_out_keys)
  have d: "drop_old sid s = s" using none by (simp add: drop_old_def)
  show "send_inv (register sid wnd pending body eof completion s)"
    using assms by (auto simp: send_inv_def sender_ok_def out_ok_def pulls_ok_def send_ids_def register_def Let_def d
        dom_update distinct_update)
  show "send_ids (register sid wnd pending body eof completion s) = insert sid (send_ids s)"
    by (auto simp: send_ids_def register_def Let_def d)
qed

lemma send_inv_out [simp]:
  "send_inv (s\<lparr>sd_out := x\<rparr>) = send_inv s" "send_ids (s\<lparr>sd_out := x\<rparr>) = send_ids s"
  "send_inv (s\<lparr>sd_completions := y\<rparr>) = send_inv s" "send_ids (s\<lparr>sd_completions := y\<rparr>) = send_ids s"
  "send_inv (out_write f s) = send_inv s" "send_ids (out_write f s) = send_ids s"
  by (simp_all add: send_inv_def sender_ok_def out_ok_def pulls_ok_def send_ids_def out_write_def)

lemma start_body_inv:
  assumes "send_inv s" "sid \<notin> send_ids s"
  shows "send_inv (start_body sid is_head resp block mf wnd s) \<and>
    send_ids (start_body sid is_head resp block mf wnd s) \<subseteq> insert sid (send_ids s)"
proof -
  have "send_inv (headers_only sid block mf k s)" "send_ids (headers_only sid block mf k s) = send_ids s" for k
    using assms(1) by (simp_all add: headers_only_def Let_def)
  moreover have "send_inv (headers_open sid block mf s)" "send_ids (headers_open sid block mf s) = send_ids s"
    using assms(1) by (simp_all add: headers_open_def)
  ultimately show ?thesis
    using send_inv_register [of "headers_open sid block mf s" sid] assms(2)
    by (auto simp: start_body_def Let_def split: body.split option.split)
qed

lemma begin_response_inv:
  assumes "begin_response lib exact sid is_head resp peer encs pending_window s = (encs', pending_window', s')"
    and "send_inv s" "sid \<notin> send_ids s"
  shows "send_inv s'" "send_ids s' \<subseteq> insert sid (send_ids s)" "pending_window' = AList.delete sid pending_window"
proof -
  obtain encs1 s1 where hints: "send_early_hints lib sid (max (unat (p_max_frame_size peer)) 1) (rs_status resp)
      (response_headers lib exact is_head resp) encs s = (encs1, s1)" by (metis surj_pair)
  have s1: "send_inv s1" "send_ids s1 = send_ids s"
    using hints assms(2) by (auto simp: send_early_hints_def Let_def split: if_splits prod.splits)
  obtain e block m where enc: "encode_headers ((str_bytes '':status'', status_str (rs_status resp)) #
      hm_fields lib (response_headers lib exact is_head resp)) (fst encs1, [], snd encs1) = (e, block, m)"
    by (metis prod_cases3)
  obtain wnd where "s' = start_body sid is_head resp block (max (unat (p_max_frame_size peer)) 1) wnd s1"
      "pending_window' = AList.delete sid pending_window"
    using assms(1) hints enc unfolding begin_response_def Let_def by auto
  then show "send_inv s'" "send_ids s' \<subseteq> insert sid (send_ids s)" "pending_window' = AList.delete sid pending_window"
    using start_body_inv [of s1 sid is_head resp block "max (unat (p_max_frame_size peer)) 1" wnd] s1 assms(3) by simp_all
qed

section \<open>The two sides together\<close>

text \<open>A stream that is being answered is known, has left the table and its handler has yielded.\<close>

definition linked :: "'h conn \<Rightarrow> ('b, 'k) sender \<Rightarrow> bool" where
  "linked c s \<longleftrightarrow> (\<forall>i \<in> send_ids s. i \<le> last_id c \<and> i \<notin> stream_ids c \<and> i \<notin> dispatched c)"

lemma linked_evolves:
  assumes "linked c s" "ids_ok c" "evolves c new c'"
  shows "linked c' s"
proof -
  have "i \<le> last_id c' \<and> i \<notin> stream_ids c' \<and> i \<notin> dispatched c'" if i: "i \<in> send_ids s" for i
  proof -
    have k: "i \<le> last_id c" "i \<notin> stream_ids c" "i \<notin> dispatched c" using assms(1) i by (auto simp: linked_def)
    have "i \<notin> stream_ids c'" using k subsetD [OF evolvesD(3) [OF assms(3)], of i] by auto
    moreover have "i \<notin> fst ` set new" using k subsetD [OF evolvesD(6) [OF assms(3)], of i]
      by (meson UnE greaterThan_iff leD)
    moreover have "dispatched c' = dispatched c \<union> fst ` set new"
      using evolvesD(4) [OF assms(3)] by (simp add: dispatched_def image_Un)
    ultimately show ?thesis using k evolvesD(1) [OF assms(3)] by auto
  qed
  then show ?thesis by (simp add: linked_def)
qed

lemma linked_evo: "linked c s \<Longrightarrow> ids_ok c \<Longrightarrow> evo c c' \<Longrightarrow> linked c' s \<and> ids_ok c'"
  unfolding evo_def using linked_evolves by blast

definition core_inv :: "('h, 'b, 'k) server \<Rightarrow> bool" where
  "core_inv sv \<longleftrightarrow>
     acct_inv (sv_others sv) (sv_conn sv) \<and> ids_ok (sv_conn sv) \<and> send_inv (sv_send sv) \<and>
     linked (sv_conn sv) (sv_send sv) \<and>
     distinct (map fst (sv_pending_window sv)) \<and> length (sv_pending_window sv) \<le> PENDING_WINDOW_CAP"

text \<open>While frames are read: the protocol state is consistent, and credit is parked only for streams that
  await a response.\<close>

definition live_inv :: "('h, 'b, 'k) server \<Rightarrow> bool" where
  "live_inv sv \<longleftrightarrow> proto_inv (sv_conn sv) \<and> fst ` set (sv_pending_window sv) \<subseteq> awaiting (sv_conn sv)"

definition server_inv :: "('h, 'b, 'k) server \<Rightarrow> bool" where
  "server_inv sv \<longleftrightarrow> core_inv sv \<and> (sv_reading sv \<longrightarrow> live_inv sv)"

lemma out_fields [simp]:
  "stream_ids (c\<lparr>c_out := x\<rparr>) = stream_ids c" "dispatched (c\<lparr>c_out := x\<rparr>) = dispatched c"
  "awaiting (c\<lparr>c_out := x\<rparr>) = awaiting c" "ids_ok (c\<lparr>c_out := x\<rparr>) = ids_ok c"
  "acct_inv others (c\<lparr>c_out := x\<rparr>) = acct_inv others c" "proto_inv (c\<lparr>c_out := x\<rparr>) = proto_inv c"
proof -
  show "proto_inv (c\<lparr>c_out := x\<rparr>) = proto_inv c" by (rule same_protoD(4)) (simp add: same_proto_def)
  show "acct_inv others (c\<lparr>c_out := x\<rparr>) = acct_inv others c" by (rule acct_inv_same) (simp add: same_acct_def)
qed (simp_all add: stream_ids_def dispatched_def awaiting_def ids_ok_def)

lemma evo_out_update: "evo (c\<lparr>c_out := x\<rparr>) c' = evo c c'"
  by (simp add: evo_def evolves_def)

lemma evo_view: "evo (sv_conn sv) c = evo (conn_view sv) c"
  by (simp add: conn_view_def evo_out_update)

lemma server_fields [simp]:
  "sv_conn (put_conn c sv) = c" "sv_send (put_conn c sv) = (sv_send sv)\<lparr>sd_out := c_out c\<rparr>"
  "sv_others (put_conn c sv) = sv_others sv" "sv_reading (put_conn c sv) = sv_reading sv"
  "sv_pending_window (put_conn c sv) = sv_pending_window sv"
  "sv_conn (on_send f sv) = sv_conn sv" "sv_send (on_send f sv) = f (sv_send sv)"
  "sv_others (on_send f sv) = sv_others sv" "sv_reading (on_send f sv) = sv_reading sv"
  "sv_pending_window (on_send f sv) = sv_pending_window sv"
  "sv_conn (stop_reading sv) = sv_conn sv" "sv_send (stop_reading sv) = sv_send sv"
  "sv_others (stop_reading sv) = sv_others sv" "\<not> sv_reading (stop_reading sv)"
  "sv_pending_window (stop_reading sv) = sv_pending_window sv"
  "sv_conn (forget_window sid sv) = sv_conn sv" "sv_send (forget_window sid sv) = sv_send sv"
  "sv_others (forget_window sid sv) = sv_others sv" "sv_reading (forget_window sid sv) = sv_reading sv"
  "sv_pending_window (forget_window sid sv) = AList.delete sid (sv_pending_window sv)"
  by (simp_all add: put_conn_def on_send_def stop_reading_def forget_window_def)

lemma core_same:
  "sv_conn sv' = sv_conn sv \<Longrightarrow> sv_send sv' = sv_send sv \<Longrightarrow> sv_others sv' = sv_others sv \<Longrightarrow>
     sv_pending_window sv' = sv_pending_window sv \<Longrightarrow> core_inv sv' = core_inv sv \<and> live_inv sv' = live_inv sv"
  by (simp add: core_inv_def live_inv_def)

lemma core_send:
  assumes "core_inv sv" "sends (sv_send sv) (f (sv_send sv))"
  shows "core_inv (on_send f sv)" "live_inv (on_send f sv) = live_inv sv"
  using assms by (auto simp: core_inv_def live_inv_def sends_def linked_def)

lemma server_send: "server_inv sv \<Longrightarrow> sends (sv_send sv) (f (sv_send sv)) \<Longrightarrow> server_inv (on_send f sv)"
  using core_send by (auto simp: server_inv_def)

lemma core_forget: "core_inv sv \<Longrightarrow> core_inv (forget_window sid sv)"
  using length_delete_le [of sid "sv_pending_window sv"] by (auto simp: core_inv_def intro: distinct_delete)

lemma core_put_conn:
  assumes "core_inv sv" "acct_inv (sv_others sv) c" "evo (sv_conn sv) c"
  shows "core_inv (put_conn c sv)"
  using assms linked_evo [of "sv_conn sv" "sv_send sv" c] by (auto simp: core_inv_def linked_def)

lemma core_on_conn:
  assumes "core_inv sv" "\<And>c. acct_inv (sv_others sv) c \<Longrightarrow> acct_inv (sv_others sv) (f c)" "\<And>c. evo c (f c)"
  shows "core_inv (on_conn f sv)"
proof -
  have "acct_inv (sv_others sv) (conn_view sv)" using assms(1) by (simp add: core_inv_def conn_view_def)
  moreover have "evo (sv_conn sv) (f (conn_view sv))"
    unfolding evo_view by (rule assms(3))
  ultimately show ?thesis unfolding on_conn_def using assms(1,2) by (intro core_put_conn) auto
qed

lemma core_stop: "core_inv (stop_reading sv) = core_inv sv" "server_inv (stop_reading sv) = core_inv sv"
  using core_same [of "stop_reading sv" sv] by (simp_all add: server_inv_def)

lemma core_goaway: "core_inv sv \<Longrightarrow> core_inv (send_goaway code sv)"
  unfolding send_goaway_def by (rule core_on_conn) simp_all

lemma server_fail: "core_inv sv \<Longrightarrow> server_inv (fail_with code sv)"
  by (simp add: fail_with_def core_stop core_goaway)

lemma server_core: "server_inv sv \<Longrightarrow> core_inv sv"
  by (simp add: server_inv_def)

lemma proto_transfer:
  assumes "proto_inv c" "base_inv d" "c_streams d = c_streams c"
    "r_open_header_block (c_recv d) = r_open_header_block (c_recv c)"
    "r_discarding_header_block (c_recv d) = r_discarding_header_block (c_recv c)"
  shows "proto_inv d"
proof -
  have "get_stream d s = get_stream c s" "settled_except X d = settled_except X c" for s X
    using assms(3) by (simp_all add: get_stream_def settled_except_def)
  then show ?thesis using assms by (simp add: proto_inv_def split: option.splits)
qed

lemma goaway_proto: "proto_inv c \<Longrightarrow> proto_inv (snd (goaway code c))"
proof -
  assume inv: "proto_inv c"
  let ?d = "snd (goaway code c)"
  have r: "recv_core (c_recv ?d) = recv_core (c_recv c)" by simp
  have eqs: "c_streams ?d = c_streams c" "c_inflight_sids ?d = c_inflight_sids c" by simp_all
  have "recv_base (c_recv ?d)"
    using inv goaway_last_le [of code c] by (intro recv_base_core [OF r]) (auto simp: proto_inv_def base_inv_def)
  moreover have "stream_base (c_recv ?d) (c_inflight_sids ?d) sid st = stream_base (c_recv c) (c_inflight_sids c) sid st"
    for sid and st :: "'a stream_state"
    using recv_core_eqD [OF r] by (simp add: stream_base_def)
  ultimately have "base_inv ?d" using inv recv_core_eqD(2) [OF r] by (simp add: proto_inv_def base_inv_def)
  then show ?thesis
    by (rule proto_transfer [OF inv _ eqs(1) recv_core_eqD(3,4) [OF r]])
qed

lemma live_goaway: "live_inv sv \<Longrightarrow> live_inv (send_goaway code sv)"
proof -
  have "awaiting (snd (goaway code c)) = awaiting c" for c :: "'a conn"
    using discarding_core [OF goaway_simps(8) [of code c]] by (simp add: awaiting_def stream_ids_def)
  then show "live_inv sv \<Longrightarrow> live_inv (send_goaway code sv)"
    by (simp add: live_inv_def send_goaway_def on_conn_def goaway_proto conn_view_def)
qed

lemma server_goaway: "server_inv sv \<Longrightarrow> server_inv (send_goaway code sv)"
  using core_goaway [of sv code] live_goaway [of sv code] by (simp add: server_inv_def send_goaway_def on_conn_def)

lemma proto_no_progress: "proto_inv c \<Longrightarrow> proto_inv (map_recv (\<lambda>r. r\<lparr>r_no_progress_frames := 0\<rparr>) c)"
  by (auto simp: proto_inv_def base_inv_def recv_base_def stream_base_def split: option.splits)

lemma server_progressed: "server_inv sv \<Longrightarrow> server_inv (progressed sv)"
proof -
  assume inv: "server_inv sv"
  have "core_inv (progressed sv)"
    unfolding progressed_def using inv
    by (intro core_on_conn) (auto simp: server_inv_def acct_map_recv intro: evo_map_recv)
  moreover have "live_inv (progressed sv)" if "live_inv sv"
    using that proto_no_progress [of "conn_view sv"]
    by (simp add: live_inv_def progressed_def on_conn_def conn_view_def)
  ultimately show ?thesis using inv by (simp add: server_inv_def progressed_def on_conn_def)
qed

lemma server_conn_credit: "server_inv sv \<Longrightarrow> server_inv (snd (conn_credit increment sv))"
proof -
  assume inv: "server_inv sv"
  have "server_inv (on_send (\<lambda>s. s\<lparr>sd_send_conn := w\<rparr>) sv)" for w
    by (rule server_send [OF inv]) (rule sends_same, simp_all)
  then have "server_inv (on_send (\<lambda>s. s\<lparr>sd_send_conn := sd_send_conn s + int (unat increment)\<rparr>) sv)"
    by (simp add: on_send_def)
  then show ?thesis
    by (simp add: conn_credit_def Let_def server_progressed server_fail server_core)
qed

lemma server_stream_credit:
  assumes "server_inv sv" "get_out (sv_send sv) sid = Some st"
  shows "server_inv (stream_credit sid increment st sv)"
proof -
  have put: "server_inv (on_send (put_out sid st') sv)" if "os_pulling st' = os_pulling st" for st'
    using assms(2) that by (intro server_send [OF assms(1)] sends_put_out)
  have rst: "server_inv (on_send (\<lambda>s. put_out sid st' (out_write f s)) sv)" if "os_pulling st' = os_pulling st" for st' f
    using assms(2) that by (intro server_send [OF assms(1)] sends_trans [OF sends_out_write sends_put_out])
      (simp_all add: out_write_def)
  show ?thesis
    by (simp add: stream_credit_def Let_def put rst server_progressed)
qed

lemma sends_shift:
  "sends s (s\<lparr>sd_outstreams := map (\<lambda>(sid, st). (sid, st\<lparr>os_window := os_window st + delta\<rparr>)) (sd_outstreams s)\<rparr>)"
  (is "sends s ?s")
proof (rule sends_keys)
  fix i
  have "get_out ?s i = map_option (\<lambda>st. st\<lparr>os_window := os_window st + delta\<rparr>) (get_out s i)"
    by (simp add: get_out_def map_of_map)
  then show "map_option os_pulling (get_out ?s i) = map_option os_pulling (get_out s i)"
    by (cases "get_out s i") simp_all
qed (simp_all add: case_prod_unfold comp_def)

lemma server_shift: "server_inv sv \<Longrightarrow> server_inv (snd (shift_windows delta sv))"
proof -
  let ?f = "\<lambda>s. s\<lparr>sd_outstreams := map (\<lambda>(sid, st). (sid, st\<lparr>os_window := os_window st + delta\<rparr>)) (sd_outstreams s)\<rparr>"
  assume "server_inv sv"
  then have "server_inv (on_send ?f sv)" by (rule server_send) (rule sends_shift)
  then show ?thesis by (simp add: shift_windows_def Let_def server_fail server_core)
qed

lemma conn_view_put [simp]: "conn_view (put_conn c sv) = c" "put_conn c' (put_conn c sv) = put_conn c' sv"
  by (simp_all add: conn_view_def put_conn_def)

lemma rst_state:
  "snd (rst now sid code c) = snd (abort_handler now sid (teardown_receiving sid (out_frames (\<lambda>b. write_rst_stream b sid code) c)))"
  by (simp add: rst_def Let_def) (rule and_then_cases; simp)

lemma park_credit_cases:
  obtains (ignored) "snd (park_credit now sid increment sv) = sv"
  | (parked) credit where "sid \<in> awaiting (sv_conn sv)"
      "length (sv_pending_window sv) < PENDING_WINDOW_CAP \<or> sid \<in> fst ` set (sv_pending_window sv)"
      "snd (park_credit now sid increment sv) = sv\<lparr>sv_pending_window := AList.update sid credit (sv_pending_window sv)\<rparr>"
  | (overflow) sv' where "sv' = put_conn (snd (rst now sid err_FLOW_CONTROL_ERROR (conn_view (forget_window sid sv)))) (forget_window sid sv)"
      "snd (park_credit now sid increment sv) = sv' \<or> snd (park_credit now sid increment sv) = stop_reading sv'"
proof -
  let ?p = "park_credit now sid increment sv" and ?pw = "sv_pending_window sv" and ?c = "sv_conn sv"
  define aw where "aw = (get_stream ?c sid \<noteq> None \<or> sid \<in> c_inflight_sids ?c)"
  define room where "room = (length ?pw < PENDING_WINDOW_CAP \<or> map_of ?pw sid \<noteq> None)"
  define credit where "credit = (case map_of ?pw sid of None \<Rightarrow> 0 | Some w \<Rightarrow> w) + int (unat increment)"
  define sv0 where "sv0 = forget_window sid sv"
  define d where "d = teardown_receiving sid (out_frames (\<lambda>b. write_rst_stream b sid err_FLOW_CONTROL_ERROR) (conn_view sv0))"
  have run: "?p = (if aw \<and> room then
       if p_initial_window (c_peer ?c) + credit > I32_MAX then
         (case abort_handler now sid d of (None, c') \<Rightarrow> (False, put_conn c' sv0)
          | (Some out, c') \<Rightarrow> (True, stop_reading (put_conn c' sv0)))
       else (False, sv\<lparr>sv_pending_window := AList.update sid credit ?pw\<rparr>) else (False, sv))"
    unfolding park_credit_def Let_def on_conn_def sv0_def [symmetric] d_def [symmetric] credit_def [symmetric]
      aw_def [symmetric] room_def [symmetric] conn_view_put by (rule refl)
  show thesis
  proof (cases "aw \<and> room")
    case False
    then have "?p = (False, sv)" using run by (simp only: if_False)
    then show thesis using ignored by simp
  next
    case True
    have "sid \<in> awaiting ?c"
      using True get_stream_ids [of ?c sid] by (auto simp: aw_def awaiting_def)
    moreover have "length ?pw < PENDING_WINDOW_CAP \<or> sid \<in> fst ` set ?pw"
      using True by (auto simp: room_def map_of_eq_None_iff)
    moreover have "thesis" if over: "p_initial_window (c_peer ?c) + credit > I32_MAX"
    proof (rule overflow [OF refl])
      have "?p = (case abort_handler now sid d of (None, c') \<Rightarrow> (False, put_conn c' sv0)
          | (Some out, c') \<Rightarrow> (True, stop_reading (put_conn c' sv0)))"
        using run True over by (simp only: if_True simp_thms)
      then show "snd ?p = put_conn (snd (rst now sid err_FLOW_CONTROL_ERROR (conn_view (forget_window sid sv)))) (forget_window sid sv) \<or>
          snd ?p = stop_reading (put_conn (snd (rst now sid err_FLOW_CONTROL_ERROR (conn_view (forget_window sid sv)))) (forget_window sid sv))"
        unfolding rst_state sv0_def [symmetric] d_def [symmetric]
        by (cases "abort_handler now sid d"; cases "fst (abort_handler now sid d)") auto
    qed
    moreover have "?p = (False, sv\<lparr>sv_pending_window := AList.update sid credit ?pw\<rparr>)"
      if "\<not> p_initial_window (c_peer ?c) + credit > I32_MAX"
      using run True that by (simp only: if_True if_False simp_thms)
    ultimately show thesis using parked [of credit] by (metis snd_conv)
  qed
qed

lemma length_update: "length (AList.update k v al) = (if k \<in> fst ` set al then length al else Suc (length al))"
  by (induction al) auto

lemma server_park_credit:
  assumes inv: "server_inv sv" and q: "sv_reading sv \<Longrightarrow> quiet (sv_conn sv)"
  shows "server_inv (snd (park_credit now sid increment sv))"
proof (cases rule: park_credit_cases [of now sid increment sv])
  case ignored
  then show ?thesis using inv by simp
next
  case (parked credit)
  have len: "length (AList.update sid credit (sv_pending_window sv)) \<le> PENDING_WINDOW_CAP"
    using parked(2) inv by (auto simp: length_update server_inv_def core_inv_def)
  then show ?thesis
    using inv parked by (auto simp: server_inv_def core_inv_def live_inv_def dom_update distinct_update)
next
  case (overflow sv')
  let ?sv0 = "forget_window sid sv"
  let ?c = "conn_view ?sv0"
  have core0: "core_inv ?sv0" by (rule core_forget [OF server_core [OF inv]])
  have core: "core_inv sv'"
    unfolding overflow(1)
  proof (rule core_put_conn [OF core0])
    show "acct_inv (sv_others ?sv0) (snd (rst now sid err_FLOW_CONTROL_ERROR ?c))"
      using core0 by (intro acct_rst) (simp add: core_inv_def conn_view_def)
    show "evo (sv_conn ?sv0) (snd (rst now sid err_FLOW_CONTROL_ERROR ?c))"
      unfolding evo_view by simp
  qed
  have "live_inv sv'" if r: "sv_reading sv"
  proof -
    have p: "proto_inv (sv_conn sv)" "fst ` set (sv_pending_window sv) \<subseteq> awaiting (sv_conn sv)"
      using inv r by (simp_all add: server_inv_def live_inv_def)
    then have "proto_inv ?c" "quiet ?c" using q [OF r] by (simp_all add: conn_view_def quiet_def)
    then have "base_inv ?c" "settled_except {} ?c" "quiet ?c" using proto_quietD [of ?c] by (auto simp: quiet_def)
    then have "proto_inv (snd (rst now sid err_FLOW_CONTROL_ERROR ?c))"
      by (intro only_drops_proto [OF rst_only_drops]) (auto intro: settled_mono)
    moreover have "awaiting ?c - {sid} \<subseteq> awaiting (snd (rst now sid err_FLOW_CONTROL_ERROR ?c))"
      by (rule awaiting_rst)
    ultimately show ?thesis
      using p(2) unfolding overflow(1) by (auto simp: live_inv_def keys_delete conn_view_def dest!: subsetD)
  qed
  then have "server_inv sv'" using core by (simp add: server_inv_def overflow(1))
  then show ?thesis using overflow(2) core by (auto simp: core_stop)
qed

subsection \<open>Frames\<close>

text \<open>Only a WINDOW\_UPDATE frame has the outcome \<open>WindowUpdate\<close>, and it is read between header blocks.\<close>

definition no_credit :: "'h step \<Rightarrow> bool" where
  "no_credit s \<longleftrightarrow> (\<forall>sid n. fst s \<noteq> Some (WindowUpdate sid n))"

lemma no_credit_rst [simp]: "no_credit (rst now sid code c)"
  using rst_outcome [of now sid code c] by (auto simp: no_credit_def)

lemma no_credit_simps [simp]:
  "no_credit (None, c)" "no_credit (goaway code c)" "no_credit (Some Continue, c)" "no_credit (Some (ResetStream sid), c)"
  by (simp_all add: no_credit_def)

lemma no_credit_and_then: "no_credit s \<Longrightarrow> (\<And>c. no_credit (f c)) \<Longrightarrow> no_credit (and_then s f)"
  by (cases s; cases "fst s") (auto simp: and_then_def no_credit_def)

lemma no_credit_reject [simp]:
  "no_credit (reject_too_large now sid status op c)" "no_credit (reject_early lib now sid c)"
  by (auto simp: reject_too_large_def reject_early_def Let_def split: prod.split option.split)

lemma no_credit_complete [simp]: "no_credit (complete lib now sid c)"
  by (auto simp: complete_def Let_def split: option.split prod.split)

lemma no_credit_block [simp]: "no_credit (header_block_decoded lib now sid dcd c)"
  unfolding header_block_decoded_def
  by (auto split: decoded.split option.split simp: refuse_if_marked_def admit_or_refuse_def Let_def
      intro!: no_credit_and_then split: prod.split)

lemma no_credit_branches:
  "(b \<Longrightarrow> no_credit s) \<Longrightarrow> (\<not> b \<Longrightarrow> no_credit t) \<Longrightarrow> no_credit (if b then s else t)"
  "(\<And>x. no_credit (f x)) \<Longrightarrow> no_credit s \<Longrightarrow> no_credit (case z of None \<Rightarrow> s | Some x \<Rightarrow> f x)"
  "(\<And>x y. no_credit (g x y)) \<Longrightarrow> no_credit (case p of (x, y) \<Rightarrow> g x y)"
  by (simp_all split: option.split prod.split)

lemma no_credit_arms:
  "no_credit (headers_frame lib now n accept h payload c)" "no_credit (continuation_frame lib now h payload c)"
  unfolding headers_frame_def discard_headers_def open_headers_def continuation_frame_def Let_def
  by (intro no_credit_branches no_credit_simps no_credit_rst no_credit_block)+

lemma no_credit_settings: "no_credit (settings_frame h payload c)"
proof -
  have "no_credit out" if "apply_settings ps (0, None, c) = Inl out" for ps out
    using awaiting_apply_settings [where ps = ps and delta = 0 and hts = None and c = c] that by (simp add: no_credit_def)
  moreover have "no_credit (Some (InitialWindowDelta d), c')" for d c' by (simp add: no_credit_def)
  ultimately show ?thesis
    by (auto simp: settings_frame_def Let_def split: option.split sum.split)
qed

lemma no_credit_abort: "no_credit (abort_handler now sid c)"
  using abort_handler_result(1) [of now sid c] by (auto simp: no_credit_def)

lemma no_credit_data: "no_credit (data_frame lib now h payload c)"
  unfolding data_frame_def buffer_data_def conn_flow_def Let_def
  by (intro no_credit_branches no_credit_simps no_credit_rst no_credit_and_then no_credit_reject no_credit_complete)+

lemma no_credit_others:
  "no_credit (ping_frame h payload c)" "no_credit (goaway_frame payload c)" "no_credit (priority_frame now h payload c)"
  "no_credit (rst_stream_frame now h c)"
  by (auto simp: ping_frame_def goaway_frame_def priority_frame_def rst_stream_frame_def Let_def
      intro!: no_credit_and_then no_credit_abort) (simp add: no_credit_def)

lemma window_update_quiet:
  assumes "process_frame lib now n accept h payload c = (WindowUpdate sid increment, c')" "proto_inv c'"
  shows "quiet c'"
proof -
  let ?s = "and_then (frame_checks h c) (frame_arm lib now n accept h payload)"
  have s: "?s = (Some (WindowUpdate sid increment), c')"
    using assms(1) by (cases "?s"; cases "fst ?s") (auto simp: process_frame_def)
  have "r_open_header_block (c_recv c') = None"
  proof (cases rule: frame_checks_cases [of h c])
    case (stop code d)
    then have "?s = goaway code d" by simp
    from arg_cong [OF this [unfolded s], of fst] show ?thesis by simp
  next
    case pass
    then have arm: "frame_arm lib now n accept h payload (tick c) = (Some (WindowUpdate sid increment), c')"
      using s by simp
    then have "\<not> no_credit (frame_arm lib now n accept h payload (tick c))" by (simp add: no_credit_def)
    then have k: "fh_kind h = kind_WINDOW_UPDATE"
      unfolding frame_arm_def
      by (rule contrapos_np)
        (simp add: no_credit_arms no_credit_settings no_credit_data no_credit_others)
    then have "window_update_frame now h payload (tick c) = (Some (WindowUpdate sid increment), c')"
      using arm by (simp add: frame_arm_def h2_consts)
    moreover have "goaway code d \<noteq> (Some (WindowUpdate sid increment), c')"
        "rst now i code d \<noteq> (Some (WindowUpdate sid increment), c')" for code i d
      using no_credit_simps(2) [of code d] no_credit_rst [of now i code d] by (metis fst_conv no_credit_def)+
    ultimately have "c' = tick c"
      unfolding window_update_frame_def Let_def by (auto split: if_splits option.splits)
    then show ?thesis using pass(3) k by (simp add: h2_consts tick_def)
  qed
  then show ?thesis using assms(2) by (simp add: proto_inv_def quiet_def)
qed

lemma handle_outcome_inv:
  assumes core: "core_inv sv"
    and live: "out \<noteq> StopReading \<Longrightarrow> proto_inv (sv_conn sv)"
    and await: "\<And>i. i \<in> fst ` set (sv_pending_window sv) \<Longrightarrow> out \<noteq> StopReading \<Longrightarrow>
      i \<in> awaiting (sv_conn sv) \<or> out = ResetStream i"
    and quiet: "\<And>sid n. out = WindowUpdate sid n \<Longrightarrow> quiet (sv_conn sv)"
  shows "server_inv (snd (handle_outcome cfg now out sv))"
proof -
  have inv: "server_inv sv" if "out \<noteq> StopReading" "\<And>i. out \<noteq> ResetStream i"
    using that core live await by (auto simp: server_inv_def live_inv_def)
  show ?thesis
  proof (cases out)
    case Continue
    then show ?thesis using inv by (simp add: handle_outcome_def)
  next
    case StopReading
    then show ?thesis using core by (simp add: handle_outcome_def core_stop)
  next
    case PeerGoaway
    let ?sv = "snd (handle_outcome cfg now out sv)"
    have "sv_conn ?sv = sv_conn sv" "sv_send ?sv = sv_send sv" "sv_others ?sv = sv_others sv"
        "sv_pending_window ?sv = sv_pending_window sv" "sv_reading ?sv = sv_reading sv"
      using PeerGoaway by (simp_all add: handle_outcome_def)
    then show ?thesis using inv PeerGoaway core_same [of ?sv sv] by (simp add: server_inv_def)
  next
    case (WindowUpdate sid n)
    then have "server_inv sv" "quiet (sv_conn sv)" using inv quiet by simp_all
    then show ?thesis
      using WindowUpdate server_park_credit
      by (auto simp: handle_outcome_def server_conn_credit server_stream_credit split: option.split)
  next
    case (ResetStream sid)
    let ?sv = "forget_window sid (on_send (cancel_outstream sid) sv)"
    have "core_inv ?sv" by (intro core_forget core_send [OF core]) simp
    moreover have "live_inv ?sv"
      using live await ResetStream by (auto simp: live_inv_def keys_delete)
    ultimately show ?thesis using ResetStream by (simp add: handle_outcome_def server_inv_def)
  next
    case (InitialWindowDelta d)
    then show ?thesis using inv by (simp add: handle_outcome_def server_shift)
  qed
qed

lemma serve_frame_inv:
  assumes inv: "server_inv sv" and r: "sv_reading sv"
  shows "server_inv (snd (serve_frame lib cfg now hdr payload sv))"
proof -
  define c0 where "c0 = conn_view sv"
  obtain out c where run: "process_frame lib now (length (sd_outstreams (sv_send sv))) (sv_accepting sv) hdr payload c0 = (out, c)"
    by (metis surj_pair)
  have c0: "acct_inv (sv_others sv) c0" "proto_inv c0" "ids_ok c0" "fst ` set (sv_pending_window sv) \<subseteq> awaiting c0"
    using inv r by (simp_all add: c0_def conn_view_def server_inv_def core_inv_def live_inv_def)
  then have ci: "conn_inv (sv_others sv) c0" by (simp add: conn_inv_def)
  note good = process_frame_good [OF ci run]
  have "evo c0 c" unfolding evo_def using process_frame_evolves [OF _ run] by blast
  then have evo: "evo (sv_conn sv) c" by (simp add: evo_view c0_def)
  define sv2 where "sv2 = (put_conn c sv)\<lparr>sv_header_block_deadline :=
      next_header_block_deadline (r_open_header_block (c_recv (sv_conn sv)) \<noteq> None) (r_open_header_block (c_recv c) \<noteq> None)
        (sv_header_block_deadline (put_conn c sv)) (map_option (\<lambda>d. now + d) (cfg_frame_read_timeout cfg))\<rparr>"
  have f2: "sv_conn sv2 = c" "sv_pending_window sv2 = sv_pending_window sv" by (simp_all add: sv2_def)
  have "core_inv sv2 = core_inv (put_conn c sv)" using core_same [of sv2 "put_conn c sv"] by (simp add: sv2_def)
  then have "core_inv sv2" using core_put_conn [OF server_core [OF inv] good(1) evo] by simp
  then have "server_inv (snd (handle_outcome cfg now out sv2))"
  proof (rule handle_outcome_inv)
    show "proto_inv (sv_conn sv2)" if "out \<noteq> StopReading" using good(2) [OF that] f2 by (simp add: conn_inv_def)
    then show "quiet (sv_conn sv2)" if "out = WindowUpdate sid n" for sid n
      using window_update_quiet [OF run [unfolded that]] that f2 by simp
    show "i \<in> awaiting (sv_conn sv2) \<or> out = ResetStream i"
      if "i \<in> fst ` set (sv_pending_window sv2)" "out \<noteq> StopReading" for i
      using process_frame_keeps [OF run that(2), of i] subsetD [OF c0(4) that(1) [unfolded f2]] f2(1) by metis
  qed
  then show ?thesis
    using run unfolding serve_frame_def Let_def c0_def sv2_def by simp
qed

lemma server_inbuf: "server_inv (sv\<lparr>sv_inbuf := x\<rparr>) = server_inv sv"
  by (simp add: server_inv_def core_inv_def live_inv_def)

lemma drain_frames_inv: "server_inv sv \<Longrightarrow> server_inv (snd (drain_frames lib cfg now (completed, sv)))"
proof (induction lib cfg now "(completed, sv)" arbitrary: completed sv rule: drain_frames.induct)
  case (1 lib cfg now completed sv)
  show ?case
  proof (cases "sv_reading sv")
    case False
    then show ?thesis using "1.prems" by (simp add: drain_frames.simps)
  next
    case True
    show ?thesis
    proof (cases "next_frame (frame_cap cfg) (sv_inbuf sv)")
      case (GotFrame hdr payload rest)
      obtain left sv' where f: "serve_frame lib cfg now hdr payload (sv\<lparr>sv_inbuf := rest\<rparr>) = (left, sv')"
        by (metis surj_pair)
      have "server_inv sv'"
        using serve_frame_inv [of "sv\<lparr>sv_inbuf := rest\<rparr>" lib cfg now hdr payload] "1.prems" True f by (simp add: server_inbuf)
      then show ?thesis
        using "1.hyps" [OF _ GotFrame f [symmetric]] True GotFrame f by (subst drain_frames.simps) simp
    qed (use "1.prems" True in \<open>simp_all add: drain_frames.simps server_fail server_core\<close>)
  qed
qed

subsection \<open>Body deadlines\<close>

definition no_deadline :: "'h stream_state \<Rightarrow> 'h stream_state" where
  "no_deadline st = st\<lparr>st_body_deadline := None\<rparr>"

text \<open>Two tables that differ in the deadlines of the bodies only.\<close>

definition same_streams :: "(u32 \<times> 'h stream_state) list \<Rightarrow> (u32 \<times> 'h stream_state) list \<Rightarrow> bool" where
  "same_streams xs ys \<longleftrightarrow> map (apsnd no_deadline) xs = map (apsnd no_deadline) ys"

lemma same_streams_refl [simp]: "same_streams xs xs"
  by (simp add: same_streams_def)

lemma same_streams_trans: "same_streams xs ys \<Longrightarrow> same_streams ys zs \<Longrightarrow> same_streams xs zs"
  by (simp add: same_streams_def)

lemma same_streams_update:
  "map_of xs sid = Some st \<Longrightarrow> no_deadline st' = no_deadline st \<Longrightarrow> same_streams (AList.update sid st' xs) xs"
  unfolding same_streams_def by (induction xs) (auto split: if_splits)

lemma same_streams_map:
  assumes "same_streams xs ys" "\<And>st. f (no_deadline st) = f st"
  shows "map (\<lambda>(sid, st). f st) xs = map (\<lambda>(sid, st). f st) ys"
proof -
  have eq: "map (\<lambda>(sid, st). f st) zs = map (f \<circ> snd) (map (apsnd no_deadline) zs)" for zs
    by (auto simp: assms(2))
  show ?thesis using assms(1) unfolding eq same_streams_def by simp
qed

lemma same_streams_keys: "same_streams xs ys \<Longrightarrow> map fst xs = map fst ys"
proof -
  have eq: "map fst zs = map fst (map (apsnd no_deadline) zs)" for zs :: "(u32 \<times> 'h stream_state) list"
    by (simp add: comp_def)
  show "same_streams xs ys \<Longrightarrow> map fst xs = map fst ys"
    unfolding same_streams_def by (subst (1 2) eq) simp
qed

lemma same_streams_all:
  assumes "same_streams xs ys" "\<And>sid st. P sid (no_deadline st) = P sid st"
  shows "(\<forall>(sid, st) \<in> set xs. P sid st) = (\<forall>(sid, st) \<in> set ys. P sid st)"
proof -
  have eq: "(\<forall>(sid, st) \<in> set zs. P sid st) = list_all (\<lambda>(sid, st). P sid st) (map (apsnd no_deadline) zs)" for zs
    by (induction zs) (auto simp: assms(2))
  show ?thesis using assms(1) unfolding eq same_streams_def by simp
qed

lemma same_streams_get:
  assumes "same_streams xs ys"
  shows "map_option no_deadline (map_of xs sid) = map_option no_deadline (map_of ys sid)"
proof -
  have eq: "map_option no_deadline (map_of zs sid) = map_of (map (apsnd no_deadline) zs) sid"
    for zs :: "(u32 \<times> 'a stream_state) list"
    by (induction zs) auto
  show ?thesis using assms unfolding eq same_streams_def by simp
qed

lemma deadlines_conn:
  assumes "same_streams xs (c_streams c)"
  shows "acct_inv others (c\<lparr>c_streams := xs\<rparr>) = acct_inv others c"
    "proto_inv (c\<lparr>c_streams := xs\<rparr>) = proto_inv c" "stream_ids (c\<lparr>c_streams := xs\<rparr>) = stream_ids c"
    "awaiting (c\<lparr>c_streams := xs\<rparr>) = awaiting c" "ids_ok (c\<lparr>c_streams := xs\<rparr>) = ids_ok c"
proof -
  let ?d = "c\<lparr>c_streams := xs\<rparr>"
  have nd: "st_body (no_deadline st) = st_body st" "st_header_charge (no_deadline st) = st_header_charge st"
      "st_body_lease (no_deadline st) = st_body_lease st" "lease_exact b (no_deadline st) = lease_exact b st"
      "stream_base r sids sid (no_deadline st) = stream_base r sids sid st" "settled (no_deadline st) = settled st"
      "open_stream_ok (no_deadline st) = open_stream_ok st"
    for st :: "'a stream_state" and b r sids sid
    by (simp_all add: no_deadline_def lease_exact_def stream_base_def settled_def open_stream_ok_def split: option.splits)
  have d: "c_streams ?d = xs" "c_recv ?d = c_recv c" "c_inflight ?d = c_inflight c" "c_inflight_sids ?d = c_inflight_sids c"
      "c_body_budget ?d = c_body_budget c"
    by simp_all
  note mp = same_streams_map [OF assms] and all = same_streams_all [OF assms]
  have sums: "sum_streams (\<lambda>st. length (st_body st)) xs = sum_streams (\<lambda>st. length (st_body st)) (c_streams c)"
      "sum_streams st_header_charge xs = sum_streams st_header_charge (c_streams c)"
      "sum_streams (\<lambda>st. lease_of (st_body_lease st)) xs = sum_streams (\<lambda>st. lease_of (st_body_lease st)) (c_streams c)"
    unfolding sum_streams_def by (simp_all add: mp nd)
  show "acct_inv others ?d = acct_inv others c"
    using all [of "\<lambda>sid st. lease_exact (c_body_budget c) st", OF nd(4)]
    unfolding acct_inv_def d by (simp only: same_streams_keys [OF assms] sums)
  have "base_inv ?d = base_inv c"
    using all [of "stream_base (c_recv c) (c_inflight_sids c)", OF nd(5)] unfolding base_inv_def d by (simp only:)
  moreover have "settled_except X ?d = settled_except X c" for X
    using all [of "\<lambda>sid st. sid \<notin> X \<longrightarrow> settled st"] nd(6) unfolding settled_except_def d by (simp only:)
  moreover have get: "map_option no_deadline (get_stream ?d s) = map_option no_deadline (get_stream c s)" for s
    by (simp add: get_stream_def same_streams_get [OF assms])
  have "(get_stream ?d s = None) = (get_stream c s = None)" for s using get by (metis map_option_is_None)
  moreover have ok: "(\<exists>st. g = Some st \<and> open_stream_ok st) = (\<exists>st. map_option no_deadline g = Some st \<and> open_stream_ok st)"
    for g :: "'a stream_state option"
    using nd(7) by (cases g) auto
  have "(\<exists>st. get_stream ?d s = Some st \<and> open_stream_ok st) = (\<exists>st. get_stream c s = Some st \<and> open_stream_ok st)" for s
    by (rule trans [OF ok trans [OF _ ok [symmetric]]]) (simp only: get)
  ultimately show "proto_inv ?d = proto_inv c" unfolding proto_inv_def d by (simp only:)
  have ids: "fst ` set xs = fst ` set (c_streams c)" using same_streams_keys [OF assms] by (metis set_map)
  then show "stream_ids ?d = stream_ids c" "awaiting ?d = awaiting c" "ids_ok ?d = ids_ok c"
    by (simp_all add: stream_ids_def awaiting_def ids_ok_def dispatched_def)
qed

lemma same_start_deadlines: "same_streams (map (\<lambda>(sid, st). (sid, start_deadline now timeout st)) xs) xs"
  by (auto simp: same_streams_def start_deadline_def no_deadline_def)

lemma same_extend:
  assumes "same_streams xs ys" "extend_body now timeout entry (kept, xs) = (kept', xs')"
  shows "same_streams xs' ys"
proof -
  have "same_streams xs' xs"
    using assms(2) by (auto simp: extend_body_def no_deadline_def split: prod.splits option.splits
        intro!: same_streams_update)
  then show ?thesis using assms(1) same_streams_trans by blast
qed

lemma same_extend_fold:
  "same_streams xs ys \<Longrightarrow> same_streams (snd (fold (extend_body now timeout) entries (kept, xs))) ys"
proof (induction entries arbitrary: kept xs)
  case (Cons e entries)
  obtain kept' xs' where e: "extend_body now timeout e (kept, xs) = (kept', xs')" by (metis surj_pair)
  show ?case using Cons.IH [OF same_extend [OF Cons.prems e], of kept'] by (simp add: e)
qed simp

lemma advance_same: "same_streams (fst (advance_body_deadlines now timeout ceiling (streams, progress))) streams"
proof -
  let ?p = "fold (start_progress now ceiling) streams progress"
    and ?s = "map (\<lambda>(sid, st). (sid, start_deadline now timeout st)) streams"
  have "same_streams (snd (fold (extend_body now timeout) ?p ([], ?s))) streams"
    by (rule same_extend_fold) (rule same_start_deadlines)
  then show ?thesis
    using same_start_deadlines [of now timeout streams]
    by (auto simp: advance_body_deadlines_def Let_def split: prod.splits)
qed

lemma body_deadlines_inv: "server_inv sv \<Longrightarrow> server_inv (body_deadlines cfg now sv)"
proof -
  assume inv: "server_inv sv"
  show ?thesis
  proof (cases "cfg_request_body_timeout cfg")
    case (Some d)
    obtain streams progress where a: "advance_body_deadlines now d (cfg_request_body_ceiling cfg)
        (c_streams (sv_conn sv), sv_body_progress sv) = (streams, progress)" by (metis surj_pair)
    have same: "same_streams streams (c_streams (sv_conn sv))"
      using advance_same [of now d "cfg_request_body_ceiling cfg" "c_streams (sv_conn sv)" "sv_body_progress sv"] a by simp
    show ?thesis
      using inv Some a deadlines_conn [OF same]
      by (simp add: body_deadlines_def server_inv_def core_inv_def live_inv_def linked_def dispatched_def)
  qed (use inv in \<open>simp add: body_deadlines_def\<close>)
qed

text \<open>Expiring a stream: its header block, when one is open, is discarded from there on.\<close>

definition block_diverted :: "u32 \<Rightarrow> 'h stream_state \<Rightarrow> 'h conn \<Rightarrow> 'h conn" where
  "block_diverted sid st c =
     map_recv (\<lambda>r. r\<lparr>r_discard_header_block := st_header_block st, r_discarding_header_block := True,
                     r_discard_rst_code := err_CANCEL\<rparr>) (put_stream sid (st\<lparr>st_header_block := []\<rparr>) c)"

lemma expire_receivingE:
  obtains (diverted) st where "r_open_header_block (c_recv c) = Some sid" "\<not> r_discarding_header_block (c_recv c)"
      "get_stream c sid = Some st" "snd (expire_receiving sid c) = teardown_receiving sid (block_diverted sid st c)"
  | (dropped) "r_open_header_block (c_recv c) = Some sid \<Longrightarrow> \<not> r_discarding_header_block (c_recv c) \<Longrightarrow> get_stream c sid = None"
      "snd (expire_receiving sid c) = teardown_receiving sid c"
  by (cases "r_open_header_block (c_recv c) = Some sid \<and> \<not> r_discarding_header_block (c_recv c)"; cases "get_stream c sid")
    (auto simp: expire_receiving_def block_diverted_def Let_def)

lemma evo_expire: "evo c (snd (expire_receiving sid c))"
proof (cases rule: expire_receivingE [of c sid])
  case (diverted st)
  have "evo c (block_diverted sid st c)"
    unfolding block_diverted_def
    by (rule evo_trans [OF evo_put [OF get_stream_ids [OF diverted(3)]] evo_map_recv]) simp_all
  then show ?thesis using diverted evo_trans [OF _ evo_teardown] by simp
qed simp

lemma evo_expire_stream [simp]: "evo c (expire_stream sid c)"
  unfolding expire_stream_def using evo_expire [of c sid] evo_trans [OF _ evo_out] by (auto split: prod.split)

lemma acct_expire_stream: "acct_inv others c \<Longrightarrow> acct_inv others (expire_stream sid c)"
  unfolding expire_stream_def using acct_expire [of others c sid] by (auto split: prod.split)

lemma awaiting_teardown: "awaiting c - {sid} \<subseteq> awaiting (teardown_receiving sid c)"
proof -
  have "discarding_ids (c_recv (teardown_receiving sid c)) = discarding_ids (c_recv c)"
    using teardown_only_drops [of sid c] by (intro discarding_core) (simp add: only_drops_def)
  moreover have "stream_ids (teardown_receiving sid c) = stream_ids c - {sid}"
      "c_inflight_sids (teardown_receiving sid c) = c_inflight_sids c"
    by (simp_all add: teardown_receiving_def Let_def)
  ultimately show ?thesis by (auto simp: awaiting_def)
qed

lemma awaiting_expire_stream: "awaiting c - {sid} \<subseteq> awaiting (expire_stream sid c)"
proof -
  have "awaiting (expire_stream sid c) = awaiting (snd (expire_receiving sid c))"
    by (auto simp: expire_stream_def split: prod.split)
  moreover have "awaiting c - {sid} \<subseteq> awaiting (snd (expire_receiving sid c))"
  proof (cases rule: expire_receivingE [of c sid])
    case (diverted st)
    have "awaiting c - {sid} \<subseteq> awaiting (block_diverted sid st c)"
      using diverted(2) by (auto simp: block_diverted_def awaiting_def discarding_ids_def)
    then show ?thesis using diverted(4) awaiting_teardown [of "block_diverted sid st c" sid] by auto
  next
    case dropped
    then show ?thesis using awaiting_teardown [of c sid] by simp
  qed
  ultimately show ?thesis by simp
qed

lemma proto_drop:
  assumes "proto_inv c" "only_drops sid c d"
    and "r_open_header_block (c_recv c) = Some sid \<Longrightarrow> \<not> r_discarding_header_block (c_recv c) \<Longrightarrow> get_stream c sid = None"
  shows "proto_inv d"
proof -
  have core: "recv_core (c_recv d) = recv_core (c_recv c)" and str: "c_streams d = AList.delete sid (c_streams c)"
    using assms(2) by (simp_all add: only_drops_def)
  have base: "base_inv d" using only_drops_base [OF assms(2)] assms(1) by (simp add: proto_inv_def)
  have set: "settled_except X d" if "settled_except X c" for X
    using only_drops_settled [OF assms(2) that] by (auto intro: settled_mono)
  have get: "get_stream d s = (if s = sid then None else get_stream c s)" for s
    by (simp add: get_stream_def str delete_conv')
  show ?thesis
    using assms(1,3) base set unfolding proto_inv_def recv_core_eqD(3,4) [OF core] get
    by (auto split: option.splits if_splits)
qed

lemma proto_divert:
  assumes "proto_inv c" "r_open_header_block (c_recv c) = Some sid" "\<not> r_discarding_header_block (c_recv c)"
    "get_stream c sid = Some st"
  shows "proto_inv (teardown_receiving sid (block_diverted sid st c))"
proof -
  let ?d = "block_diverted sid st c" and ?e = "teardown_receiving sid (block_diverted sid st c)"
  have inv: "base_inv c" "settled_except {sid} c" "open_stream_ok st"
    using assms by (auto simp: proto_inv_def)
  have "base_inv (put_stream sid (st\<lparr>st_header_block := []\<rparr>) c)"
    using base_stream [OF inv(1) assms(4)] by (intro base_put [OF inv(1)]) (simp add: stream_base_def)
  then have "base_inv ?d"
    using inv(3) by (auto simp: block_diverted_def base_inv_def recv_base_def stream_base_def open_stream_ok_def)
  then have base: "base_inv ?e" by (rule only_drops_base [OF teardown_only_drops])
  have "settled_except {sid} ?d" using inv(2) by (auto simp: block_diverted_def intro: settled_put)
  then have set: "settled_except {} ?e" using only_drops_settled [OF teardown_only_drops, of "{sid}" ?d sid] by simp
  have core: "recv_core (c_recv ?e) = recv_core (c_recv ?d)" using teardown_only_drops [of sid ?d] by (simp add: only_drops_def)
  have none: "get_stream ?e sid = None"
    using teardown_only_drops [of sid ?d] by (simp add: only_drops_def get_stream_def delete_conv')
  show ?thesis
    unfolding proto_inv_def recv_core_eqD(3,4) [OF core]
    using base set none assms(2) by (simp add: block_diverted_def)
qed

lemma proto_expire_stream: "proto_inv c \<Longrightarrow> proto_inv (expire_stream sid c)"
proof -
  assume inv: "proto_inv c"
  have "proto_inv (snd (expire_receiving sid c))"
  proof (cases rule: expire_receivingE [of c sid])
    case (diverted st)
    then show ?thesis using proto_divert [OF inv] by simp
  next
    case dropped
    then show ?thesis using proto_drop [OF inv teardown_only_drops [of sid c]] by simp
  qed
  then show ?thesis
    by (auto simp: expire_stream_def same_protoD(4) [OF same_proto_out] split: prod.split)
qed

lemma server_expire:
  assumes "server_inv sv" "sid \<notin> fst ` set (sv_pending_window sv)"
  shows "server_inv (on_conn (expire_stream sid) sv)"
proof -
  have core: "core_inv (on_conn (expire_stream sid) sv)"
    using server_core [OF assms(1)] by (rule core_on_conn) (simp_all add: acct_expire_stream)
  have "live_inv (on_conn (expire_stream sid) sv)" if "live_inv sv"
    using that awaiting_expire_stream [of "conn_view sv" sid] proto_expire_stream [of "conn_view sv" sid] assms(2)
    by (auto simp: live_inv_def on_conn_def conn_view_def)
  then show ?thesis using core assms(1) by (simp add: server_inv_def on_conn_def)
qed

lemma server_forget: "server_inv sv \<Longrightarrow> server_inv (forget_window sid sv)"
  using core_forget [of sv sid] by (auto simp: server_inv_def live_inv_def keys_delete)

lemma expire_bodies_inv: "server_inv sv \<Longrightarrow> server_inv (expire_bodies now sv)"
proof -
  have "server_inv (fold (\<lambda>sid sv. on_conn (expire_stream sid) (forget_window sid sv)) sids sv)" if "server_inv sv" for sids sv
    using that by (induction sids arbitrary: sv) (simp_all add: server_expire server_forget keys_delete)
  then show "server_inv sv \<Longrightarrow> server_inv (expire_bodies now sv)" by (simp add: expire_bodies_def)
qed

subsection \<open>Handlers, pulls and the pass\<close>

lemma inflight_held_delete:
  "map_of fs sid = Some (is_head, req) \<Longrightarrow> distinct (map fst fs) \<Longrightarrow>
     inflight_held (AList.delete sid fs) + lease_of (rq_body_lease req) = inflight_held fs"
proof (induction fs)
  case (Cons f fs)
  then show ?case by (cases f) (auto simp: inflight_held_def delete_absent map_of_eq_None_iff split: if_splits)
qed simp

text \<open>The connection after the handler of \<open>sid\<close> has left \<open>inflight\<close>.\<close>

definition without_handler :: "u32 \<Rightarrow> 'h conn \<Rightarrow> 'h conn" where
  "without_handler sid c =
     c\<lparr>c_inflight := AList.delete sid (c_inflight c), c_inflight_sids := c_inflight_sids c - {sid},
       c_cancelled := c_cancelled c - {sid}\<rparr>"

lemma without_handler_facts:
  assumes "ids_ok c"
  shows "ids_ok (without_handler sid c)" "stream_ids (without_handler sid c) = stream_ids c"
    "dispatched (without_handler sid c) = dispatched c - {sid}" "last_id (without_handler sid c) = last_id c"
    "sid \<in> dispatched c \<Longrightarrow> awaiting c - {sid} \<subseteq> awaiting (without_handler sid c)"
    "sid \<notin> c_inflight_sids c \<Longrightarrow> awaiting (without_handler sid c) = awaiting c"
proof -
  show d: "dispatched (without_handler sid c) = dispatched c - {sid}"
    by (simp add: dispatched_def without_handler_def keys_delete)
  show s: "stream_ids (without_handler sid c) = stream_ids c" and l: "last_id (without_handler sid c) = last_id c"
    by (simp_all add: stream_ids_def without_handler_def)
  show "ids_ok (without_handler sid c)"
    using assms unfolding ids_ok_def s d l by (auto simp: without_handler_def distinct_delete)
  show "awaiting c - {sid} \<subseteq> awaiting (without_handler sid c)"
    unfolding awaiting_def s by (auto simp: without_handler_def)
  show "awaiting (without_handler sid c) = awaiting c" if "sid \<notin> c_inflight_sids c"
    using that unfolding awaiting_def s by (auto simp: without_handler_def)
qed

lemma proto_without_handler: "proto_inv c \<Longrightarrow> proto_inv (without_handler sid c)"
proof -
  assume inv: "proto_inv c"
  then have "base_inv (without_handler sid c)"
    by (fastforce simp: proto_inv_def base_inv_def without_handler_def stream_base_def)
  then show ?thesis by (rule proto_transfer [OF inv]) (simp_all add: without_handler_def)
qed

lemma acct_without_handler:
  assumes "acct_inv others c" "ids_ok c" "map_of (c_inflight c) sid = Some (is_head, req)"
  shows "acct_inv (others + lease_of (rq_body_lease req)) (without_handler sid c)"
proof -
  have "inflight_held (AList.delete sid (c_inflight c)) + lease_of (rq_body_lease req) = inflight_held (c_inflight c)"
    using assms(2,3) by (intro inflight_held_delete) (auto simp: ids_ok_def)
  then have "others + lease_of (rq_body_lease req) + x + inflight_held (AList.delete sid (c_inflight c)) =
      others + x + inflight_held (c_inflight c)" for x by simp
  note eq = this
  have f: "c_inflight (without_handler sid c) = AList.delete sid (c_inflight c)" "c_streams (without_handler sid c) = c_streams c"
      "c_recv (without_handler sid c) = c_recv c" "c_body_budget (without_handler sid c) = c_body_budget c"
    by (simp_all add: without_handler_def)
  show ?thesis using assms(1) unfolding acct_inv_def f eq .
qed

lemma next_handler_result:
  assumes "ids_ok (sv_conn sv)" "map_of (c_inflight (sv_conn sv)) sid = Some (is_head, req)"
  defines "sv1 \<equiv> sv\<lparr>sv_others := sv_others sv + lease_of (rq_body_lease req), sv_conn := without_handler sid (sv_conn sv)\<rparr>"
  shows "next_handler lib exact (sid, resp) sv =
     (if sid \<in> c_inflight_sids (sv_conn sv) then start_response lib exact sid is_head resp sv1 else sv1)"
proof -
  have "sid \<notin> c_cancelled (sv_conn sv)" if "sid \<in> c_inflight_sids (sv_conn sv)"
    using assms(1) that by (auto simp: ids_ok_def)
  then show ?thesis
    using assms(2) by (simp add: next_handler_def handler_yielded_def Let_def sv1_def without_handler_def)
qed

lemma server_start_response:
  assumes "core_inv sv" "sv_reading sv \<Longrightarrow> proto_inv (sv_conn sv)"
    "sv_reading sv \<Longrightarrow> fst ` set (sv_pending_window sv) - {sid} \<subseteq> awaiting (sv_conn sv)"
    and new: "sid \<notin> send_ids (sv_send sv)" "sid \<le> last_id (sv_conn sv)" "sid \<notin> stream_ids (sv_conn sv)"
      "sid \<notin> dispatched (sv_conn sv)"
  shows "server_inv (start_response lib exact sid is_head resp sv)"
proof -
  let ?c = "sv_conn sv"
  obtain enc memo pw s where b: "begin_response lib exact sid is_head resp (c_peer ?c) (c_enc ?c, c_memo ?c)
      (sv_pending_window sv) (sv_send sv) = ((enc, memo), pw, s)" by (metis prod_cases3 surj_pair)
  have "send_inv (sv_send sv)" using assms(1) by (simp add: core_inv_def)
  note br = begin_response_inv [OF b this new(1)]
  let ?d = "?c\<lparr>c_enc := enc, c_memo := memo\<rparr>"
  have d: "acct_inv n ?d = acct_inv n ?c" "ids_ok ?d = ids_ok ?c" "proto_inv ?d = proto_inv ?c" "awaiting ?d = awaiting ?c"
      "stream_ids ?d = stream_ids ?c" "dispatched ?d = dispatched ?c" for n
    using same_protoD(4) [of ?c ?d]
    by (simp_all add: same_proto_def ids_ok_def stream_ids_def dispatched_def awaiting_def)
  have "linked ?d s"
    using assms(1) br(2) new(2-4) unfolding linked_def d by (auto simp: core_inv_def linked_def)
  moreover have "distinct (map fst pw)" "length pw \<le> PENDING_WINDOW_CAP"
    using assms(1) br(3) length_delete_le [of sid "sv_pending_window sv"] by (auto simp: core_inv_def intro: distinct_delete)
  ultimately show ?thesis
    using assms(1-3) br d b unfolding start_response_def Let_def server_inv_def core_inv_def live_inv_def
    by (simp add: keys_delete)
qed

lemma server_without_handler:
  assumes inv: "server_inv sv" and h: "map_of (c_inflight (sv_conn sv)) sid = Some (is_head, req)"
  defines "sv1 \<equiv> sv\<lparr>sv_others := sv_others sv + lease_of (rq_body_lease req), sv_conn := without_handler sid (sv_conn sv)\<rparr>"
  shows "core_inv sv1" "sv_reading sv \<Longrightarrow> proto_inv (sv_conn sv1)"
    "sv_reading sv \<Longrightarrow> fst ` set (sv_pending_window sv) - {sid} \<subseteq> awaiting (sv_conn sv1)"
    "sv_reading sv \<Longrightarrow> sid \<notin> c_inflight_sids (sv_conn sv) \<Longrightarrow> fst ` set (sv_pending_window sv) \<subseteq> awaiting (sv_conn sv1)"
    "sid \<notin> send_ids (sv_send sv)" "sid \<le> last_id (sv_conn sv1)" "sid \<notin> stream_ids (sv_conn sv1)"
    "sid \<notin> dispatched (sv_conn sv1)"
proof -
  let ?c = "sv_conn sv"
  have ids: "ids_ok ?c" and link: "linked ?c (sv_send sv)" using inv by (simp_all add: server_inv_def core_inv_def)
  note f = without_handler_facts [OF ids, of sid]
  have disp: "sid \<in> dispatched ?c" using h by (force simp: dispatched_def dest: map_of_SomeD)
  then show "sid \<notin> send_ids (sv_send sv)" using link by (auto simp: linked_def)
  show "sid \<le> last_id (sv_conn sv1)" "sid \<notin> stream_ids (sv_conn sv1)" "sid \<notin> dispatched (sv_conn sv1)"
    using disp ids f by (auto simp: sv1_def ids_ok_def)
  have "linked (without_handler sid ?c) (sv_send sv)" using link f by (simp add: linked_def)
  then show "core_inv sv1"
    using inv f(1) acct_without_handler [OF _ ids h] by (simp add: server_inv_def core_inv_def sv1_def)
  assume r: "sv_reading sv"
  then have live: "proto_inv ?c" "fst ` set (sv_pending_window sv) \<subseteq> awaiting ?c"
    using inv by (simp_all add: server_inv_def live_inv_def)
  show "proto_inv (sv_conn sv1)" using proto_without_handler [OF live(1)] by (simp add: sv1_def)
  show "fst ` set (sv_pending_window sv) - {sid} \<subseteq> awaiting (sv_conn sv1)"
    using f(5) [OF disp] live(2) by (simp add: sv1_def) (meson Diff_mono order_refl order_trans)
  show "fst ` set (sv_pending_window sv) \<subseteq> awaiting (sv_conn sv1)" if "sid \<notin> c_inflight_sids ?c"
    using f(6) [OF that] live(2) by (simp add: sv1_def)
qed

lemma next_handler_inv: "server_inv sv \<Longrightarrow> server_inv (next_handler lib exact ready sv)"
proof -
  assume inv: "server_inv sv"
  obtain sid resp where ready: "ready = (sid, resp)" by (metis surj_pair)
  show ?thesis
  proof (cases "map_of (c_inflight (sv_conn sv)) sid")
    case None
    then show ?thesis using inv by (simp add: next_handler_def ready)
  next
    case (Some hr)
    obtain is_head req where hr: "hr = (is_head, req)" by (metis surj_pair)
    note h = Some [unfolded hr]
    define sv1 where "sv1 = sv\<lparr>sv_others := sv_others sv + lease_of (rq_body_lease req), sv_conn := without_handler sid (sv_conn sv)\<rparr>"
    note w = server_without_handler [OF inv h, folded sv1_def]
    have sv1: "sv_reading sv1 = sv_reading sv" "sv_send sv1 = sv_send sv" "sv_pending_window sv1 = sv_pending_window sv"
      by (simp_all add: sv1_def)
    have "server_inv sv1" if "sid \<notin> c_inflight_sids (sv_conn sv)"
      using w that by (simp add: server_inv_def live_inv_def sv1)
    moreover have "server_inv (start_response lib exact sid is_head resp sv1)"
      by (rule server_start_response) (use w in \<open>simp_all add: sv1\<close>)
    ultimately show ?thesis
      using next_handler_result [OF _ h, folded sv1_def] inv ready by (simp add: server_inv_def core_inv_def)
  qed
qed

lemma server_same:
  "server_inv sv \<Longrightarrow> sv_conn sv' = sv_conn sv \<Longrightarrow> sv_send sv' = sv_send sv \<Longrightarrow> sv_others sv' = sv_others sv \<Longrightarrow>
     sv_pending_window sv' = sv_pending_window sv \<Longrightarrow> (sv_reading sv' \<Longrightarrow> sv_reading sv) \<Longrightarrow> server_inv sv'"
  using core_same [of sv' sv] by (auto simp: server_inv_def)

lemma next_pull_inv: "server_inv sv \<Longrightarrow> server_inv (next_pull ready sv)"
proof -
  assume inv: "server_inv sv"
  have idle: "server_inv (sv\<lparr>sv_drain_idle := x\<rparr>)" for x by (rule server_same [OF inv]) simp_all
  obtain sid body res where ready: "ready = (sid, body, res)" by (metis prod_cases3)
  show ?thesis
    unfolding next_pull_def ready prod.case
    by (simp add: inv) (intro impI server_send [OF idle], simp add: sends_apply_pull)
qed

lemma fold_inv: "server_inv sv \<Longrightarrow> (\<And>x sv. server_inv sv \<Longrightarrow> server_inv (f x sv)) \<Longrightarrow> server_inv (fold f xs sv)"
  by (induction xs arbitrary: sv) simp_all

lemma reset_responses_inv:
  assumes "server_inv sv" "reset_responses cfg now sv = (stall, idle, sv')"
  shows "server_inv sv'"
proof -
  obtain stall' s1 where r: "reset_stalled_streams now (cfg_send_stall_timeout cfg) (sv_send sv) = (stall', s1)"
    by (metis surj_pair)
  have s1: "sends (sv_send sv) s1" using sends_stalled [of "sv_send sv" now "cfg_send_stall_timeout cfg"] r by simp
  have put: "server_inv (sv\<lparr>sv_send := s\<rparr>)" if "sends (sv_send sv) s" for s
    using server_send [of sv "\<lambda>_. s"] assms(1) that by (simp add: on_send_def)
  show ?thesis
  proof (cases "cfg_shutdown_idle_stream_timeout cfg \<noteq> None \<and> sv_shutdown_drain sv")
    case True
    then obtain grace where g: "cfg_shutdown_idle_stream_timeout cfg = Some grace" by auto
    obtain d i s2 where d: "reset_drain_idle_streams now grace (sv_drain_idle sv) s1 = (d, i, s2)" by (metis prod_cases3)
    have "sends s1 s2" using sends_drain_idle [of s1 now grace "sv_drain_idle sv"] d by simp
    then have "server_inv (sv\<lparr>sv_send := s2\<rparr>)" using put sends_trans [OF s1] by blast
    moreover have "sv' = sv\<lparr>sv_send := s2, sv_drain_idle := i\<rparr>"
      using assms(2) r g d True by (simp add: reset_responses_def)
    ultimately show ?thesis by (auto intro: server_same)
  next
    case False
    then have "sv' = sv\<lparr>sv_send := s1\<rparr>"
      using assms(2) r by (auto simp: reset_responses_def split: option.splits bool.splits)
    then show ?thesis using put s1 by simp
  qed
qed

lemma check_header_block_inv: "server_inv sv \<Longrightarrow> server_inv (check_header_block now sv)"
  by (simp add: check_header_block_def server_fail server_core)

lemma partial_deadline_inv:
  assumes "server_inv sv"
  shows "server_inv (partial_deadline cfg now completed sv)"
  by (rule server_same [OF assms]) (simp_all add: partial_deadline_def split: if_splits)

lemma serve_pass_inv:
  assumes "server_inv sv" "serve_pass lib exact cfg now handlers chunks sv = (stall, idle, sv')"
  shows "server_inv sv'"
proof -
  define sv1 where "sv1 = (case cfg_conn_idle_timeout cfg of None \<Rightarrow> sv | Some d \<Rightarrow> sv\<lparr>sv_idle_at := now + d\<rparr>)"
  have "server_inv sv1" by (rule server_same [OF assms(1)]) (simp_all add: sv1_def split: option.splits)
  moreover obtain completed sv2 where d: "drain_frames lib cfg now (False, sv1) = (completed, sv2)" by (metis surj_pair)
  ultimately have i2: "server_inv sv2" using drain_frames_inv [of sv1 lib cfg now False] by simp
  define sv6 where "sv6 = fold next_pull chunks (fold (next_handler lib exact) handlers
      (expire_bodies now (body_deadlines cfg now (check_header_block now (partial_deadline cfg now completed sv2)))))"
  have "server_inv sv6"
    unfolding sv6_def
    by (intro fold_inv expire_bodies_inv body_deadlines_inv check_header_block_inv partial_deadline_inv i2
        next_handler_inv next_pull_inv)
  then have "server_inv (on_send (pump_streams now (c_peer (sv_conn sv6))) sv6)" by (rule server_send) simp
  moreover have "reset_responses cfg now (on_send (pump_streams now (c_peer (sv_conn sv6))) sv6) = (stall, idle, sv')"
    using assms(2) d by (simp add: serve_pass_def Let_def sv1_def sv6_def)
  ultimately show ?thesis by (rule reset_responses_inv)
qed

lemma flushed_inv: "server_inv sv \<Longrightarrow> server_inv (flushed sv)" "server_inv sv \<Longrightarrow> server_inv (flush_failed sv)"
proof -
  assume inv: "server_inv sv"
  have put: "server_inv (sv\<lparr>sv_send := s\<rparr>)" if "sends (sv_send sv) s" for s
    using server_send [of sv "\<lambda>_. s"] inv that by (simp add: on_send_def)
  have "sends (sv_send sv) ((sv_send sv)\<lparr>sd_out := x, sd_completions := y, sd_ends := z\<rparr>)" for x y z
    by (rule sends_same) simp_all
  from put [OF this] show "server_inv (flushed sv)"
    unfolding flushed_def Let_def by (rule server_same) simp_all
  show "server_inv (flush_failed sv)"
    unfolding flush_failed_def by (rule server_send [OF inv]) (rule sends_same, simp_all)
qed

subsection \<open>Events\<close>

lemma acct_abort_one: "acct_inv others c \<Longrightarrow> acct_inv others (abort_one sid c)"
  by (simp add: abort_one_def Let_def)

lemma evo_abort_one: "sid \<in> c_inflight_sids c \<Longrightarrow> evo c (abort_one sid c)"
  by (rule evo_quiet) (auto simp: abort_one_def Let_def stream_ids_def)

lemma evo_abort_fold: "distinct sids \<Longrightarrow> set sids \<subseteq> c_inflight_sids c \<Longrightarrow> evo c (fold abort_one sids c)"
proof (induction sids arbitrary: c)
  case (Cons sid sids)
  have "c_inflight_sids (abort_one sid c) = c_inflight_sids c - {sid}" by (simp add: abort_one_def Let_def)
  then have "evo (abort_one sid c) (fold abort_one sids (abort_one sid c))"
    using Cons.prems by (intro Cons.IH) auto
  then show ?case using evo_trans [OF evo_abort_one [of sid c]] Cons.prems(2) by auto
qed simp

lemma acct_abort_fold: "acct_inv others c \<Longrightarrow> acct_inv others (fold abort_one sids c)"
  by (induction sids arbitrary: c) (simp_all add: acct_abort_one)

lemma core_abort_all: "core_inv sv \<Longrightarrow> core_inv (on_conn abort_all sv)"
proof -
  assume core: "core_inv sv"
  let ?c = "conn_view sv"
  have a: "acct_inv (sv_others sv) ?c" and i: "ids_ok ?c" using core by (simp_all add: core_inv_def conn_view_def)
  have "acct_inv (sv_others sv) (abort_all ?c) \<and> evo ?c (abort_all ?c)"
    unfolding abort_all_def using i by (intro conjI acct_abort_fold [OF a] evo_abort_fold) (auto simp: ids_ok_def)
  then show ?thesis unfolding on_conn_def by (intro core_put_conn [OF core]) (simp_all add: evo_view)
qed

lemma core_abandon_drain: "core_inv sv \<Longrightarrow> core_inv (abandon_drain sv)"
proof -
  assume core: "core_inv sv"
  have ex: "core_inv (on_conn (expire_stream sid) sv)" if "core_inv sv" for sid and sv :: "('a, 'b, 'c) server"
    by (rule core_on_conn [OF that]) (simp_all add: acct_expire_stream)
  have "core_inv (fold (\<lambda>sid. on_conn (expire_stream sid)) sids sv)" for sids
    using core by (induction sids arbitrary: sv) (simp_all add: ex)
  then have "core_inv (on_conn abort_all (fold (\<lambda>sid. on_conn (expire_stream sid)) sids sv))" for sids
    by (rule core_abort_all)
  moreover have "sends s (fold reset_cancel sids s)" for sids and s :: "('x, 'y) sender" by (rule sends_fold) simp
  ultimately have "core_inv (on_send (fold reset_cancel sids') (on_conn abort_all (fold (\<lambda>sid. on_conn (expire_stream sid)) sids sv)))"
    for sids sids' using core_send(1) by blast
  moreover have "core_inv (sv\<lparr>sv_pending_window := []\<rparr>)" if "core_inv sv" for sv :: "('a, 'b, 'c) server"
    using that by (simp add: core_inv_def)
  ultimately show ?thesis unfolding abandon_drain_def Let_def by (intro core_goaway) blast
qed

lemma serve_event_inv:
  assumes "server_inv sv" "serve_event lib exact cfg now ev sv = Some sv'"
  shows "server_inv sv'"
proof (cases ev)
  case Shutdown
  have sd: "server_inv (sv\<lparr>sv_shutdown_drain := True\<rparr>)" by (rule server_same [OF assms(1)]) simp_all
  show ?thesis
  proof (cases "sv_reading sv \<and> sv_accepting sv")
    case True
    then have "sv' = (send_goaway err_NO_ERROR (sv\<lparr>sv_shutdown_drain := True\<rparr>))\<lparr>sv_accepting := False, sv_draining := True,
        sv_drain_at := now + cfg_goaway_drain_timeout cfg\<rparr>"
      using assms(2) Shutdown by (simp add: serve_event_def)
    then show ?thesis by (simp only:) (rule server_same [OF server_goaway [OF sd]], simp_all)
  next
    case False
    then show ?thesis using assms(2) Shutdown sd by (auto simp: serve_event_def Let_def)
  qed
next
  case (Received bytes)
  then show ?thesis using assms by (auto simp: serve_event_def server_inbuf)
qed (use assms in \<open>auto simp: serve_event_def next_handler_inv next_pull_inv core_stop server_core server_fail core_abandon_drain\<close>)

section \<open>The whole run\<close>

lemma others_step_ledger:
  assumes "others_step (b, others) (b', others')" "ledger_ok b (others + rest)"
  shows "ledger_ok b' (others' + rest)"
  using assms(1)
proof (cases rule: others_step.cases)
  case (others_reserve held n r held')
  have "ledger_ok b ((others - held + rest) + held)" using assms(2) others_reserve(2) by (simp add: ac_simps)
  then have "ledger_ok b' ((others - held + rest) + held')" using lease_reserve_ledger [OF _ others_reserve(3)] by blast
  moreover have "others' + rest = (others - held + rest) + held'" using others_reserve(1) by simp
  ultimately show ?thesis by (simp only:)
next
  case (others_release held n held')
  have "ledger_ok b ((others - held + rest) + held)" using assms(2) others_release(2) by (simp add: ac_simps)
  then have "ledger_ok b' ((others - held + rest) + held')" using lease_release_ledger [OF _ others_release(3)] by blast
  moreover have "others' + rest = (others - held + rest) + held'" using others_release(1) by simp
  ultimately show ?thesis by (simp only:)
next
  case (others_drop held)
  have "ledger_ok b ((others - held + rest) + held)" using assms(2) others_drop(3) by (simp add: ac_simps)
  from lease_drop_ledger [OF this] show ?thesis using others_drop by simp
qed

lemma others_step_inv:
  assumes "server_inv sv" "c_body_budget (sv_conn sv) = Some b" "others_step (b, sv_others sv) (b', others')"
  shows "server_inv (sv\<lparr>sv_conn := (sv_conn sv)\<lparr>c_body_budget := Some b'\<rparr>, sv_others := others'\<rparr>)"
proof -
  let ?c = "sv_conn sv" and ?d = "(sv_conn sv)\<lparr>c_body_budget := Some b'\<rparr>"
  have acct: "acct_inv (sv_others sv) ?c" using assms(1) by (simp add: server_inv_def core_inv_def)
  then have "ledger_ok b (sv_others sv + (sum_streams (\<lambda>st. lease_of (st_body_lease st)) (c_streams ?c) + inflight_held (c_inflight ?c)))"
    using assms(2) by (simp add: acct_inv_def ac_simps)
  from others_step_ledger [OF assms(3) this] have "acct_inv others' ?d"
    using acct assms(2) by (simp add: acct_inv_def lease_exact_def ac_simps)
  moreover have "ids_ok ?d = ids_ok ?c" "linked ?d s = linked ?c s" for s :: "('b stream_source, 'c) sender"
    by (simp_all add: ids_ok_def dispatched_def linked_def)
  moreover have "proto_inv ?d = proto_inv ?c" by (rule same_protoD(4)) (simp add: same_proto_def)
  ultimately show ?thesis using assms(1) by (simp add: server_inv_def core_inv_def live_inv_def)
qed

lemma serve_step_inv: "serve_step lib exact cfg (ph, t, sv) (ph', t', sv') \<Longrightarrow> server_inv sv \<Longrightarrow> server_inv sv'"
  by (erule serve_step.cases) (auto intro: serve_pass_inv flushed_inv serve_event_inv others_step_inv)

lemma server_start_inv:
  assumes "config_ok others cfg"
  shows "server_inv (server_start cfg memo others t)"
proof -
  have "conn_inv others (conn_start cfg memo)" by (rule conn_start_inv [OF assms])
  then show ?thesis
    by (simp add: server_inv_def core_inv_def live_inv_def server_start_def conn_inv_def sender_start_def send_inv_def
        sender_ok_def out_ok_def pulls_ok_def get_out_def linked_def send_ids_def ids_ok_def stream_ids_def dispatched_def)
      (simp add: conn_start_def)
qed

lemma serve_reach_inv:
  assumes "config_ok others cfg" "serve_reach lib exact cfg memo others (ph, t, sv)"
  shows "server_inv sv"
proof -
  obtain t0 where "(serve_step lib exact cfg)\<^sup>*\<^sup>* (Preface [], t0, server_start cfg memo others t0) (ph, t, sv)"
    using assms(2) by (auto simp: serve_reach_def)
  then show ?thesis
  proof (induction "(ph, t, sv)" arbitrary: ph t sv rule: rtranclp_induct)
    case base
    then show ?case by (simp add: server_start_inv [OF assms(1)])
  next
    case (step s)
    then show ?case by (cases s) (auto intro: serve_step_inv)
  qed
qed

end
