(* ===== verification/H2_Serve_Run.thy ===== *)
theory H2_Serve_Run
  imports H2_Serve_Inv
begin

text \<open>
  What holds of a whole run of a connection: the invariant, spelled out; that a stream id is used once,
  from its request to the end of its response; and that the loop over the frames ends and does not
  depend on how the socket delivers them.
\<close>

section \<open>A stream id is used once\<close>

definition known :: "('h, 'b, 'k) server \<Rightarrow> bool" where
  "known sv \<longleftrightarrow> ids_ok (sv_conn sv) \<and> send_inv (sv_send sv) \<and> linked (sv_conn sv) (sv_send sv)"

text \<open>An id that was seen goes one way: from the table of streams to a running handler, to a response,
  to nothing.\<close>

definition one_way :: "('h, 'b, 'k) server \<Rightarrow> ('h, 'b, 'k) server \<Rightarrow> bool" where
  "one_way sv sv' \<longleftrightarrow>
     last_id (sv_conn sv) \<le> last_id (sv_conn sv') \<and> goaway_mono (c_recv (sv_conn sv)) (c_recv (sv_conn sv')) \<and>
     (\<forall>i \<le> last_id (sv_conn sv).
        (i \<notin> stream_ids (sv_conn sv) \<longrightarrow> i \<notin> stream_ids (sv_conn sv')) \<and>
        (i \<notin> stream_ids (sv_conn sv) \<union> dispatched (sv_conn sv) \<longrightarrow> i \<notin> dispatched (sv_conn sv')) \<and>
        (i \<notin> stream_ids (sv_conn sv) \<union> dispatched (sv_conn sv) \<union> send_ids (sv_send sv) \<longrightarrow> i \<notin> send_ids (sv_send sv')))"

definition later :: "('h, 'b, 'k) server \<Rightarrow> ('h, 'b, 'k) server \<Rightarrow> bool" where
  "later sv sv' \<longleftrightarrow> (known sv \<longrightarrow> known sv' \<and> one_way sv sv')"

lemma one_way_trans: "one_way a b \<Longrightarrow> one_way b c \<Longrightarrow> one_way a c"
  unfolding one_way_def by (auto intro: goaway_mono_trans order_trans)

lemma later_refl [simp]: "later sv sv"
  by (simp add: later_def one_way_def)

lemma later_trans: "later a b \<Longrightarrow> later b c \<Longrightarrow> later a c"
  unfolding later_def using one_way_trans by blast

lemma later_fold: "(\<And>x sv. later sv (f x sv)) \<Longrightarrow> later sv (fold f xs sv)"
  by (induction xs arbitrary: sv) (auto intro: later_trans)

lemma known_fields:
  "sv_conn sv' = sv_conn sv \<Longrightarrow> sv_send sv' = sv_send sv \<Longrightarrow> known sv' = known sv"
  by (simp add: known_def)

lemma later_same: "sv_conn sv' = sv_conn sv \<Longrightarrow> sv_send sv' = sv_send sv \<Longrightarrow> later sv sv'"
  by (simp add: later_def one_way_def known_def)

lemma later_put_conn:
  assumes "evo (sv_conn sv) c"
  shows "later sv (put_conn c sv)"
proof (cases "known sv")
  case True
  then have ok: "ids_ok (sv_conn sv)" "linked (sv_conn sv) (sv_send sv)" by (simp_all add: known_def)
  obtain new where e: "evolves (sv_conn sv) new c" "ids_ok c" using assms ok(1) by (auto simp: evo_def)
  have "linked c (sv_send sv)" by (rule linked_evolves [OF ok(2,1) e(1)])
  then have "known (put_conn c sv)" using True e(2) by (simp add: known_def linked_def)
  moreover have "dispatched c = dispatched (sv_conn sv) \<union> fst ` set new"
    using evolvesD(4) [OF e(1)] by (simp add: dispatched_def image_Un)
  moreover have "i \<notin> fst ` set new" if "i \<le> last_id (sv_conn sv)" "i \<notin> stream_ids (sv_conn sv)" for i
    using that subsetD [OF evolvesD(6) [OF e(1)], of i] by (meson UnE greaterThan_iff leD)
  moreover have "i \<notin> stream_ids c" if "i \<le> last_id (sv_conn sv)" "i \<notin> stream_ids (sv_conn sv)" for i
    using that subsetD [OF evolvesD(3) [OF e(1)], of i] by auto
  ultimately show ?thesis
    using evolvesD(1,2) [OF e(1)] by (simp add: later_def one_way_def)
qed (simp add: later_def)

lemma later_on_conn: "(\<And>c. evo c (f c)) \<Longrightarrow> later sv (on_conn f sv)"
  unfolding on_conn_def by (rule later_put_conn) (simp add: evo_view)

lemma later_send: "sends (sv_send sv) (f (sv_send sv)) \<Longrightarrow> later sv (on_send f sv)"
  by (auto simp: later_def known_def one_way_def sends_def linked_def)

lemma later_after: "later a b \<Longrightarrow> sv_conn c = sv_conn b \<Longrightarrow> sv_send c = sv_send b \<Longrightarrow> later a c"
  by (rule later_trans [OF _ later_same])

lemma later_goaway [simp]: "later sv (send_goaway code sv)"
  unfolding send_goaway_def by (rule later_on_conn) simp

lemma later_fail [simp]: "later sv (fail_with code sv)"
  unfolding fail_with_def by (rule later_after [OF later_goaway]) simp_all

lemma later_progressed [simp]: "later sv (progressed sv)"
  unfolding progressed_def by (rule later_on_conn) (rule evo_map_recv, simp_all)

lemma later_stop: "later a b \<Longrightarrow> later a (stop_reading b)"
  by (rule later_after) simp_all

section \<open>Each operation\<close>

lemma later_conn_credit: "later sv (snd (conn_credit increment sv))"
proof -
  have "later sv (on_send (\<lambda>s. s\<lparr>sd_send_conn := sd_send_conn s + int (unat increment)\<rparr>) sv)"
    by (rule later_send) (rule sends_same, simp_all)
  then show ?thesis
    by (simp add: conn_credit_def Let_def later_trans [OF _ later_fail] later_trans [OF _ later_progressed])
qed

lemma later_stream_credit:
  assumes "get_out (sv_send sv) sid = Some st"
  shows "later sv (stream_credit sid increment st sv)"
proof -
  have put: "later sv (on_send (put_out sid st') sv)" if "os_pulling st' = os_pulling st" for st'
    using assms that by (intro later_send sends_put_out)
  have rst: "later sv (on_send (\<lambda>s. put_out sid st' (out_write f s)) sv)" if "os_pulling st' = os_pulling st" for st' f
    using assms that by (intro later_send sends_trans [OF sends_out_write sends_put_out]) (simp_all add: out_write_def)
  show ?thesis
    by (simp add: stream_credit_def Let_def put rst later_trans [OF put later_progressed])
qed

lemma later_park_credit: "later sv (snd (park_credit now sid increment sv))"
proof (cases rule: park_credit_cases [of now sid increment sv])
  case (parked credit)
  then show ?thesis by (simp add: later_same)
next
  case (overflow sv')
  have "later (forget_window sid sv) sv'"
    unfolding overflow(1) by (rule later_put_conn) (subst evo_view, simp)
  then have "later sv sv'" by (rule later_trans [rotated]) (rule later_same, simp_all)
  then show ?thesis using overflow(2) later_stop by auto
qed simp

lemma later_shift: "later sv (snd (shift_windows delta sv))"
proof -
  let ?f = "\<lambda>s. s\<lparr>sd_outstreams := map (\<lambda>(sid, st). (sid, st\<lparr>os_window := os_window st + delta\<rparr>)) (sd_outstreams s)\<rparr>"
  have "later sv (on_send ?f sv)" by (rule later_send) (rule sends_shift)
  then show ?thesis by (simp add: shift_windows_def Let_def later_trans [OF _ later_fail])
qed

lemma later_outcome: "later sv (snd (handle_outcome cfg now out sv))"
proof (cases out)
  case (ResetStream sid)
  have "later sv (on_send (cancel_outstream sid) sv)" by (rule later_send) simp
  then have "later sv (forget_window sid (on_send (cancel_outstream sid) sv))" by (rule later_after) simp_all
  then show ?thesis using ResetStream by (simp add: handle_outcome_def)
next
  case PeerGoaway
  then show ?thesis by (simp add: handle_outcome_def later_same)
next
  case (WindowUpdate sid n)
  then show ?thesis
    by (simp add: handle_outcome_def later_conn_credit later_park_credit later_stream_credit split: option.split)
qed (simp_all add: handle_outcome_def later_stop later_shift)

lemma later_serve_frame: "later sv (snd (serve_frame lib cfg now hdr payload sv))"
proof -
  obtain out c where run: "process_frame lib now (length (sd_outstreams (sv_send sv))) (sv_accepting sv) hdr payload (conn_view sv) = (out, c)"
    by (metis surj_pair)
  have "evo (conn_view sv) c" unfolding evo_def using process_frame_evolves [OF _ run] by blast
  then have p: "later sv (put_conn c sv)" by (intro later_put_conn) (simp add: evo_view)
  have "later sv ((put_conn c sv)\<lparr>sv_header_block_deadline := x\<rparr>)" for x by (rule later_after [OF p]) simp_all
  then show ?thesis
    using run by (simp add: serve_frame_def Let_def later_trans [OF _ later_outcome])
qed

lemma later_drain_frames: "later sv (snd (drain_frames lib cfg now (completed, sv)))"
proof (induction lib cfg now "(completed, sv)" arbitrary: completed sv rule: drain_frames.induct)
  case (1 lib cfg now completed sv)
  show ?case
  proof (cases "sv_reading sv")
    case False
    then show ?thesis by (simp add: drain_frames.simps)
  next
    case True
    show ?thesis
    proof (cases "next_frame (frame_cap cfg) (sv_inbuf sv)")
      case (GotFrame hdr payload rest)
      obtain left sv' where f: "serve_frame lib cfg now hdr payload (sv\<lparr>sv_inbuf := rest\<rparr>) = (left, sv')"
        by (metis surj_pair)
      have "later (sv\<lparr>sv_inbuf := rest\<rparr>) sv'"
        using later_serve_frame [of "sv\<lparr>sv_inbuf := rest\<rparr>" lib cfg now hdr payload] f by simp
      then have "later sv sv'" by (rule later_trans [rotated]) (simp add: later_same)
      then show ?thesis
        using "1.hyps" [OF _ GotFrame f [symmetric]] True GotFrame f
        by (subst drain_frames.simps) (auto intro: later_trans)
    qed (use True in \<open>simp_all add: drain_frames.simps\<close>)
  qed
qed

lemma later_body_deadlines: "later sv (body_deadlines cfg now sv)"
proof (cases "cfg_request_body_timeout cfg")
  case (Some d)
  obtain streams progress where a: "advance_body_deadlines now d (cfg_request_body_ceiling cfg)
      (c_streams (sv_conn sv), sv_body_progress sv) = (streams, progress)" by (metis surj_pair)
  have same: "same_streams streams (c_streams (sv_conn sv))"
    using advance_same [of now d "cfg_request_body_ceiling cfg" "c_streams (sv_conn sv)" "sv_body_progress sv"] a by simp
  show ?thesis
    using Some a deadlines_conn(3,5) [OF same]
    by (simp add: body_deadlines_def later_def known_def one_way_def linked_def dispatched_def)
qed (simp add: body_deadlines_def)

lemma later_expire: "later sv (on_conn (expire_stream sid) (forget_window sid' sv))" "later sv (on_conn (expire_stream sid) sv)"
  by (rule later_trans [OF later_same later_on_conn], simp_all) (rule later_on_conn, simp)

lemma enc_fields:
  "ids_ok (c\<lparr>c_enc := e, c_memo := m\<rparr>) = ids_ok c" "stream_ids (c\<lparr>c_enc := e, c_memo := m\<rparr>) = stream_ids c"
  "dispatched (c\<lparr>c_enc := e, c_memo := m\<rparr>) = dispatched c"
  by (simp_all add: ids_ok_def stream_ids_def dispatched_def)

lemma later_next_handler: "later sv (next_handler lib exact ready sv)"
proof (cases "known sv")
  case True
  obtain sid resp where ready: "ready = (sid, resp)" by (metis surj_pair)
  let ?c = "sv_conn sv"
  have ids: "ids_ok ?c" and snd: "send_inv (sv_send sv)" and link: "linked ?c (sv_send sv)"
    using True by (simp_all add: known_def)
  note f = without_handler_facts [OF ids, of sid]
  show ?thesis
  proof (cases "map_of (c_inflight ?c) sid")
    case None
    then show ?thesis by (simp add: next_handler_def ready)
  next
    case (Some hr)
    obtain is_head req where hr: "hr = (is_head, req)" by (metis surj_pair)
    define sv1 where "sv1 = sv\<lparr>sv_others := sv_others sv + lease_of (rq_body_lease req), sv_conn := without_handler sid ?c\<rparr>"
    have run: "next_handler lib exact ready sv =
        (if sid \<in> c_inflight_sids ?c then start_response lib exact sid is_head resp sv1 else sv1)"
      using next_handler_result [OF ids Some [unfolded hr]] ready by (simp add: sv1_def)
    have disp: "sid \<in> dispatched ?c" using Some by (force simp: dispatched_def dest: map_of_SomeD)
    then have new: "sid \<notin> send_ids (sv_send sv)" "sid \<le> last_id ?c" "sid \<notin> stream_ids ?c"
      using link ids by (auto simp: linked_def ids_ok_def)
    have l1: "later sv sv1"
      using f link snd by (simp add: later_def known_def one_way_def sv1_def linked_def without_handler_def)
    obtain enc memo pw s where b: "begin_response lib exact sid is_head resp (c_peer (sv_conn sv1))
        (c_enc (sv_conn sv1), c_memo (sv_conn sv1)) (sv_pending_window sv1) (sv_send sv1) = ((enc, memo), pw, s)"
      by (metis prod_cases3 surj_pair)
    have "send_inv (sv_send sv1)" "sid \<notin> send_ids (sv_send sv1)" using snd new by (simp_all add: sv1_def)
    note br = begin_response_inv [OF b this]
    let ?sv2 = "start_response lib exact sid is_head resp sv1"
    have sv2: "sv_send ?sv2 = s" "sv_conn ?sv2 = (without_handler sid ?c)\<lparr>c_enc := enc, c_memo := memo\<rparr>"
      using b by (simp_all add: start_response_def Let_def sv1_def)
    have c2: "ids_ok (sv_conn ?sv2)" "stream_ids (sv_conn ?sv2) = stream_ids ?c" "last_id (sv_conn ?sv2) = last_id ?c"
        "dispatched (sv_conn ?sv2) = dispatched ?c - {sid}" "c_recv (sv_conn ?sv2) = c_recv ?c"
      using f unfolding sv2 by (simp_all add: enc_fields) (simp add: without_handler_def)
    have "linked (sv_conn ?sv2) s"
      unfolding linked_def c2 using br(2) link new by (auto simp: linked_def sv1_def)
    then have "later sv ?sv2"
      using c2 br disp unfolding later_def known_def one_way_def sv2(1) by (auto simp: sv1_def)
    then show ?thesis using run l1 by simp
  qed
qed (simp add: later_def)

lemma later_next_pull: "later sv (next_pull ready sv)"
proof -
  obtain sid body res where ready: "ready = (sid, body, res)" by (metis prod_cases3)
  have "later sv (on_send (\<lambda>s. apply_pull sid body res (s\<lparr>sd_pulls := AList.delete sid (sd_pulls s)\<rparr>))
      (sv\<lparr>sv_drain_idle := x\<rparr>))" for x
    by (rule later_trans [OF later_same later_send]) (simp_all add: sends_apply_pull)
  then show ?thesis by (simp add: next_pull_def ready)
qed

lemma later_put_send: "sends (sv_send sv) s \<Longrightarrow> sv_conn sv' = sv_conn sv \<Longrightarrow> sv_send sv' = s \<Longrightarrow> later sv sv'"
  using later_after [OF later_send [of sv "\<lambda>_. s"], of sv'] by simp

lemma later_reset_responses:
  assumes "reset_responses cfg now sv = (stall, idle, sv')"
  shows "later sv sv'"
proof -
  obtain stall' s1 where r: "reset_stalled_streams now (cfg_send_stall_timeout cfg) (sv_send sv) = (stall', s1)"
    by (metis surj_pair)
  have s1: "sends (sv_send sv) s1" using sends_stalled [of "sv_send sv" now "cfg_send_stall_timeout cfg"] r by simp
  have s2: "sends s1 s2" if "reset_drain_idle_streams now grace (sv_drain_idle sv) s1 = (d, i, s2)" for grace d i s2
    using sends_drain_idle [of s1 now grace "sv_drain_idle sv"] that by simp
  have "sv_conn sv' = sv_conn sv \<and> sends (sv_send sv) (sv_send sv')"
    using assms r s1 s2 sends_trans [OF s1]
    by (auto simp: reset_responses_def split: option.splits bool.splits prod.splits)
  then show ?thesis by (auto intro: later_put_send)
qed

lemma later_pass:
  assumes "serve_pass lib exact cfg now handlers chunks sv = (stall, idle, sv')"
  shows "later sv sv'"
proof -
  define sv1 where "sv1 = (case cfg_conn_idle_timeout cfg of None \<Rightarrow> sv | Some d \<Rightarrow> sv\<lparr>sv_idle_at := now + d\<rparr>)"
  have l1: "later sv sv1" by (rule later_same) (simp_all add: sv1_def split: option.split)
  obtain completed sv2 where d: "drain_frames lib cfg now (False, sv1) = (completed, sv2)" by (metis surj_pair)
  have l2: "later sv1 sv2" using later_drain_frames [of sv1 lib cfg now False] d by simp
  define sv3 where "sv3 = check_header_block now (partial_deadline cfg now completed sv2)"
  have "later sv2 (partial_deadline cfg now completed sv2)" by (rule later_same) (simp_all add: partial_deadline_def)
  then have l3: "later sv2 sv3" by (simp add: sv3_def check_header_block_def later_trans [OF _ later_fail])
  define sv4 where "sv4 = expire_bodies now (body_deadlines cfg now sv3)"
  have l4: "later sv3 sv4"
    unfolding sv4_def expire_bodies_def by (rule later_trans [OF later_body_deadlines later_fold]) (rule later_expire)
  define sv6 where "sv6 = fold next_pull chunks (fold (next_handler lib exact) handlers sv4)"
  have l6: "later sv4 sv6"
    unfolding sv6_def by (rule later_trans [OF later_fold later_fold]) (rule later_next_handler, rule later_next_pull)
  have l7: "later sv6 (on_send (pump_streams now (c_peer (sv_conn sv6))) sv6)" by (rule later_send) simp
  have "reset_responses cfg now (on_send (pump_streams now (c_peer (sv_conn sv6))) sv6) = (stall, idle, sv')"
    using assms d by (simp add: serve_pass_def Let_def sv1_def sv3_def sv4_def sv6_def)
  from later_reset_responses [OF this] l1 l2 l3 l4 l6 l7 show ?thesis by (blast intro: later_trans)
qed

lemma later_flush: "later sv (flushed sv)" "later sv (flush_failed sv)"
proof -
  have "sends (sv_send sv) ((sv_send sv)\<lparr>sd_out := x, sd_completions := y, sd_ends := z\<rparr>)" for x y z
    by (rule sends_same) simp_all
  then show "later sv (flushed sv)" by (rule later_put_send) (simp_all add: flushed_def Let_def)
  show "later sv (flush_failed sv)"
    unfolding flush_failed_def by (rule later_send) (rule sends_same, simp_all)
qed

lemma later_abort_all: "later sv (on_conn abort_all sv)"
proof (cases "known sv")
  case True
  then have "ids_ok (conn_view sv)" by (simp add: known_def conn_view_def)
  then have "evo (conn_view sv) (abort_all (conn_view sv))"
    unfolding abort_all_def by (intro evo_abort_fold) (auto simp: ids_ok_def)
  then show ?thesis unfolding on_conn_def by (intro later_put_conn) (simp add: evo_view)
qed (simp add: later_def)

lemma later_abandon_drain: "later sv (abandon_drain sv)"
proof -
  define sv1 where "sv1 = fold (\<lambda>sid. on_conn (expire_stream sid)) (map fst (c_streams (sv_conn sv))) sv"
  have l1: "later sv sv1" unfolding sv1_def by (rule later_fold) (rule later_expire)
  define sv2 where "sv2 = on_conn abort_all sv1"
  have l2: "later sv1 sv2" unfolding sv2_def by (rule later_abort_all)
  define sv3 where "sv3 = on_send (fold reset_cancel (map fst (sd_outstreams (sv_send sv2)))) sv2"
  have l3: "later sv2 sv3" unfolding sv3_def by (rule later_send) (rule sends_fold, simp)
  have "later sv3 (send_goaway err_NO_ERROR (sv3\<lparr>sv_pending_window := []\<rparr>))"
    by (rule later_trans [OF later_same later_goaway]) simp_all
  then have "later sv3 (abandon_drain sv)" by (simp add: abandon_drain_def Let_def sv1_def sv2_def sv3_def)
  with l1 l2 l3 show ?thesis by (blast intro: later_trans)
qed

lemma later_event:
  assumes "serve_event lib exact cfg now ev sv = Some sv'"
  shows "later sv sv'"
proof (cases ev)
  case Shutdown
  have "later sv (send_goaway err_NO_ERROR (sv\<lparr>sv_shutdown_drain := True\<rparr>))"
    by (rule later_trans [OF later_same later_goaway]) simp_all
  from later_after [OF this] show ?thesis
    using assms Shutdown by (auto simp: serve_event_def Let_def later_same)
next
  case Drain_timer
  then show ?thesis using assms later_stop [OF later_abandon_drain] by (auto simp: serve_event_def)
qed (use assms in \<open>auto simp: serve_event_def later_next_handler later_next_pull later_stop later_same\<close>)

lemma later_step: "serve_step lib exact cfg (ph, t, sv) (ph', t', sv') \<Longrightarrow> later sv sv'"
proof (erule serve_step.cases, goal_cases)
  case (7 t handlers chunks sv stall idle sv')
  then show ?case using later_trans [OF later_pass later_flush(1)] by auto
next
  case (8 t handlers chunks sv stall idle sv')
  then show ?case using later_trans [OF later_pass later_flush(2)] by auto
next
  case (11 sv b b' others' ph t)
  then show ?case
    by (auto simp: later_def known_def one_way_def ids_ok_def linked_def dispatched_def)
qed (auto simp: later_flush intro: later_event)

lemma later_steps:
  assumes "(serve_step lib exact cfg)\<^sup>*\<^sup>* (ph, t, sv) (ph', t', sv')"
  shows "later sv sv'"
  using assms
proof (induction "(ph', t', sv')" arbitrary: ph' t' sv' rule: rtranclp_induct)
  case (step s)
  then show ?case by (cases s) (auto intro: later_trans later_step)
qed simp

section \<open>Properties of a run\<close>

lemma reach_top: "serve_reach lib exact cfg memo others (Top, t, flushed (server_start cfg memo others t))"
proof -
  let ?sv = "server_start cfg memo others t"
  have "serve_step lib exact cfg (Preface [], t, ?sv) (Preface ([] @ PREFACE), t, ?sv)"
    by (rule serve_step.preface_read) simp
  moreover have "serve_step lib exact cfg (Preface PREFACE, t, ?sv) (Top, t, flushed ?sv)"
    by (rule serve_step.started)
  ultimately show ?thesis
    unfolding serve_reach_def by (intro exI [of _ t]) (auto intro: converse_rtranclp_into_rtranclp)
qed



text \<open>C3. A stream id is used once. From any reachable state on, an id that has been seen only moves
  forward: once it has left the table of streams it never comes back there, once its handler has
  yielded (or it was reset before it had one) it is never dispatched again, and once its response
  has ended nothing is ever sent for it again. The highest id never falls, and the last stream id
  announced in a GOAWAY never rises.\<close>

theorem stream_ids_used_once:
  assumes "config_ok others cfg" "serve_reach lib exact cfg memo others (ph, t, sv)"
    and "(serve_step lib exact cfg)\<^sup>*\<^sup>* (ph, t, sv) (ph', t', sv')" "i \<le> last_id (sv_conn sv)"
  shows "(i \<notin> stream_ids (sv_conn sv) \<longrightarrow> i \<notin> stream_ids (sv_conn sv')) \<and>
    (i \<notin> stream_ids (sv_conn sv) \<union> dispatched (sv_conn sv) \<longrightarrow> i \<notin> dispatched (sv_conn sv')) \<and>
    (i \<notin> stream_ids (sv_conn sv) \<union> dispatched (sv_conn sv) \<union> send_ids (sv_send sv) \<longrightarrow> i \<notin> send_ids (sv_send sv')) \<and>
    last_id (sv_conn sv) \<le> last_id (sv_conn sv') \<and> goaway_mono (c_recv (sv_conn sv)) (c_recv (sv_conn sv'))"
proof -
  have "known sv" using serve_reach_inv [OF assms(1,2)] by (simp add: known_def server_inv_def core_inv_def)
  then have "one_way sv sv'" using later_steps [OF assms(3)] by (simp add: later_def)
  then show ?thesis using assms(4) by (simp add: one_way_def)
qed

theorem stream_ids_used_once_witness:
  "let sv = flushed (server_start config_default memo_empty 0 7) :: (header list, unit, nat) server
   in (serve_step assoc_lib (\<lambda>b. None) config_default)\<^sup>*\<^sup>* (Top, 7, sv) (Top, 9, sv) \<and> 0 \<notin> send_ids (sv_send sv)"
proof -
  let ?sv = "flushed (server_start config_default memo_empty 0 7) :: (header list, unit, nat) server"
  have run: "(serve_step assoc_lib (\<lambda>b. None) config_default)\<^sup>*\<^sup>* (Top, 7, ?sv) (Top, 9, ?sv)"
    by (rule r_into_rtranclp) (rule serve_step.tick, simp)
  have "0 \<notin> stream_ids (sv_conn ?sv)" "0 \<notin> dispatched (sv_conn ?sv)" "0 \<notin> send_ids (sv_send ?sv)"
    by (simp_all add: flushed_def server_start_def Let_def stream_ids_def dispatched_def conn_start_def send_ids_def
        sender_start_def)
  then show ?thesis
    using stream_ids_used_once [OF config_default_ok reach_top [of assoc_lib "\<lambda>b. None" config_default memo_empty 0 7] run, of 0] run
    by simp
qed

section \<open>Reading in pieces\<close>

lemma inbuf_moves:
  "put_conn c (sv\<lparr>sv_inbuf := x\<rparr>) = (put_conn c sv)\<lparr>sv_inbuf := x\<rparr>" "conn_view (sv\<lparr>sv_inbuf := x\<rparr>) = conn_view sv"
  "on_send g (sv\<lparr>sv_inbuf := x\<rparr>) = (on_send g sv)\<lparr>sv_inbuf := x\<rparr>"
  "stop_reading (sv\<lparr>sv_inbuf := x\<rparr>) = (stop_reading sv)\<lparr>sv_inbuf := x\<rparr>"
  "forget_window sid (sv\<lparr>sv_inbuf := x\<rparr>) = (forget_window sid sv)\<lparr>sv_inbuf := x\<rparr>"
  by (cases sv, simp add: put_conn_def conn_view_def on_send_def stop_reading_def forget_window_def)+

lemma inbuf_moves_conn:
  "on_conn f (sv\<lparr>sv_inbuf := x\<rparr>) = (on_conn f sv)\<lparr>sv_inbuf := x\<rparr>"
  "fail_with code (sv\<lparr>sv_inbuf := x\<rparr>) = (fail_with code sv)\<lparr>sv_inbuf := x\<rparr>"
  "progressed (sv\<lparr>sv_inbuf := x\<rparr>) = (progressed sv)\<lparr>sv_inbuf := x\<rparr>"
  by (simp_all add: on_conn_def fail_with_def send_goaway_def progressed_def inbuf_moves)

lemma inbuf_order:
  "sv\<lparr>sv_inbuf := x, sv_pending_window := w\<rparr> = sv\<lparr>sv_pending_window := w, sv_inbuf := x\<rparr>"
  "sv\<lparr>sv_inbuf := x, sv_header_block_deadline := d\<rparr> = sv\<lparr>sv_header_block_deadline := d, sv_inbuf := x\<rparr>"
  "sv\<lparr>sv_inbuf := x, sv_draining := y, sv_drain_at := t\<rparr> = sv\<lparr>sv_draining := y, sv_drain_at := t, sv_inbuf := x\<rparr>"
  "sv\<lparr>sv_inbuf := x, sv_accepting := y\<rparr> = sv\<lparr>sv_accepting := y, sv_inbuf := x\<rparr>"
  by simp_all

lemma inbuf_credit:
  "conn_credit increment (sv\<lparr>sv_inbuf := x\<rparr>) = map_prod id (sv_inbuf_update (\<lambda>_. x)) (conn_credit increment sv)"
  "stream_credit sid increment st (sv\<lparr>sv_inbuf := x\<rparr>) = (stream_credit sid increment st sv)\<lparr>sv_inbuf := x\<rparr>"
  "shift_windows delta (sv\<lparr>sv_inbuf := x\<rparr>) = map_prod id (sv_inbuf_update (\<lambda>_. x)) (shift_windows delta sv)"
  by (simp_all add: conn_credit_def stream_credit_def shift_windows_def Let_def inbuf_moves inbuf_moves_conn)

lemma inbuf_moves_credit:
  "park_credit now sid increment (sv\<lparr>sv_inbuf := x\<rparr>) =
   map_prod id (sv_inbuf_update (\<lambda>_. x)) (park_credit now sid increment sv)"
  by (simp add: park_credit_def Let_def inbuf_moves inbuf_moves_conn inbuf_order split: prod.split option.split)

lemma inbuf_moves_outcome:
  "handle_outcome cfg now out (sv\<lparr>sv_inbuf := x\<rparr>) = map_prod id (sv_inbuf_update (\<lambda>_. x)) (handle_outcome cfg now out sv)"
  by (cases out) (simp_all add: handle_outcome_def inbuf_moves inbuf_moves_conn inbuf_credit inbuf_moves_credit inbuf_order
      split: option.split)

lemma inbuf_moves_frame:
  "serve_frame lib cfg now hdr payload (sv\<lparr>sv_inbuf := x\<rparr>) =
   map_prod id (sv_inbuf_update (\<lambda>_. x)) (serve_frame lib cfg now hdr payload sv)"
  by (simp add: serve_frame_def Let_def inbuf_moves inbuf_order inbuf_moves_outcome split: prod.split)

lemma next_frame_append:
  "next_frame cap a \<noteq> NeedMore \<Longrightarrow>
   next_frame cap (a @ b) = (case next_frame cap a of GotFrame hdr payload rest \<Rightarrow> GotFrame hdr payload (rest @ b) | r \<Rightarrow> r)"
  by (auto simp: next_frame_def frame_parse_def slice_get_def frame_header_LEN_def nth_append Let_def
      split: if_splits option.splits)

lemma next_frame_rest: "next_frame cap buf = GotFrame hdr payload rest \<Longrightarrow> \<exists>n. rest = drop n buf"
  by (auto simp: next_frame_def Let_def split: if_splits option.splits)

lemma outcome_left: "handle_outcome cfg now out sv = (True, sv') \<Longrightarrow> \<not> sv_reading sv'"
  unfolding handle_outcome_def conn_credit_def park_credit_def shift_windows_def Let_def
  by (auto simp: fail_with_def stop_reading_def split: frame_outcome.splits option.splits prod.splits if_splits)

lemma left_not_reading: "serve_frame lib cfg now hdr payload sv = (True, sv') \<Longrightarrow> \<not> sv_reading sv'"
  unfolding serve_frame_def Let_def by (auto split: prod.splits dest: outcome_left)

lemma drain_step:
  assumes "sv_reading sv" "next_frame (frame_cap cfg) (sv_inbuf sv) = GotFrame hdr payload rest"
    and "serve_frame lib cfg now hdr payload (sv\<lparr>sv_inbuf := rest\<rparr>) = (left, sv1)"
  shows "drain_frames lib cfg now (completed, sv) = drain_frames lib cfg now (True, sv1)"
  using assms left_not_reading [of lib cfg now hdr payload "sv\<lparr>sv_inbuf := rest\<rparr>" sv1]
  by (cases left) (simp_all add: drain_frames.simps [of lib cfg now])

lemma drain_idle:
  "\<not> sv_reading sv \<or> next_frame (frame_cap cfg) (sv_inbuf sv) = NeedMore \<Longrightarrow>
   drain_frames lib cfg now (completed, sv) = (completed, sv)"
  by (cases "sv_reading sv") (simp_all add: drain_frames.simps)

lemma drain_error:
  "sv_reading sv \<Longrightarrow> next_frame (frame_cap cfg) (sv_inbuf sv) \<in> {Unparsed, TooLarge} \<Longrightarrow>
   drain_frames lib cfg now (completed, sv) =
     (completed, fail_with (if next_frame (frame_cap cfg) (sv_inbuf sv) = TooLarge
        then err_FRAME_SIZE_ERROR else err_PROTOCOL_ERROR) sv)"
  by (auto simp: drain_frames.simps)

text \<open>C39. The loop over the received frames ends, and it ends with nothing left to do: either the
  connection is no longer read, or what is left in the buffer is not a whole frame. What it leaves is a suffix of what
  it was given.\<close>

theorem drain_frames_complete:
  assumes "drain_frames lib cfg now (completed, sv) = (completed', sv')"
  shows "(sv_reading sv' \<longrightarrow> next_frame (frame_cap cfg) (sv_inbuf sv') = NeedMore) \<and>
    (\<exists>n. sv_inbuf sv' = drop n (sv_inbuf sv))"
  using assms
proof (induction "length (sv_inbuf sv)" arbitrary: completed sv rule: less_induct)
  case less
  let ?next = "next_frame (frame_cap cfg) (sv_inbuf sv)"
  consider (idle) "\<not> sv_reading sv \<or> ?next = NeedMore" | (error) "?next = Unparsed \<or> ?next = TooLarge" "sv_reading sv"
    | (frame) hdr payload rest where "?next = GotFrame hdr payload rest" "sv_reading sv"
    by (cases ?next) auto
  then show ?case
  proof cases
    case idle
    then have "sv' = sv" using less(2) drain_idle [OF idle, of lib now completed] by simp
    then show ?thesis using idle by (auto intro: exI [of _ 0])
  next
    case error
    then obtain code where "sv' = fail_with code sv" using less(2) drain_error [of sv cfg lib now completed] by auto
    then show ?thesis by (auto simp: fail_with_def stop_reading_def intro: exI [of _ 0])
  next
    case (frame hdr payload rest)
    obtain left sv1 where f: "serve_frame lib cfg now hdr payload (sv\<lparr>sv_inbuf := rest\<rparr>) = (left, sv1)"
      by (cases "serve_frame lib cfg now hdr payload (sv\<lparr>sv_inbuf := rest\<rparr>)")
    have r: "sv_inbuf sv1 = rest" using arg_cong [OF f, of "\<lambda>p. sv_inbuf (snd p)"] by simp
    have d: "drain_frames lib cfg now (True, sv1) = (completed', sv')" using less(2) drain_step [OF frame(2,1) f] by simp
    have "length (sv_inbuf sv1) < length (sv_inbuf sv)" using next_frame_shorter [OF frame(1)] r by simp
    from less(1) [OF this d] show ?thesis using next_frame_rest [OF frame(1)] r by (auto simp: drop_drop)
  qed
qed

theorem drain_frames_complete_witness:
  "let sv = (server_start config_default memo_empty 0 7)\<lparr>sv_inbuf := [0, 0, 0]\<rparr> :: (header list, unit, nat) server;
       (completed, sv') = drain_frames assoc_lib config_default 7 (False, sv)
   in sv_reading sv' \<and> next_frame (frame_cap config_default) (sv_inbuf sv') = NeedMore"
proof -
  let ?sv = "(server_start config_default memo_empty 0 7)\<lparr>sv_inbuf := [0, 0, 0]\<rparr> :: (header list, unit, nat) server"
  have d: "drain_frames assoc_lib config_default 7 (False, ?sv) = (False, ?sv)"
    by (simp add: drain_frames.simps next_frame_def frame_header_LEN_def)
  show ?thesis using drain_frames_complete [OF d] unfolding Let_def d by (simp add: server_start_def)
qed

text \<open>C4. How the network cuts the octets into pieces does not matter: processing the frames of a first piece and then, with
  what was left over, those of the rest, ends in the same state as processing them all at
  once.\<close>

theorem drain_frames_segments:
  "drain_frames lib cfg now (completed, sv\<lparr>sv_inbuf := a @ b\<rparr>) =
   (case drain_frames lib cfg now (completed, sv\<lparr>sv_inbuf := a\<rparr>) of
      (completed', sv') \<Rightarrow> drain_frames lib cfg now (completed', sv'\<lparr>sv_inbuf := sv_inbuf sv' @ b\<rparr>))"
proof (induction "length a" arbitrary: a completed sv rule: less_induct)
  case less
  let ?sv = "sv\<lparr>sv_inbuf := a\<rparr>"
  let ?next = "next_frame (frame_cap cfg) a"
  consider (idle) "\<not> sv_reading sv \<or> ?next = NeedMore" | (error) "?next = Unparsed \<or> ?next = TooLarge" "sv_reading sv"
    | (frame) hdr payload rest where "?next = GotFrame hdr payload rest" "sv_reading sv"
    by (cases ?next) auto
  then show ?case
  proof cases
    case idle
    then show ?thesis using drain_idle [of ?sv cfg lib now completed] by simp
  next
    case error
    define code where "code = (if ?next = TooLarge then err_FRAME_SIZE_ERROR else err_PROTOCOL_ERROR)"
    have "drain_frames lib cfg now (completed, sv\<lparr>sv_inbuf := a @ x\<rparr>) = (completed, (fail_with code sv)\<lparr>sv_inbuf := a @ x\<rparr>)" for x
      using error drain_error [of "sv\<lparr>sv_inbuf := a @ x\<rparr>" cfg lib now completed]
      by (auto simp: next_frame_append inbuf_moves_conn code_def)
    from this [of b] this [of "[]"] show ?thesis
      using drain_idle [of "(fail_with code sv)\<lparr>sv_inbuf := a @ b\<rparr>" cfg lib now completed]
      by (simp add: fail_with_def stop_reading_def)
  next
    case (frame hdr payload rest)
    obtain left sv1 where f: "serve_frame lib cfg now hdr payload (sv\<lparr>sv_inbuf := rest\<rparr>) = (left, sv1)"
      by (cases "serve_frame lib cfg now hdr payload (sv\<lparr>sv_inbuf := rest\<rparr>)")
    have r: "sv_inbuf sv1 = rest" using arg_cong [OF f, of "\<lambda>p. sv_inbuf (snd p)"] by simp
    then have u: "sv1\<lparr>sv_inbuf := rest\<rparr> = sv1" by (cases sv1) simp
    have f': "serve_frame lib cfg now hdr payload (sv\<lparr>sv_inbuf := rest @ b\<rparr>) = (left, sv1\<lparr>sv_inbuf := rest @ b\<rparr>)"
      using f by (cases "serve_frame lib cfg now hdr payload sv") (auto simp: inbuf_moves_frame)
    have "drain_frames lib cfg now (completed, ?sv) = drain_frames lib cfg now (True, sv1\<lparr>sv_inbuf := rest\<rparr>)"
      using drain_step [of ?sv cfg hdr payload rest lib now left sv1] frame f u by simp
    moreover have "drain_frames lib cfg now (completed, sv\<lparr>sv_inbuf := a @ b\<rparr>) = drain_frames lib cfg now (True, sv1\<lparr>sv_inbuf := rest @ b\<rparr>)"
      by (rule drain_step [of _ _ hdr payload "rest @ b" _ _ left])
        (use frame f' in \<open>simp_all add: next_frame_append\<close>)
    ultimately show ?thesis using less [of rest True sv1] next_frame_shorter [OF frame(1)] by simp
  qed
qed

end
