(* ===== verification/H2_Drain.thy ===== *)
theory H2_Drain
  imports H2_Serve_Run
begin

text \<open>
  The end of a drain. When its bound elapses \<open>abandon_drain\<close> resets what is left and announces the end; from
  then on nothing more is written, and the connection closes as soon as the handlers and pulls
  that still run have yielded.
\<close>

section \<open>A connection with nothing left to send\<close>

definition emitted :: "('h, 'b, 'k) server \<Rightarrow> bytes" where
  "emitted sv = sv_wire sv @ sd_out (sv_send sv)"

definition spent :: "('h, 'b, 'k) server \<Rightarrow> bool" where
  "spent sv \<longleftrightarrow> \<not> sv_reading sv \<and> c_streams (sv_conn sv) = [] \<and> c_inflight_sids (sv_conn sv) = {} \<and>
     sd_outstreams (sv_send sv) = []"

definition pulling :: "('h, 'b, 'k) server \<Rightarrow> u32 set" where
  "pulling sv = fst ` set (sd_pulls (sv_send sv))"

text \<open>A step that keeps it so, writes nothing, and has no new work.\<close>

definition rests :: "('h, 'b, 'k) server \<Rightarrow> ('h, 'b, 'k) server \<Rightarrow> bool" where
  "rests sv sv' \<longleftrightarrow> (spent sv \<longrightarrow> spent sv' \<and> emitted sv' = emitted sv \<and>
     dispatched (sv_conn sv') \<subseteq> dispatched (sv_conn sv) \<and> pulling sv' \<subseteq> pulling sv)"

lemma rests_refl [simp]: "rests sv sv"
  by (simp add: rests_def)

lemma rests_trans: "rests sv sv1 \<Longrightarrow> rests sv1 sv2 \<Longrightarrow> rests sv sv2"
  unfolding rests_def by (metis order_trans)

lemma rests_fold: "(\<And>x sv. rests sv (f x sv)) \<Longrightarrow> rests sv (fold f xs sv)"
  by (induction xs arbitrary: sv) (auto intro: rests_trans)

lemma rests_same:
  "sv_reading sv' = sv_reading sv \<Longrightarrow> sv_conn sv' = sv_conn sv \<Longrightarrow> sv_send sv' = sv_send sv \<Longrightarrow> sv_wire sv' = sv_wire sv \<Longrightarrow>
   rests sv sv'"
  by (simp add: rests_def spent_def emitted_def pulling_def)

lemma rests_handler:
  "rests sv (next_handler lib exact ready sv) \<and>
   (spent sv \<longrightarrow> dispatched (sv_conn (next_handler lib exact ready sv)) \<subseteq> dispatched (sv_conn sv) - {fst ready})"
proof (cases "map_of (c_inflight (sv_conn sv)) (fst ready)")
  case None
  then have "next_handler lib exact ready sv = sv" by (simp add: next_handler_def case_prod_unfold)
  then show ?thesis using None by (simp add: dispatched_def map_of_eq_None_iff)
next
  case (Some v)
  obtain sid resp is_head req where r: "ready = (sid, resp)" "v = (is_head, req)" by (cases ready, cases v)
  show ?thesis
    using Some by (auto simp: r next_handler_def handler_yielded_def rests_def spent_def emitted_def pulling_def
        dispatched_def keys_delete Let_def)
qed

lemma apply_nothing: "sd_outstreams s = [] \<Longrightarrow> apply_pull sid b res s = s"
  by (simp add: apply_pull_def get_out_def)

lemma rests_pull:
  "rests sv (next_pull ready sv) \<and> (spent sv \<longrightarrow> pulling (next_pull ready sv) \<subseteq> pulling sv - {fst ready})"
proof -
  obtain sid b res where r: "ready = (sid, b, res)" by (cases ready)
  show ?thesis
  proof (cases "map_of (sd_pulls (sv_send sv)) sid")
    case None
    then show ?thesis by (simp add: r next_pull_def pulling_def map_of_eq_None_iff)
  next
    case (Some v)
    then show ?thesis
      by (simp add: r next_pull_def on_send_def rests_def spent_def emitted_def pulling_def keys_delete apply_nothing Diff_subset)
  qed
qed

lemma pump_nothing: "sd_outstreams s = [] \<Longrightarrow> \<exists>sch. pump_loop now mf visits s = s\<lparr>sd_schedule := sch\<rparr>"
proof (induction now mf visits s rule: pump_loop.induct)
  case (1 now mf visits s)
  show ?case
  proof (cases "visits = 0 \<or> sd_schedule s = []")
    case True
    then have "pump_loop now mf visits s = s\<lparr>sd_schedule := sd_schedule s\<rparr>" by (subst pump_loop.simps) auto
    then show ?thesis by blast
  next
    case False
    then obtain sid rest where sch: "sd_schedule s = sid # rest" by (cases "sd_schedule s") auto
    let ?s = "s\<lparr>sd_schedule := rest\<rparr>"
    have st: "pump_step now mf sid ?s = (False, ?s)"
      using "1.prems" by (simp add: pump_step_def pump_visit_def remove_out_def get_out_def)
    have v: "visits \<noteq> 0" using False by simp
    have "pump_loop now mf visits s = pump_loop now mf (visits - 1) ?s"
      using False sch st by (subst pump_loop.simps) simp
    moreover have "\<exists>sch. pump_loop now mf (if False then length (sd_schedule ?s) else visits - 1) ?s = ?s\<lparr>sd_schedule := sch\<rparr>"
      by (rule "1.IH" [OF v sch st [symmetric]]) (use "1.prems" in simp)
    ultimately show ?thesis by simp
  qed
qed

lemma rests_pump: "rests sv (on_send (pump_streams now peer) sv)"
  using pump_nothing [of "sv_send sv" now "max (unat (p_max_frame_size peer)) 1" "length (sd_schedule (sv_send sv))"]
  by (force simp: rests_def spent_def emitted_def pulling_def on_send_def pump_streams_def)

lemma rests_resets: "rests sv (snd (snd (reset_responses cfg now sv)))"
  by (auto simp: reset_responses_def reset_stalled_streams_def reset_drain_idle_streams_def rests_def spent_def emitted_def
      pulling_def split: option.split bool.split)

lemma rests_deadlines: "rests sv (check_header_block now (partial_deadline cfg now completed sv))"
  by (simp add: rests_def spent_def emitted_def pulling_def check_header_block_def partial_deadline_def)

lemma rests_bodies: "rests sv (expire_bodies now (body_deadlines cfg now sv))"
proof (cases "cfg_request_body_timeout cfg")
  case None
  then show ?thesis by (simp add: body_deadlines_def expire_bodies_def rests_def spent_def expired_bodies_def)
next
  case (Some d)
  obtain streams progress where a:
    "advance_body_deadlines now d (cfg_request_body_ceiling cfg) (c_streams (sv_conn sv), sv_body_progress sv) = (streams, progress)"
    by (cases "advance_body_deadlines now d (cfg_request_body_ceiling cfg) (c_streams (sv_conn sv), sv_body_progress sv)")
  have "map fst streams = map fst (c_streams (sv_conn sv))"
    using advance_same [of now d "cfg_request_body_ceiling cfg" "c_streams (sv_conn sv)" "sv_body_progress sv"] a
    by (simp add: same_streams_keys)
  then have "streams = []" if "spent sv" using that by (simp add: spent_def)
  then show ?thesis
    using Some a by (auto simp: body_deadlines_def expire_bodies_def rests_def spent_def expired_bodies_def emitted_def
        pulling_def dispatched_def)
qed

text \<open>The work that is left after a pass is what did not yield in it.\<close>

lemma spent_handlers:
  "spent sv \<Longrightarrow> dispatched (sv_conn (fold (next_handler lib exact) handlers sv)) \<subseteq> dispatched (sv_conn sv) - fst ` set handlers"
proof (induction handlers arbitrary: sv)
  case (Cons h handlers)
  have "spent (next_handler lib exact h sv)"
    "dispatched (sv_conn (next_handler lib exact h sv)) \<subseteq> dispatched (sv_conn sv) - {fst h}"
    using rests_handler [of sv lib exact h] Cons.prems by (simp_all add: rests_def)
  then show ?case using Cons.IH [of "next_handler lib exact h sv"] by auto
qed simp

lemma spent_pulls:
  "spent sv \<Longrightarrow> pulling (fold next_pull chunks sv) \<subseteq> pulling sv - fst ` set chunks"
proof (induction chunks arbitrary: sv)
  case (Cons ch chunks)
  have "spent (next_pull ch sv)" "pulling (next_pull ch sv) \<subseteq> pulling sv - {fst ch}"
    using rests_pull [of sv ch] Cons.prems by (simp_all add: rests_def)
  then show ?case using Cons.IH [of "next_pull ch sv"] by auto
qed simp

lemma spent_pass:
  assumes "serve_pass lib exact cfg now handlers chunks sv = (stall, idle, sv')" "spent sv"
  shows "spent sv' \<and> emitted sv' = emitted sv \<and>
    dispatched (sv_conn sv') \<subseteq> dispatched (sv_conn sv) - fst ` set handlers \<and> pulling sv' \<subseteq> pulling sv - fst ` set chunks"
proof -
  define sv1 where "sv1 = (case cfg_conn_idle_timeout cfg of None \<Rightarrow> sv | Some d \<Rightarrow> sv\<lparr>sv_idle_at := now + d\<rparr>)"
  define sv4 where "sv4 = expire_bodies now (body_deadlines cfg now (check_header_block now (partial_deadline cfg now False sv1)))"
  define sv5 where "sv5 = fold (next_handler lib exact) handlers sv4"
  define sv6 where "sv6 = fold next_pull chunks sv5"
  have r1: "rests sv sv1" unfolding sv1_def by (rule rests_same) (simp_all split: option.split)
  have r4: "rests sv sv4" unfolding sv4_def by (rule rests_trans [OF rests_trans [OF r1 rests_deadlines] rests_bodies])
  have r5: "rests sv4 sv5" unfolding sv5_def by (rule rests_fold) (simp add: rests_handler)
  have r6: "rests sv5 sv6" unfolding sv6_def by (rule rests_fold) (simp add: rests_pull)
  have "drain_frames lib cfg now (False, sv1) = (False, sv1)"
    using r1 assms(2) by (simp add: drain_idle rests_def spent_def)
  then have "reset_responses cfg now (on_send (pump_streams now (c_peer (sv_conn sv6))) sv6) = (stall, idle, sv')"
    using assms(1) by (simp add: serve_pass_def Let_def sv1_def [symmetric] sv4_def [symmetric] sv5_def [symmetric] sv6_def [symmetric])
  then have r7: "rests sv6 sv'" using rests_trans [OF rests_pump rests_resets] by (metis snd_conv)
  have s: "spent sv4" "spent sv5" using r4 r5 assms(2) by (simp_all add: rests_def)
  have "dispatched (sv_conn sv5) \<subseteq> dispatched (sv_conn sv4) - fst ` set handlers" "pulling sv6 \<subseteq> pulling sv5 - fst ` set chunks"
    unfolding sv5_def sv6_def using spent_handlers [OF s(1)] spent_pulls [OF s(2)] by (simp_all add: sv5_def)
  then show ?thesis using r4 r5 r6 r7 s assms(2) unfolding rests_def by (simp, meson order_trans Diff_mono order_refl)
qed

lemma rests_event:
  assumes "event_ready cfg t stall idle ev sv" "serve_event lib exact cfg t ev sv = Some sv'"
  shows "rests sv sv'"
proof (cases "sv_reading sv")
  case True
  then show ?thesis by (simp add: rests_def spent_def)
next
  case False
  then show ?thesis
    using assms
    by (cases ev) (auto simp: event_ready_def serve_event_def rests_handler rests_pull intro: rests_same)
qed

lemma rests_flush: "rests sv (flushed sv)" "rests sv (flush_failed sv)"
  by (simp_all add: rests_def spent_def emitted_def pulling_def flushed_def flush_failed_def on_send_def Let_def)

lemma rests_pass: "serve_pass lib exact cfg now handlers chunks sv = (stall, idle, sv') \<Longrightarrow> rests sv sv'"
  unfolding rests_def using spent_pass by blast

lemma rests_step: "serve_step lib exact cfg (ph, t, sv) (ph', t', sv') \<Longrightarrow> rests sv sv'"
proof (erule serve_step.cases, goal_cases)
  case (7 t handlers chunks sv stall idle sv')
  then show ?case using rests_trans [OF rests_pass rests_flush(1)] by auto
next
  case (8 t handlers chunks sv stall idle sv')
  then show ?case using rests_trans [OF rests_pass rests_flush(2)] by auto
next
  case (11 sv b b' others' ph t)
  then show ?case by (auto simp: rests_def spent_def emitted_def pulling_def dispatched_def)
qed (auto simp: rests_flush intro: rests_event)

lemma rests_steps: "(serve_step lib exact cfg)\<^sup>*\<^sup>* (ph, t, sv) (ph', t', sv') \<Longrightarrow> rests sv sv'"
  by (induction "(ph', t', sv')" arbitrary: ph' t' sv' rule: rtranclp_induct) (auto intro: rests_trans rests_step)

section \<open>The drain is abandoned\<close>

lemma expire_one:
  "stream_ids (expire_stream sid c) = stream_ids c - {sid}"
  "c_inflight_sids (expire_stream sid c) = c_inflight_sids c" "c_inflight (expire_stream sid c) = c_inflight c"
proof -
  have e: "expire_stream sid c = snd (expire_receiving sid c) \<or>
      expire_stream sid c = out_frames (\<lambda>b. write_rst_stream b sid err_CANCEL) (snd (expire_receiving sid c))"
    by (simp add: expire_stream_def split: prod.split)
  have t: "stream_ids (teardown_receiving sid c') = stream_ids c' - {sid}"
    "c_inflight_sids (teardown_receiving sid c') = c_inflight_sids c'" "c_inflight (teardown_receiving sid c') = c_inflight c'" for c' :: "'a conn"
    by (simp_all add: teardown_receiving_def Let_def)
  have "stream_ids (snd (expire_receiving sid c)) = stream_ids c - {sid} \<and>
      c_inflight_sids (snd (expire_receiving sid c)) = c_inflight_sids c \<and> c_inflight (snd (expire_receiving sid c)) = c_inflight c"
    by (cases rule: expire_receivingE [of c sid]) (auto simp: t block_diverted_def)
  then show "stream_ids (expire_stream sid c) = stream_ids c - {sid}"
    "c_inflight_sids (expire_stream sid c) = c_inflight_sids c" "c_inflight (expire_stream sid c) = c_inflight c"
    using e by (elim disjE; simp add: out_frames_def)+
qed

lemma expire_all:
  "stream_ids (sv_conn (fold (\<lambda>sid. on_conn (expire_stream sid)) sids sv)) = stream_ids (sv_conn sv) - set sids"
  "c_inflight_sids (sv_conn (fold (\<lambda>sid. on_conn (expire_stream sid)) sids sv)) = c_inflight_sids (sv_conn sv)"
  "c_inflight (sv_conn (fold (\<lambda>sid. on_conn (expire_stream sid)) sids sv)) = c_inflight (sv_conn sv)"
  by (induction sids arbitrary: sv) (auto simp: on_conn_def put_conn_def conn_view_def expire_one)

lemma abort_all_none: "c_inflight_sids c \<subseteq> dispatched c \<Longrightarrow> c_inflight_sids (abort_all c) = {}"
  "c_streams (abort_all c) = c_streams c"
proof -
  have f: "c_inflight_sids (fold abort_one sids c) = c_inflight_sids c - set sids \<and> c_streams (fold abort_one sids c) = c_streams c" for sids
    by (induction sids arbitrary: c) (auto simp: abort_one_def Let_def)
  show "c_inflight_sids c \<subseteq> dispatched c \<Longrightarrow> c_inflight_sids (abort_all c) = {}" "c_streams (abort_all c) = c_streams c"
    unfolding abort_all_def using f by (auto simp: dispatched_def)
qed

lemma reset_all: "sd_outstreams (fold reset_cancel (map fst (sd_outstreams s)) s) = []"
proof -
  have "fst ` set (sd_outstreams (fold reset_cancel sids s)) = fst ` set (sd_outstreams s) - set sids" for sids
    by (induction sids arbitrary: s) (auto simp: reset_cancel_def cancel_outstreams keys_delete out_write_def)
  from this [of "map fst (sd_outstreams s)"] show ?thesis by simp
qed

lemma abandoned_spent:
  assumes "c_inflight_sids (sv_conn sv) \<subseteq> dispatched (sv_conn sv)"
  shows "spent (stop_reading (abandon_drain sv))"
proof -
  define sv1 where "sv1 = fold (\<lambda>sid. on_conn (expire_stream sid)) (map fst (c_streams (sv_conn sv))) sv"
  define sv2 where "sv2 = on_conn abort_all sv1"
  define sv3 where "sv3 = (on_send (fold reset_cancel (map fst (sd_outstreams (sv_send sv2)))) sv2)\<lparr>sv_pending_window := []\<rparr>"
  have "stream_ids (sv_conn sv1) = {}" by (simp add: sv1_def expire_all stream_ids_def [of "sv_conn sv"])
  then have "c_streams (sv_conn sv1) = []" by (simp add: stream_ids_def)
  moreover have "c_inflight_sids (sv_conn sv1) \<subseteq> dispatched (sv_conn sv1)"
    using assms by (simp add: sv1_def expire_all dispatched_def)
  ultimately have "c_streams (sv_conn sv3) = []" "c_inflight_sids (sv_conn sv3) = {}"
    by (simp_all add: sv3_def sv2_def on_conn_def put_conn_def conn_view_def on_send_def abort_all_none dispatched_def)
  moreover have "sd_outstreams (sv_send sv3) = []" by (simp add: sv3_def on_send_def reset_all)
  moreover have "abandon_drain sv = send_goaway err_NO_ERROR sv3"
    by (simp add: abandon_drain_def Let_def sv1_def sv2_def sv3_def)
  ultimately show ?thesis
    by (simp add: spent_def stop_reading_def send_goaway_def on_conn_def put_conn_def conn_view_def goaway_def
        split: prod.split)
qed

lemma goaway_last: "\<exists>sent last_id. emitted (stop_reading (send_goaway code sv)) = sent @ write_goaway [] last_id code"
proof -
  have app: "write_goaway b i code = b @ write_goaway [] i code" for b i
    by (simp add: write_goaway_def write_frame_def frame_write_def)
  obtain i r where g: "goaway_last_stream_id (c_recv (sv_conn sv)) = (i, r)"
    by (cases "goaway_last_stream_id (c_recv (sv_conn sv))")
  have "emitted (stop_reading (send_goaway code sv)) = emitted sv @ write_goaway [] i code"
    by (simp add: emitted_def stop_reading_def send_goaway_def on_conn_def put_conn_def conn_view_def goaway_def
        out_frames_def g app [of "sd_out (sv_send sv)"])
  then show ?thesis by blast
qed

text \<open>C5. When the bound of a drain elapses, the connection ends in an orderly way. Whatever happens after
  the timer has fired, in any order, the last octets the connection ever writes are the GOAWAY that
  \<open>abandon_drain\<close> queued: no response is started, continued or reset any more. And the
  connection is not kept open by streams that stay blocked: the first pass in which the handlers
  and the pulls that still run yield closes it.\<close>

theorem abandoned_drain_closes:
  assumes "config_ok others cfg" "serve_reach lib exact cfg memo others (ph, t, sv)"
    and "serve_event lib exact cfg t Drain_timer sv = Some sv0"
    and "(serve_step lib exact cfg)\<^sup>*\<^sup>* (Top, t, sv0) (ph', t', sv')"
  shows "(\<exists>sent last_id. emitted sv' = sent @ write_goaway [] last_id err_NO_ERROR \<and> emitted sv0 = emitted sv') \<and>
    (\<forall>handlers chunks stall idle sv''.
       serve_pass lib exact cfg t' handlers chunks sv' = (stall, idle, sv'') \<and>
       dispatched (sv_conn sv') \<subseteq> fst ` set handlers \<and> fst ` set (sd_pulls (sv_send sv')) \<subseteq> fst ` set chunks \<longrightarrow>
       close_now (flushed sv''))"
proof -
  have sv0: "sv0 = stop_reading (abandon_drain sv)" using assms(3) by (simp add: serve_event_def)
  have "c_inflight_sids (sv_conn sv) \<subseteq> dispatched (sv_conn sv)"
    using serve_reach_inv [OF assms(1,2)] by (simp add: server_inv_def core_inv_def ids_ok_def)
  then have "spent sv0" unfolding sv0 by (rule abandoned_spent)
  then have s: "spent sv'" "emitted sv' = emitted sv0" using rests_steps [OF assms(4)] by (simp_all add: rests_def)
  have "\<exists>sent last_id. emitted sv0 = sent @ write_goaway [] last_id err_NO_ERROR"
    unfolding sv0 abandon_drain_def Let_def by (rule goaway_last)
  moreover have "close_now (flushed sv'')"
    if "serve_pass lib exact cfg t' handlers chunks sv' = (stall, idle, sv'')"
      "dispatched (sv_conn sv') \<subseteq> fst ` set handlers" "fst ` set (sd_pulls (sv_send sv')) \<subseteq> fst ` set chunks"
    for handlers chunks stall idle sv''
  proof -
    have p: "spent sv''" "dispatched (sv_conn sv'') \<subseteq> dispatched (sv_conn sv') - fst ` set handlers"
      "pulling sv'' \<subseteq> pulling sv' - fst ` set chunks" using spent_pass [OF that(1) s(1)] by simp_all
    have "dispatched (sv_conn sv'') = {}" using p(2) that(2) by (metis Diff_eq_empty_iff subset_empty)
    moreover have "pulling sv'' = {}" using p(3) that(3) by (metis Diff_eq_empty_iff pulling_def subset_empty)
    ultimately show ?thesis using p(1)
      by (simp add: close_now_def should_close_def flushed_def Let_def spent_def dispatched_def pulling_def)
  qed
  ultimately show ?thesis using s(2) by auto
qed

theorem abandoned_drain_closes_witness:
  "let sv = flushed (server_start config_default memo_empty 0 7) :: (header list, unit, nat) server;
       sv0 = stop_reading (abandon_drain sv);
       (stall, idle, sv'') = serve_pass assoc_lib (\<lambda>b. None) config_default 7 [] [] sv0
   in (\<exists>sent last_id. emitted sv0 = sent @ write_goaway [] last_id err_NO_ERROR) \<and> close_now (flushed sv'')"
proof -
  let ?sv = "flushed (server_start config_default memo_empty 0 7) :: (header list, unit, nat) server"
  let ?ended = "stop_reading (abandon_drain ?sv)"
  have "dispatched (sv_conn ?ended) = {}" "sd_pulls (sv_send ?ended) = []"
    by (simp_all add: flushed_def server_start_def sender_start_def conn_start_def dispatched_def stop_reading_def
        abandon_drain_def send_goaway_def abort_all_def on_conn_def on_send_def put_conn_def conn_view_def goaway_def
        out_frames_def Let_def split: prod.split)
  moreover have "serve_event assoc_lib (\<lambda>b. None) config_default 7 Drain_timer ?sv = Some ?ended"
    by (simp add: serve_event_def)
  note abandoned_drain_closes [OF config_default_ok reach_top this rtranclp.rtrancl_refl]
  ultimately show ?thesis by (simp add: Let_def split: prod.split)
qed

end
