(* ===== verification/Spec2Isabelle.thy ===== *)
theory Spec2Isabelle
  imports Hpack_Sync H2_Drain
begin

text \<open>
  A verification development for httpjet, an HTTP server written in Rust. It covers the HTTP/2 server of the
  crate \<open>hj-h2\<close> from the octets of a connection to its handlers and back, and the parts of \<open>hj-core\<close>
  that it rests on. Paths below are relative to \<open>src/crates\<close>.

  \<^bold>\<open>The program.\<close> A connection is one call of \<open>serve\<close> (\<open>hj-h2/src/server/mod.rs\<close>). It reads the preface, queues its
  SETTINGS, and then loops: cut the input into frames and process each (\<open>recv.rs\<close> on the state of
  \<open>state.rs\<close>), which decodes header blocks (\<open>hpack/\<close>), buffers bodies against a budget shared by the
  whole server (\<open>hj-core/src/budget.rs\<close>) and dispatches complete requests to handlers; start the
  responses of handlers that have yielded and take the body chunks that are ready; write DATA in
  turn over the streams as flow control allows (\<open>send.rs\<close>); reset what has stalled; flush the output queue;
  and wait for the next event or deadline.

  \<^bold>\<open>Conventions.\<close> An octet is an \<open>8 word\<close>, \<open>u16\<close>, \<open>u32\<close> and \<open>u64\<close> are words, \<open>usize\<close> is a natural number with its
  saturating operations written out, the \<open>i64\<close> send windows are integers (the code refuses a window above
  31 bits as soon as it is reached), an instant is a number of nanoseconds. A function that mutates its arguments returns them; an error is a value of
  a sum or option type; a hash map is an association list, whose order stands for the order of iteration.
  The \<open>http\<close> crate is a parameter, the record \<open>http_lib\<close>, of which \<open>header_map_laws\<close> is assumed where a
  theorem needs it; \<open>assoc_lib\<close> is an instance that satisfies it. What the runtime decides (when a future
  is ready, what the socket takes and gives, the time) is input of the model.

  \<^bold>\<open>The theories.\<close>

  \<^item> \<open>HJ_Prelude\<close>, \<open>Bit_Strings\<close>, \<open>Byte_Text\<close>: machine types, checked slices, bit strings, ASCII text; the
    lemmas the components share.
  \<^item> \<open>Hpack_Integer\<close> (\<open>hpack/integer.rs\<close>): round trip and bounds of the prefix integers.
  \<^item> \<open>Hpack_Huffman\<close>, \<open>Huffman_Code\<close>, \<open>Huffman_Encode\<close>, \<open>Huffman_Tables\<close>, \<open>Huffman_Decode\<close> (\<open>hpack/huffman.rs\<close>): the code
    is prefix-free, the encoder writes it, and the table-driven decoder equals a decoder that reads bit by
    bit, so that decoding inverts encoding and accepts nothing else.
  \<^item> \<open>Hpack_Static\<close> (\<open>hpack/static_table.rs\<close>), \<open>Hpack_Strings\<close>, \<open>Hpack_Table\<close>, \<open>Hpack_Encoder\<close>, \<open>Hpack_Decoder\<close>, \<open>Hpack_Sync\<close>
    (\<open>hpack/mod.rs\<close>): both ends with their dynamic tables. The locale \<open>dyn_table\<close> is the contract of a
    bounded table, \<open>table_pair\<close> that of two that move together; the encoder and the decoder interpret them. Every
    block decodes to what was encoded, in every state a connection reaches, and the tables agree.
  \<^item> \<open>H2_Frame\<close> (\<open>frame.rs\<close> and the frame cursor of \<open>serve\<close>): the locale \<open>wire_format\<close> is the contract of a
    self-delimiting format, which the frames interpret.
  \<^item> \<open>Body_Budget\<close> (\<open>budget.rs\<close>): reservations at the level of the atomic operations of any number of threads, and
    as the ledger (locale \<open>byte_ledger\<close>) that the connection uses.
  \<^item> \<open>Body_Deadline\<close> (\<open>body_deadline.rs\<close>): the deadline of a request body that extends with progress.
  \<^item> \<open>Uri_Authority\<close> (\<open>net.rs\<close>): the authority checks against the grammar of RFC 3986, as inductive predicates.
  \<^item> \<open>H2_State\<close> (\<open>server/state.rs\<close>), \<open>H2_Request\<close>, \<open>H2_Recv\<close>, \<open>H2_Start\<close> (\<open>server/recv.rs\<close>, the first state of \<open>serve\<close>): the record
    \<open>conn\<close> holds the receiving side; \<open>process_frame\<close> with one definition for each arm and each
    macro. \<open>H2_Invariant\<close>: every frame keeps the accounting and protocol invariant. \<open>H2_Ids\<close>: how
    a frame may move a stream id.
  \<^item> \<open>Out_Queue\<close> (\<open>OutQueue\<close> and the flush functions of \<open>mod.rs\<close>, \<open>owned_iovec.rs\<close>): the locale \<open>vectored_buffer\<close> is the
    contract of a buffer consumed by partial writes, interpreted by the borrowed and by the owned
    vectors; every flush path writes exactly what was queued.
  \<^item> \<open>H2_Send\<close>, \<open>H2_Response\<close> (\<open>server/send.rs\<close>): the record \<open>sender\<close> holds the sending side; the pump, pulls, stall and
    drain resets, \<open>begin_response\<close>, file bodies. What a client decodes from a response is what
    the handler gave.
  \<^item> \<open>H2_Server\<close> (\<open>serve\<close>, \<open>advance_body_deadlines\<close>, \<open>abandon_drain\<close>, \<open>should_close\<close> of \<open>mod.rs\<close>): the record \<open>server\<close> holds
    the locals of \<open>serve\<close>; \<open>serve_pass\<close> is the loop body up to the flush, \<open>serve_event\<close> the arms
    of the \<open>select!\<close>, and the inductive relation \<open>serve_step\<close> interleaves them with time, the socket
    and the other holders of the budget. \<open>H2_Serve_Inv\<close>: the invariant of the whole connection.
    \<open>H2_Serve_Run\<close>: the properties of a run. \<open>H2_Drain\<close>: how a drain ends.

  \<^bold>\<open>Bounds and loops.\<close> All functions are total. Loops that are not structural have termination proofs: the frame
  loop by the length of the buffer, the pump by what is left to send, flush loops by the octets left.
  No definition has fuel; the retry loop of a file read runs over the list of answers the system gives. No
  theorem bounds the number of streams, the sizes or the length of a run.

  \<^bold>\<open>Not modelled.\<close>

  \<^item> In \<open>hj-h2\<close>: \<open>serve_local_with_prefix\<close>, the copy of \<open>serve\<close> for the monoio runtime (its flush paths
    are); the half-close of the socket after the last flush; shrinking and preallocation of buffers; the
    counters of \<open>metrics\<close>. Priorities among the arms of the \<open>select!\<close> are not used: the model allows every ready
    arm, so that its runs include those of the biased choice.
  \<^item> In \<open>hj-core\<close>: \<open>acquire_wait\<close> of the budget, which waits on the semaphore and the notifier of \<open>tokio\<close>;
    socket helpers; request ids, buffer recycling, and the routing and handler types, which \<open>hj-h2\<close> does not use.
  \<^item> The other crates: configuration, TLS, ACME, OCSP, logging, compression and process supervision are
    glue around external libraries, the file system and sockets; the caches, access control, rewriting,
    FastCGI, LSAPI and static files have logic of their own, which the HTTP/2 server does not call: it sees
    them only as a handler that turns a request into a response.
\<close>

end
